(* ===== verification/SC_Prelude.thy ===== *)
theory SC_Prelude
  imports Main "HOL-Library.Word" "HOL-Library.Sublist"
begin

text \<open>
  Shared vocabulary of the development: the machine types of the C++ source, little-endian
  encodings (\<^verbatim>\<open>crypto/common.h\<close>), the wrap-around of signed machine integers, and the generic
  facts about lists and words that the component theories use.

  Conventions used everywhere:
  \<^item> \<open>unsigned char\<close> is \<open>8 word\<close>; a \<open>std::vector<unsigned char>\<close>, a \<open>prevector\<close> of bytes and a
    \<open>base_blob\<close> (\<open>uint160\<close>, \<open>uint256\<close>) are lists of bytes in memory order;
  \<^item> \<open>uint32_t\<close> and \<open>uint64_t\<close> are \<open>32 word\<close> and \<open>64 word\<close>;
  \<^item> \<open>int\<close>, \<open>int32_t\<close> and \<open>int64_t\<close> values are HOL integers; every operation of the source that
    could leave the range is followed by \<open>s32\<close> or \<open>s64\<close>, the two's complement wrap;
  \<^item> a \<open>throw\<close>, a failed \<open>assert\<close> and an error return are values of a sum type.
\<close>

unbundle bit_operations_syntax

subsection \<open>Machine types\<close>

type_synonym byte = "8 word"
type_synonym bytes = "byte list"
type_synonym u16 = "16 word"
type_synonym u32 = "32 word"
type_synonym u64 = "64 word"
type_synonym uint160 = bytes
type_synonym uint256 = bytes

definition s32 :: "int \<Rightarrow> int" where
  "s32 i = signed_take_bit 31 i"

definition s64 :: "int \<Rightarrow> int" where
  "s64 i = signed_take_bit 63 i"

definition in_s32 :: "int \<Rightarrow> bool" where
  "in_s32 i \<longleftrightarrow> - 2147483648 \<le> i \<and> i < 2147483648"

definition in_s64 :: "int \<Rightarrow> bool" where
  "in_s64 i \<longleftrightarrow> - 9223372036854775808 \<le> i \<and> i < 9223372036854775808"

lemma s32_id [simp]: "in_s32 i \<Longrightarrow> s32 i = i"
  unfolding s32_def in_s32_def by (rule signed_take_bit_int_eq_self) simp_all

lemma s64_id [simp]: "in_s64 i \<Longrightarrow> s64 i = i"
  unfolding s64_def in_s64_def by (rule signed_take_bit_int_eq_self) simp_all

lemma in_s64_s64 [simp]: "in_s64 (s64 i)"
  using signed_take_bit_int_greater_eq_minus_exp [of 63 i] signed_take_bit_int_less_exp [of 63 i]
  by (simp add: in_s64_def s64_def)

subsection \<open>Collections of the development\<close>

named_theorems consts_defs \<open>numeric constants of the source\<close>
named_theorems opcode_defs \<open>script opcodes\<close>
named_theorems flag_defs \<open>bit flags\<close>

subsection \<open>Masks, bits and disjoint unions of bits\<close>

lemma unat_and_mask: "unat ((w :: 'a::len word) AND mask n) = unat w mod 2 ^ n"
proof -
  have "unat (w AND mask n) = unat (take_bit n w)" by (simp only: take_bit_eq_mask)
  also have "\<dots> = take_bit n (unat w)" by (simp only: unsigned_take_bit_eq)
  finally show ?thesis by (simp only: take_bit_eq_mod)
qed

lemma bit_unat: "bit (w :: 'a::len word) n = bit (unat w) n"
  by (simp add: bit_unsigned_iff bit_imp_le_length)

lemma unat_byte_less [simp]: "unat (b :: byte) < 256"
  by (rule order_less_le_trans [OF unsigned_less]) simp

lemma byte_and_7F: "unat ((b::byte) AND 0x7F) = unat b mod 128"
  using unat_and_mask [of b 7] by (simp add: mask_eq_exp_minus_1)

lemma byte_and_80: "((b::byte) AND 0x80 = 0) = (unat b < 128)"
proof -
  have "(b AND 0x80 = 0) = (\<not> bit b 7)"
    using and_exp_eq_0_iff_not_bit [of b 7] by simp
  also have "bit b 7 = odd (unat b div 128)"
    by (simp add: bit_unat bit_iff_odd)
  also have "odd (unat b div 128) = (\<not> unat b < 128)"
  proof -
    have "unat b div 128 < 2" using unat_byte_less [of b] by (simp add: div_less_iff_less_mult)
    then have "unat b div 128 = 0 \<or> unat b div 128 = 1" by auto
    then show ?thesis by (auto simp: div_eq_0_iff)
  qed
  finally show ?thesis by simp
qed

lemma or_add_nat: "(a::nat) < 2 ^ k \<Longrightarrow> push_bit k b OR a = b * 2 ^ k + a"
proof -
  assume a: "a < 2 ^ k"
  then have "take_bit k a = a" by (simp add: take_bit_nat_eq_self)
  then have "\<not> bit (push_bit k b) n \<or> \<not> bit a n" for n
    by (metis bit_push_bit_iff bit_take_bit_iff linorder_not_less)
  then have "push_bit k b + a = push_bit k b OR a" by (rule disjunctive_add)
  then show ?thesis by (simp add: push_bit_eq_mult)
qed

lemma or_add_int: "0 \<le> a \<Longrightarrow> (a::int) < 2 ^ k \<Longrightarrow> push_bit k b OR a = b * 2 ^ k + a"
proof -
  assume a: "0 \<le> a" "a < 2 ^ k"
  then have "take_bit k a = a" by (simp add: take_bit_int_eq_self)
  then have "\<not> bit (push_bit k b) n \<or> \<not> bit a n" for n
    by (metis bit_push_bit_iff bit_take_bit_iff linorder_not_less)
  then have "push_bit k b + a = push_bit k b OR a" by (rule disjunctive_add)
  then show ?thesis by (simp add: push_bit_eq_mult)
qed

lemma or_add_word:
  "unat (a :: 'a::len word) < 2 ^ k \<Longrightarrow> push_bit k b OR a = push_bit k b + a"
proof -
  assume a: "unat a < 2 ^ k"
  then have "take_bit k (unat a) = unat a" by (simp add: take_bit_nat_eq_self)
  then have "\<not> bit (push_bit k b) n \<or> \<not> bit a n" for n
    by (metis bit_push_bit_iff bit_take_bit_iff bit_unat linorder_not_less)
  then show ?thesis by (simp add: disjunctive_add)
qed

lemma unat_drop_bit: "unat (drop_bit k (w :: 'a::len word)) = unat w div 2 ^ k"
proof -
  have "unat (drop_bit k w) = drop_bit k (take_bit LENGTH('a) (unat w))"
    by (rule unsigned_drop_bit_eq)
  also have "take_bit LENGTH('a) (unat w) = unat w"
    by (rule take_bit_nat_eq_self) (rule unsigned_less)
  finally show ?thesis by (simp only: drop_bit_eq_div)
qed

lemma unat_ucast: "unat (ucast (w :: 'a::len word) :: 'b::len word) = unat w mod 2 ^ LENGTH('b)"
  by (simp only: unsigned_ucast_eq take_bit_eq_mod)

lemma ucast_ucast_id:
  fixes w :: "'a::len word"
  assumes "unat w < 2 ^ LENGTH('b::len)"
  shows "ucast (ucast w :: 'b word) = w"
proof -
  have "unat w < 2 ^ LENGTH('a)" by (rule unsigned_less)
  then show ?thesis using assms by (simp add: word_unat_eq_iff unat_ucast)
qed

lemma unat_ucast_up [simp]:
  fixes w :: "'a::len word"
  assumes "LENGTH('a) \<le> LENGTH('b::len)"
  shows "unat (ucast w :: 'b word) = unat w"
proof -
  have "unat w < 2 ^ LENGTH('a)" by (rule unsigned_less)
  also have "(2::nat) ^ LENGTH('a) \<le> 2 ^ LENGTH('b)" using assms by (rule power_increasing) simp
  finally show ?thesis by (simp add: unat_ucast)
qed

lemma ucast_ucast_up [simp]:
  fixes w :: "'a::len word"
  assumes "LENGTH('a) \<le> LENGTH('b::len)"
  shows "ucast (ucast w :: 'b word) = w"
proof (rule ucast_ucast_id)
  have "unat w < 2 ^ LENGTH('a)" by (rule unsigned_less)
  also have "(2::nat) ^ LENGTH('a) \<le> 2 ^ LENGTH('b)" using assms by (rule power_increasing) simp
  finally show "unat w < 2 ^ LENGTH('b)" .
qed

subsection \<open>Little-endian numbers\<close>

fun le_nat :: "bytes \<Rightarrow> nat" where
  "le_nat [] = 0"
| "le_nat (b # bs) = unat b + 256 * le_nat bs"

fun le_bytes :: "nat \<Rightarrow> nat \<Rightarrow> bytes" where
  "le_bytes 0 n = []"
| "le_bytes (Suc k) n = of_nat (n mod 256) # le_bytes k (n div 256)"

lemma length_le_bytes [simp]: "length (le_bytes k n) = k"
  by (induction k arbitrary: n) auto

lemma unat_of_nat_mod256 [simp]: "unat (of_nat (n mod 256) :: byte) = n mod 256"
  by (simp add: unat_of_nat)

lemma le_nat_less: "le_nat bs < 256 ^ length bs"
proof (induction bs)
  case Nil
  then show ?case by simp
next
  case (Cons b bs)
  have "unat b + 256 * le_nat bs < 256 * (le_nat bs + 1)" by simp
  also have "256 * (le_nat bs + 1) \<le> 256 * 256 ^ length bs"
    using Cons.IH by (intro mult_le_mono2) simp
  finally show ?case by simp
qed

lemma le_nat_le_bytes: "le_nat (le_bytes k n) = n mod 256 ^ k"
proof (induction k arbitrary: n)
  case 0
  then show ?case by simp
next
  case (Suc k)
  have "n mod (256 * 256 ^ k) = 256 * (n div 256 mod 256 ^ k) + n mod 256"
    by (rule mod_mult2_eq)
  then show ?case by (simp add: Suc.IH)
qed

lemma le_nat_le_bytes_id [simp]: "n < 256 ^ k \<Longrightarrow> le_nat (le_bytes k n) = n"
  by (simp add: le_nat_le_bytes)

lemma le_bytes_le_nat [simp]: "length bs = k \<Longrightarrow> le_bytes k (le_nat bs) = bs"
proof (induction bs arbitrary: k)
  case Nil
  then show ?case by simp
next
  case (Cons b bs)
  have "(unat b + 256 * le_nat bs) mod 256 = unat b" by simp
  moreover have "(unat b + 256 * le_nat bs) div 256 = le_nat bs" by simp
  ultimately show ?case using Cons by (cases k) auto
qed

lemma le_nat_inject: "length xs = length ys \<Longrightarrow> le_nat xs = le_nat ys \<longleftrightarrow> xs = ys"
  by (metis le_bytes_le_nat)

lemma le_nat_append: "le_nat (xs @ ys) = le_nat xs + 256 ^ length xs * le_nat ys"
  by (induction xs) (auto simp: algebra_simps)

subsection \<open>Reading and writing fixed-width words\<close>

definition ReadLE16 :: "bytes \<Rightarrow> u16" where
  "ReadLE16 p = of_nat (le_nat (take 2 p))"

definition ReadLE32 :: "bytes \<Rightarrow> u32" where
  "ReadLE32 p = of_nat (le_nat (take 4 p))"

definition ReadLE64 :: "bytes \<Rightarrow> u64" where
  "ReadLE64 p = of_nat (le_nat (take 8 p))"

definition WriteLE16 :: "u16 \<Rightarrow> bytes" where
  "WriteLE16 x = le_bytes 2 (unat x)"

definition WriteLE32 :: "u32 \<Rightarrow> bytes" where
  "WriteLE32 x = le_bytes 4 (unat x)"

definition WriteLE64 :: "u64 \<Rightarrow> bytes" where
  "WriteLE64 x = le_bytes 8 (unat x)"

lemma unat_u16_less [simp]: "unat (x :: u16) < 65536"
  by (rule order_less_le_trans [OF unsigned_less]) simp

lemma unat_u32_less [simp]: "unat (x :: u32) < 4294967296"
  by (rule order_less_le_trans [OF unsigned_less]) simp

lemma unat_u64_less [simp]: "unat (x :: u64) < 18446744073709551616"
  by (rule order_less_le_trans [OF unsigned_less]) simp

lemma length_WriteLE [simp]:
  "length (WriteLE16 x) = 2" "length (WriteLE32 y) = 4" "length (WriteLE64 z) = 8"
  by (simp_all add: WriteLE16_def WriteLE32_def WriteLE64_def)

lemma ReadLE16_WriteLE16 [simp]: "ReadLE16 (WriteLE16 x @ r) = x"
  by (simp add: ReadLE16_def WriteLE16_def)

lemma ReadLE32_WriteLE32 [simp]: "ReadLE32 (WriteLE32 x @ r) = x"
  by (simp add: ReadLE32_def WriteLE32_def)

lemma ReadLE64_WriteLE64 [simp]: "ReadLE64 (WriteLE64 x @ r) = x"
  by (simp add: ReadLE64_def WriteLE64_def)

lemma ReadLE_WriteLE [simp]:
  "ReadLE16 (WriteLE16 x) = x" "ReadLE32 (WriteLE32 y) = y" "ReadLE64 (WriteLE64 z) = z"
  using ReadLE16_WriteLE16 [of x "[]"] ReadLE32_WriteLE32 [of y "[]"] ReadLE64_WriteLE64 [of z "[]"]
  by simp_all

lemma WriteLE_ReadLE [simp]:
  "length a = 2 \<Longrightarrow> WriteLE16 (ReadLE16 a) = a"
  "length b = 4 \<Longrightarrow> WriteLE32 (ReadLE32 b) = b"
  "length c = 8 \<Longrightarrow> WriteLE64 (ReadLE64 c) = c"
  using le_nat_less [of a] le_nat_less [of b] le_nat_less [of c]
  by (simp_all add: ReadLE16_def ReadLE32_def ReadLE64_def WriteLE16_def WriteLE32_def
      WriteLE64_def unat_of_nat)

lemma unat_ReadLE32: "unat (ReadLE32 p) = le_nat (take 4 p)"
proof -
  have "le_nat (take 4 p) < 256 ^ length (take 4 p)" by (rule le_nat_less)
  also have "(256 :: nat) ^ length (take 4 p) \<le> 256 ^ 4" by (rule power_increasing) auto
  finally show ?thesis by (simp add: ReadLE32_def unat_of_nat)
qed

subsection \<open>Statements that may fail\<close>

text \<open>A call whose failure ends the caller, followed by the rest of the caller.\<close>

definition err_bind :: "'e + 'a \<Rightarrow> ('a \<Rightarrow> 'e + 'b) \<Rightarrow> 'e + 'b" where
  "err_bind r f = (case r of Inl e \<Rightarrow> Inl e | Inr x \<Rightarrow> f x)"

lemma err_bind_simps [simp]: "err_bind (Inl e) f = Inl e" "err_bind (Inr x) f = f x"
  by (simp_all add: err_bind_def)

lemma err_bind_Inr: "err_bind r f = Inr y \<longleftrightarrow> (\<exists>x. r = Inr x \<and> f x = Inr y)"
  by (cases r) auto

end
