(* ===== verification/SC_Serialize.thy ===== *)
theory SC_Serialize
  imports SC_Prelude
begin

text \<open>
  Serialization (\<^verbatim>\<open>serialize.h\<close>, \<^verbatim>\<open>streams.h\<close>): the byte stream, fixed-width integers, compact sizes,
  variable-length integers, byte vectors and vectors of objects. A reader takes the unread bytes and
  returns the value with the rest, or the \<open>std::ios_base::failure\<close> the source throws. The locale
  \<open>lossless_codec\<close> is the contract that what is written can be read back, \<open>canonical_codec\<close> adds that nothing
  else can be read. Vectors of such a type satisfy the contract again.
\<close>

subsection \<open>The stream\<close>

datatype ios_failure =
    EndOfData
  | NonCanonicalCompactSize
  | CompactSizeTooLarge
  | VarIntTooLarge
  | UnknownTransactionData
  | TooManyInputs
  | TooManyOutputs
  | IgnoreNegative
  | TooManyInputUndos
  | AssertionFails

record CDataStream =
  ds_vch :: bytes
  nReadPos :: u32

definition CDataStream_read :: "nat \<Rightarrow> CDataStream \<Rightarrow> ios_failure + bytes \<times> CDataStream" where
  "CDataStream_read nSize s =
    (if nSize = 0 then Inr ([], s)
     else let nReadPosNext = nReadPos s + of_nat nSize in
       if unat nReadPosNext > length (ds_vch s) then Inl EndOfData
       else let pch = take nSize (drop (unat (nReadPos s)) (ds_vch s)) in
         if unat nReadPosNext = length (ds_vch s)
         then Inr (pch, s\<lparr>nReadPos := 0, ds_vch := []\<rparr>)
         else Inr (pch, s\<lparr>nReadPos := nReadPosNext\<rparr>))"

definition CDataStream_ignore :: "u32 \<Rightarrow> CDataStream \<Rightarrow> ios_failure + CDataStream" where
  "CDataStream_ignore nSize s =
    (if sint nSize < 0 then Inl IgnoreNegative
     else let nReadPosNext = nReadPos s + nSize in
       if unat nReadPosNext \<ge> length (ds_vch s)
       then if unat nReadPosNext > length (ds_vch s) then Inl EndOfData
         else Inr (s\<lparr>nReadPos := 0, ds_vch := []\<rparr>)
       else Inr (s\<lparr>nReadPos := nReadPosNext\<rparr>))"

definition CDataStream_write :: "bytes \<Rightarrow> CDataStream \<Rightarrow> CDataStream" where
  "CDataStream_write pch s = s\<lparr>ds_vch := ds_vch s @ pch\<rparr>"

definition unread :: "CDataStream \<Rightarrow> bytes" where
  "unread s = drop (unat (nReadPos s)) (ds_vch s)"

type_synonym 'a reader = "bytes \<Rightarrow> ios_failure + 'a \<times> bytes"

definition reader_return :: "'a \<Rightarrow> 'a reader" where
  "reader_return x s = Inr (x, s)"

definition reader_throw :: "ios_failure \<Rightarrow> 'a reader" where
  "reader_throw e s = Inl e"

definition reader_bind :: "'a reader \<Rightarrow> ('a \<Rightarrow> 'b reader) \<Rightarrow> 'b reader" where
  "reader_bind m f s = (case m s of Inl e \<Rightarrow> Inl e | Inr (x, s') \<Rightarrow> f x s')"

definition stream_read :: "nat \<Rightarrow> bytes reader" where
  "stream_read n s = (if n > length s then Inl EndOfData else Inr (take n s, drop n s))"

definition stream_ignore :: "u32 \<Rightarrow> unit reader" where
  "stream_ignore nSize s =
    (if sint nSize < 0 then Inl IgnoreNegative
     else if unat nSize > length s then Inl EndOfData
     else Inr ((), drop (unat nSize) s))"

lemma reader_simps [simp]:
  "reader_return x s = Inr (x, s)"
  "reader_throw e s = Inl e"
  by (simp_all add: reader_return_def reader_throw_def)

lemma reader_bind_simps [simp]:
  "m s = Inr (x, s') \<Longrightarrow> reader_bind m f s = f x s'"
  "m s = Inl e \<Longrightarrow> reader_bind m f s = Inl e"
  by (simp_all add: reader_bind_def)

lemma reader_bind_Inr:
  "reader_bind m f s = Inr (y, r) \<longleftrightarrow> (\<exists>x s'. m s = Inr (x, s') \<and> f x s' = Inr (y, r))"
  by (auto simp: reader_bind_def split: sum.splits prod.splits)

lemma stream_read_append [simp]: "length xs = n \<Longrightarrow> stream_read n (xs @ r) = Inr (xs, r)"
  by (simp add: stream_read_def)

lemma stream_read_Inr: "stream_read n s = Inr (x, r) \<longleftrightarrow> length x = n \<and> s = x @ r"
  by (auto simp: stream_read_def)

text \<open>
  The buffer position is an \<open>unsigned int\<close>. As long as a read does not carry it past \<open>2\<^sup>3\<^sup>2\<close>, reading
  from the buffer is reading from the list of unread bytes.
\<close>

lemma CDataStream_read_refines:
  assumes "unat (nReadPos s) \<le> length (ds_vch s)" and "unat (nReadPos s) + n < 2 ^ 32"
  shows "(case CDataStream_read n s of
            Inl e \<Rightarrow> stream_read n (unread s) = Inl e
          | Inr (x, s') \<Rightarrow> stream_read n (unread s) = Inr (x, unread s') \<and>
              unat (nReadPos s') \<le> length (ds_vch s'))"
proof -
  have "unat (of_nat n :: u32) = n" using assms by (simp add: unat_of_nat)
  then have "unat (nReadPos s + of_nat n) = unat (nReadPos s) + n"
    using assms by (subst unat_add_lem [THEN iffD1]) auto
  then show ?thesis using assms
    by (auto simp: CDataStream_read_def stream_read_def unread_def Let_def add.commute)
qed

lemma CDataStream_ignore_refines:
  assumes "unat (nReadPos s) \<le> length (ds_vch s)" and "unat (nReadPos s) + unat n < 2 ^ 32"
  shows "(case CDataStream_ignore n s of
            Inl e \<Rightarrow> stream_ignore n (unread s) = Inl e
          | Inr s' \<Rightarrow> stream_ignore n (unread s) = Inr ((), unread s') \<and>
              unat (nReadPos s') \<le> length (ds_vch s'))"
proof -
  have "unat (nReadPos s + n) = unat (nReadPos s) + unat n"
    using assms by (subst unat_add_lem [THEN iffD1]) auto
  then show ?thesis using assms
    by (auto simp: CDataStream_ignore_def stream_ignore_def unread_def Let_def add.commute)
qed

lemma unread_write:
  "unat (nReadPos s) \<le> length (ds_vch s) \<Longrightarrow> unread (CDataStream_write x s) = unread s @ x"
  by (simp add: unread_def CDataStream_write_def)

subsection \<open>Fixed-width integers\<close>

definition ser_writedata8 :: "byte \<Rightarrow> bytes" where
  "ser_writedata8 obj = [obj]"

definition ser_writedata16 :: "u16 \<Rightarrow> bytes" where
  "ser_writedata16 obj = WriteLE16 obj"

definition ser_writedata32 :: "u32 \<Rightarrow> bytes" where
  "ser_writedata32 obj = WriteLE32 obj"

definition ser_writedata64 :: "u64 \<Rightarrow> bytes" where
  "ser_writedata64 obj = WriteLE64 obj"

definition ser_readdata8 :: "byte reader" where
  "ser_readdata8 = reader_bind (stream_read 1) (\<lambda>b. reader_return (hd b))"

definition ser_readdata16 :: "u16 reader" where
  "ser_readdata16 = reader_bind (stream_read 2) (\<lambda>b. reader_return (ReadLE16 b))"

definition ser_readdata32 :: "u32 reader" where
  "ser_readdata32 = reader_bind (stream_read 4) (\<lambda>b. reader_return (ReadLE32 b))"

definition ser_readdata64 :: "u64 reader" where
  "ser_readdata64 = reader_bind (stream_read 8) (\<lambda>b. reader_return (ReadLE64 b))"

lemmas ser_writedata_defs =
  ser_writedata8_def ser_writedata16_def ser_writedata32_def ser_writedata64_def

lemma ser_readdata8_Inr: "ser_readdata8 s = Inr (x, r) \<longleftrightarrow> s = ser_writedata8 x @ r"
  by (auto simp: ser_readdata8_def reader_bind_Inr stream_read_Inr ser_writedata8_def length_Suc_conv)

lemma ser_readdata16_Inr: "ser_readdata16 s = Inr (x, r) \<longleftrightarrow> s = ser_writedata16 x @ r"
  by (auto simp: ser_readdata16_def reader_bind_Inr stream_read_Inr ser_writedata16_def)

lemma ser_readdata32_Inr: "ser_readdata32 s = Inr (x, r) \<longleftrightarrow> s = ser_writedata32 x @ r"
  by (auto simp: ser_readdata32_def reader_bind_Inr stream_read_Inr ser_writedata32_def)

lemma ser_readdata64_Inr: "ser_readdata64 s = Inr (x, r) \<longleftrightarrow> s = ser_writedata64 x @ r"
  by (auto simp: ser_readdata64_def reader_bind_Inr stream_read_Inr ser_writedata64_def)

lemmas ser_readdata_Inr =
  ser_readdata8_Inr ser_readdata16_Inr ser_readdata32_Inr ser_readdata64_Inr

lemma ser_readdata8_simps [simp]:
  "ser_readdata8 [] = Inl EndOfData"
  "ser_readdata8 (b # s) = Inr (b, s)"
  by (simp_all add: ser_readdata8_def reader_bind_def stream_read_def)

subsection \<open>Compact sizes\<close>

definition MAX_SIZE :: u64 where
  "MAX_SIZE = 0x02000000"

definition GetSizeOfCompactSize :: "u64 \<Rightarrow> nat" where
  "GetSizeOfCompactSize nSize =
    (if nSize < 253 then 1
     else if nSize \<le> 0xFFFF then 1 + 2
     else if nSize \<le> 0xFFFFFFFF then 1 + 4
     else 1 + 8)"

definition WriteCompactSize :: "u64 \<Rightarrow> bytes" where
  "WriteCompactSize nSize =
    (if nSize < 253 then ser_writedata8 (ucast nSize)
     else if nSize \<le> 0xFFFF then ser_writedata8 253 @ ser_writedata16 (ucast nSize)
     else if nSize \<le> 0xFFFFFFFF then ser_writedata8 254 @ ser_writedata32 (ucast nSize)
     else ser_writedata8 255 @ ser_writedata64 nSize)"

definition ReadCompactSize :: "u64 reader" where
  "ReadCompactSize =
    reader_bind ser_readdata8 (\<lambda>chSize.
    reader_bind
      (if chSize < 253 then reader_return (ucast chSize)
       else if chSize = 253 then
         reader_bind ser_readdata16 (\<lambda>n. let nSizeRet = ucast n in
           if nSizeRet < 253 then reader_throw NonCanonicalCompactSize
           else reader_return nSizeRet)
       else if chSize = 254 then
         reader_bind ser_readdata32 (\<lambda>n. let nSizeRet = ucast n in
           if nSizeRet < 0x10000 then reader_throw NonCanonicalCompactSize
           else reader_return nSizeRet)
       else
         reader_bind ser_readdata64 (\<lambda>nSizeRet.
           if nSizeRet < 0x100000000 then reader_throw NonCanonicalCompactSize
           else reader_return nSizeRet))
    (\<lambda>nSizeRet.
      if nSizeRet > MAX_SIZE then reader_throw CompactSizeTooLarge
      else reader_return nSizeRet))"

lemma length_WriteCompactSize: "length (WriteCompactSize n) = GetSizeOfCompactSize n"
  by (simp add: WriteCompactSize_def GetSizeOfCompactSize_def ser_writedata_defs)

text \<open>The four forms of a compact size, by the numeric range of the size.\<close>

lemma WriteCompactSize_forms:
  "unat n < 253 \<Longrightarrow> WriteCompactSize n = [ucast n]"
  "253 \<le> unat n \<Longrightarrow> unat n < 65536 \<Longrightarrow> WriteCompactSize n = 253 # WriteLE16 (ucast n)"
  "65536 \<le> unat n \<Longrightarrow> unat n < 4294967296 \<Longrightarrow> WriteCompactSize n = 254 # WriteLE32 (ucast n)"
  "4294967296 \<le> unat n \<Longrightarrow> WriteCompactSize n = 255 # WriteLE64 n"
  by (simp_all add: WriteCompactSize_def ser_writedata_defs word_less_nat_alt word_le_nat_alt)

definition compact_size_limit :: "u64 \<Rightarrow> u64 reader" where
  "compact_size_limit n = (if n > MAX_SIZE then reader_throw CompactSizeTooLarge else reader_return n)"

lemma ReadCompactSize_forms:
  "unat b < 253 \<Longrightarrow> ReadCompactSize (b # s) = compact_size_limit (ucast b) s"
  "ReadCompactSize (253 # s) = reader_bind ser_readdata16
     (\<lambda>n. if unat n < 253 then reader_throw NonCanonicalCompactSize else compact_size_limit (ucast n)) s"
  "ReadCompactSize (254 # s) = reader_bind ser_readdata32
     (\<lambda>n. if unat n < 65536 then reader_throw NonCanonicalCompactSize else compact_size_limit (ucast n)) s"
  "ReadCompactSize (255 # s) = reader_bind ser_readdata64
     (\<lambda>n. if unat n < 4294967296 then reader_throw NonCanonicalCompactSize else compact_size_limit n) s"
  "ReadCompactSize [] = Inl EndOfData"
  by (simp_all add: ReadCompactSize_def reader_bind_def compact_size_limit_def Let_def
      word_less_nat_alt split: sum.split)

lemma byte_253_cases:
  obtains "unat (b :: byte) < 253" | "b = 253" | "b = 254" | "b = 255"
proof -
  have "unat b < 253 \<or> unat b = 253 \<or> unat b = 254 \<or> unat b = 255"
    using unat_byte_less [of b] by linarith
  then show thesis using that by (auto simp: word_unat_eq_iff)
qed

lemma compact_size_limit_Inr: "compact_size_limit m s = Inr (n, r) \<longleftrightarrow> n \<le> MAX_SIZE \<and> m = n \<and> s = r"
  by (auto simp: compact_size_limit_def)

lemma ReadCompactSize_canonical:
  assumes "ReadCompactSize s = Inr (n, r)"
  shows "n \<le> MAX_SIZE \<and> s = WriteCompactSize n @ r"
proof (cases s)
  case (Cons b s')
  show ?thesis
    by (cases b rule: byte_253_cases)
      (use assms in \<open>auto simp: Cons ReadCompactSize_forms compact_size_limit_Inr reader_bind_Inr
        ser_readdata_Inr ser_writedata_defs WriteCompactSize_forms ucast_ucast_id split: if_splits\<close>)
qed (use assms in \<open>simp add: ReadCompactSize_forms\<close>)

lemma ReadCompactSize_WriteCompactSize [simp]:
  assumes "n \<le> MAX_SIZE"
  shows "ReadCompactSize (WriteCompactSize n @ r) = Inr (n, r)"
proof -
  have "unat n < 4294967296" using assms by (simp add: word_le_nat_alt MAX_SIZE_def)
  then consider "unat n < 253" | "253 \<le> unat n" "unat n < 65536" | "65536 \<le> unat n" "unat n < 4294967296"
    by linarith
  then show ?thesis
    using assms
    by cases (simp_all add: WriteCompactSize_forms ReadCompactSize_forms unat_ucast ucast_ucast_id
        compact_size_limit_Inr ser_readdata_Inr [THEN iffD2] ser_writedata_defs)
qed

lemma ReadCompactSize_Inr:
  "ReadCompactSize s = Inr (n, r) \<longleftrightarrow> n \<le> MAX_SIZE \<and> s = WriteCompactSize n @ r"
  using ReadCompactSize_canonical by auto

subsection \<open>Variable-length integers\<close>

lemma varint_step_less:
  fixes n :: "'a::len word"
  assumes "\<not> n \<le> 0x7F"
  shows "unat (drop_bit 7 n - 1) < unat n" "unat (drop_bit 7 n) = unat n div 128"
    "unat (drop_bit 7 n - 1) = unat n div 128 - 1" "8 \<le> LENGTH('a)" "128 \<le> unat n"
proof -
  have "(0x7F :: 'a word) = mask 7" by (simp add: mask_eq_exp_minus_1)
  then have nle: "\<not> n \<le> mask 7" using assms by simp
  show len: "8 \<le> LENGTH('a)"
  proof (rule ccontr)
    assume "\<not> 8 \<le> LENGTH('a)"
    then have "LENGTH('a) \<le> 7" by simp
    then have "take_bit 7 n = n" by (rule take_bit_word_eq_self)
    then have "n AND mask 7 = n" by (simp add: take_bit_eq_mask)
    then show False using nle by (metis word_and_le1)
  qed
  then have "unat (0x7F :: 'a word) = 127"
  proof -
    have "(2::nat) ^ 8 \<le> 2 ^ LENGTH('a)" using len by (rule power_increasing) simp
    then show ?thesis by (simp add: take_bit_nat_eq_self)
  qed
  then show n: "128 \<le> unat n" using assms by (simp add: word_le_nat_alt)
  show d: "unat (drop_bit 7 n) = unat n div 128" using unat_drop_bit [of 7 n] by simp
  have "1 \<le> unat n div 128" using n by (simp add: less_eq_div_iff_mult_less_eq)
  then have "(1 :: 'a word) \<le> drop_bit 7 n" using d by (simp add: word_le_nat_alt)
  then show s: "unat (drop_bit 7 n - 1) = unat n div 128 - 1"
    using d by (simp add: unat_sub)
  then show "unat (drop_bit 7 n - 1) < unat n" using n by simp
qed

function GetSizeOfVarInt :: "'a::len word \<Rightarrow> nat" where
  "GetSizeOfVarInt n = (if n \<le> 0x7F then 1 else 1 + GetSizeOfVarInt (drop_bit 7 n - 1))"
  by pat_completeness auto
termination by (relation "measure unat") (use varint_step_less in auto)

function WriteVarInt_loop :: "'a::len word \<Rightarrow> nat \<Rightarrow> bytes \<Rightarrow> bytes" where
  "WriteVarInt_loop n len tmp =
    (let tmp' = (ucast (n AND 0x7F) OR (if len \<noteq> 0 then 0x80 else 0x00)) # tmp in
     if n \<le> 0x7F then tmp' else WriteVarInt_loop (drop_bit 7 n - 1) (len + 1) tmp')"
  by pat_completeness auto
termination by (relation "measure (\<lambda>(n, _, _). unat n)") (use varint_step_less in auto)

definition WriteVarInt :: "'a::len word \<Rightarrow> bytes" where
  "WriteVarInt n = WriteVarInt_loop n 0 []"

fun ReadVarInt_loop :: "'a::len word \<Rightarrow> 'a word reader" where
  "ReadVarInt_loop n [] = Inl EndOfData"
| "ReadVarInt_loop n (chData # s) =
    (if n > drop_bit 7 (- 1) then Inl VarIntTooLarge
     else let n = push_bit 7 n OR ucast (chData AND 0x7F) in
       if chData AND 0x80 \<noteq> 0
       then if n = - 1 then Inl VarIntTooLarge else ReadVarInt_loop (n + 1) s
       else Inr (n, s))"

definition ReadVarInt :: "'a::len word reader" where
  "ReadVarInt = ReadVarInt_loop 0"

declare GetSizeOfVarInt.simps [simp del] WriteVarInt_loop.simps [simp del] ReadVarInt_loop.simps [simp del]

lemma WriteVarInt_loop_append: "WriteVarInt_loop n len (xs @ ys) = WriteVarInt_loop n len xs @ ys"
proof (induction n len xs arbitrary: ys rule: WriteVarInt_loop.induct)
  case (1 n len tmp)
  then show ?case
    by (subst (1 2) WriteVarInt_loop.simps) (auto simp: Let_def)
qed

lemma length_WriteVarInt_loop: "length (WriteVarInt_loop n len tmp) = GetSizeOfVarInt n + length tmp"
proof (induction n len tmp rule: WriteVarInt_loop.induct)
  case (1 n len tmp)
  then show ?case
    by (subst WriteVarInt_loop.simps, subst GetSizeOfVarInt.simps) (auto simp: Let_def)
qed

lemma mask7: "(0x7F :: 'a::len word) = mask 7"
  by (simp add: mask_eq_exp_minus_1)

lemma bit_80: "bit (0x80 :: byte) k \<longleftrightarrow> k = 7"
  using bit_exp_iff [where ?'a = byte, of 7 k] by auto

definition varint_digit :: "'a::len word \<Rightarrow> bool \<Rightarrow> byte" where
  "varint_digit n f = ucast (n AND 0x7F) OR (if f then 0x80 else 0x00)"

lemma bit_varint_digit:
  "bit (varint_digit n f) k \<longleftrightarrow> k < 7 \<and> bit n k \<or> k = 7 \<and> f"
proof -
  have "bit (if f then 0x80 else 0x00 :: byte) k \<longleftrightarrow> k = 7 \<and> f" by (simp only: bit_80 bit_0_eq split: if_split) auto
  moreover have "bit (ucast (n AND 0x7F) :: byte) k \<longleftrightarrow> k < 7 \<and> bit n k"
    by (auto simp: mask7 bit_and_iff bit_ucast_iff bit_mask_iff dest: bit_imp_le_length)
  ultimately show ?thesis by (simp only: varint_digit_def bit_or_iff)
qed

lemma varint_digit_80: "(varint_digit n f AND 0x80 = 0) = (\<not> f)"
  using and_exp_eq_0_iff_not_bit [of "varint_digit n f" 7] by (simp add: bit_varint_digit)

lemma varint_digit_7F: "ucast (varint_digit (n :: 'a::len word) f AND 0x7F) = n AND 0x7F"
  by (rule bit_word_eqI)
    (auto simp: bit_varint_digit mask7 bit_and_iff bit_ucast_iff bit_mask_iff dest: bit_imp_le_length)

lemma varint_join: "push_bit 7 (drop_bit 7 n) OR (n AND 0x7F) = (n :: 'a::len word)"
  by (rule bit_word_eqI)
    (auto simp: mask7 bit_or_iff bit_and_iff bit_push_bit_iff bit_drop_bit_eq bit_mask_iff)

lemma drop_bit_max: "drop_bit 7 n \<le> drop_bit 7 (- 1 :: 'a::len word)"
proof -
  have "unat n \<le> unat (- 1 :: 'a word)" by (simp only: word_le_nat_alt [symmetric] word_order.extremum)
  then show ?thesis by (simp only: word_le_nat_alt unat_drop_bit div_le_mono)
qed

text \<open>Reading the next digit of \<open>n\<close> from the quotient of \<open>n\<close>.\<close>

lemma ReadVarInt_loop_digit:
  "ReadVarInt_loop (drop_bit 7 n) (varint_digit n f # s) =
    (if f then if n = - 1 then Inl VarIntTooLarge else ReadVarInt_loop (n + 1) s else Inr (n, s))"
  by (simp only: ReadVarInt_loop.simps Let_def varint_digit_80 varint_digit_7F varint_join
      drop_bit_max linorder_not_less [THEN iffD2] if_False simp_thms split: if_split)

lemma WriteVarInt_loop_last:
  "n \<le> 0x7F \<Longrightarrow> WriteVarInt_loop n len tmp = varint_digit n (len \<noteq> 0) # tmp"
  by (subst WriteVarInt_loop.simps) (simp add: Let_def varint_digit_def)

lemma WriteVarInt_loop_more:
  "\<not> n \<le> 0x7F \<Longrightarrow> WriteVarInt_loop n len tmp =
    WriteVarInt_loop (drop_bit 7 n - 1) (len + 1) (varint_digit n (len \<noteq> 0) # tmp)"
  by (subst WriteVarInt_loop.simps) (simp only: Let_def varint_digit_def if_False)

lemma varint_small: "(n :: 'a::len word) \<le> 0x7F \<Longrightarrow> drop_bit 7 n = 0"
proof -
  assume "n \<le> 0x7F"
  then have "unat n \<le> take_bit LENGTH('a) 127" by (simp add: word_le_nat_alt)
  also have "\<dots> \<le> 127" by (rule take_bit_nat_less_eq_self)
  finally have "unat n div 2 ^ 7 = 0" by simp
  then have "unat (drop_bit 7 n) = unat (0 :: 'a word)" by (simp only: unat_drop_bit unsigned_0)
  then show ?thesis by (simp only: word_unat_eq_iff)
qed

lemma ReadVarInt_loop_Write:
  assumes "len \<noteq> 0 \<Longrightarrow> n \<noteq> - 1"
  shows "ReadVarInt_loop 0 (WriteVarInt_loop n len tmp @ s) =
    (if len \<noteq> 0 then ReadVarInt_loop (n + 1) (tmp @ s) else Inr (n, tmp @ s))"
  using assms
proof (induction n len tmp arbitrary: s rule: WriteVarInt_loop.induct)
  case (1 n len tmp)
  let ?d = "varint_digit n (len \<noteq> 0)"
  have digit: "ReadVarInt_loop (drop_bit 7 n) (?d # tmp @ s) =
    (if len \<noteq> 0 then ReadVarInt_loop (n + 1) (tmp @ s) else Inr (n, tmp @ s))"
    using 1(2) by (subst ReadVarInt_loop_digit) (simp split: if_split)
  show ?case
  proof (cases "n \<le> 0x7F")
    case True
    then show ?thesis
      using digit by (simp only: WriteVarInt_loop_last varint_small append_Cons)
  next
    case False
    let ?m = "drop_bit 7 n - 1"
    have "?m \<noteq> - 1" using varint_step_less(2,5) [OF False] by auto
    then have "ReadVarInt_loop 0 (WriteVarInt_loop ?m (len + 1) (?d # tmp) @ s)
      = ReadVarInt_loop (drop_bit 7 n) (?d # tmp @ s)"
      using 1(1) [OF refl False, of s, folded varint_digit_def] by simp
    then show ?thesis
      using digit by (simp only: WriteVarInt_loop_more [OF False])
  qed
qed

lemma ReadVarInt_WriteVarInt: "ReadVarInt (WriteVarInt n @ s) = Inr (n, s)"
  by (simp add: ReadVarInt_def WriteVarInt_def ReadVarInt_loop_Write)

lemma length_WriteVarInt: "length (WriteVarInt n) = GetSizeOfVarInt n"
  by (simp add: WriteVarInt_def length_WriteVarInt_loop)

text \<open>Uniqueness of the encoding: the digits read so far are those the writer emits.\<close>

lemma WriteVarInt_loop_len: "WriteVarInt_loop n (Suc a) tmp = WriteVarInt_loop n (Suc b) tmp"
proof (induction n "Suc a" tmp arbitrary: a b rule: WriteVarInt_loop.induct)
  case (1 n tmp)
  show ?case
  proof (cases "n \<le> 0x7F")
    case False
    have "WriteVarInt_loop (drop_bit 7 n - 1) (Suc (Suc a)) (varint_digit n True # tmp) =
      WriteVarInt_loop (drop_bit 7 n - 1) (Suc (Suc b)) (varint_digit n True # tmp)"
      using 1 [OF refl False, of "Suc a" "Suc b"] by (simp only: varint_digit_def) simp
    then show ?thesis by (simp add: WriteVarInt_loop_more [OF False])
  qed (simp add: WriteVarInt_loop_last)
qed

definition varint_prefix :: "'a::len word \<Rightarrow> bytes" where
  "varint_prefix n = (if n = 0 then [] else WriteVarInt_loop (n - 1) 1 [])"

lemma varint_digit_of:
  fixes n :: "'a::len word"
  assumes "8 \<le> LENGTH('a)" and "n \<le> drop_bit 7 (- 1)"
    and v: "v = push_bit 7 n OR ucast (c AND 0x7F)"
  shows "drop_bit 7 v = n" and "varint_digit v (c AND 0x80 \<noteq> 0) = c"
proof -
  have "unat n \<le> unat (- 1 :: 'a word) div 2 ^ 7"
    using assms(2) by (simp only: word_le_nat_alt unat_drop_bit)
  also have "unat (- 1 :: 'a word) = 2 ^ LENGTH('a) - 1"
    by (simp only: unsigned_minus_1_eq_mask mask_eq_exp_minus_1)
  also have "(2 ^ LENGTH('a) - 1) div 2 ^ 7 < (2 :: nat) ^ (LENGTH('a) - 7)"
  proof -
    have "(2 :: nat) ^ LENGTH('a) = 2 ^ (LENGTH('a) - 7) * 2 ^ 7"
      using assms(1) by (simp only: power_add [symmetric]) simp
    then show ?thesis by (simp add: div_less_iff_less_mult)
  qed
  finally have "take_bit (LENGTH('a) - 7) (unat n) = unat n" by (rule take_bit_nat_eq_self)
  then have "bit n k \<Longrightarrow> k < LENGTH('a) - 7" for k
    by (metis bit_take_bit_iff bit_unat)
  then have n: "bit n k \<Longrightarrow> 7 + k < LENGTH('a)" for k
    by (simp add: less_diff_conv add.commute)
  show "drop_bit 7 v = n"
    using n by (intro bit_word_eqI)
     (auto simp: v mask7 bit_or_iff bit_and_iff bit_push_bit_iff bit_drop_bit_eq bit_ucast_iff bit_mask_iff
       dest: bit_imp_le_length)
  have "bit c 7 = (c AND 0x80 \<noteq> 0)" using and_exp_eq_0_iff_not_bit [of c 7] by simp
  moreover have "bit v k = bit c k" if "k < 7" for k
    using assms(1) that
    by (auto simp: v mask7 bit_or_iff bit_and_iff bit_push_bit_iff bit_ucast_iff bit_mask_iff)
  moreover have "k < 8 \<Longrightarrow> k < 7 \<or> k = 7" for k :: nat by linarith
  ultimately show "varint_digit v (c AND 0x80 \<noteq> 0) = c"
    by (intro bit_word_eqI) (auto simp: bit_varint_digit)
qed

lemma varint_prefix_step:
  fixes n :: "'a::len word"
  assumes "8 \<le> LENGTH('a)" and "drop_bit 7 v = n"
  shows "WriteVarInt_loop v len [] = varint_prefix n @ [varint_digit v (len \<noteq> 0)]"
proof (cases "v \<le> 0x7F")
  case True
  then show ?thesis using assms(2) by (simp add: WriteVarInt_loop_last varint_small varint_prefix_def)
next
  case False
  have "n \<noteq> 0" using varint_step_less(2,5) [OF False] assms(2) by auto
  then show ?thesis
    using WriteVarInt_loop_append [of "n - 1" "Suc len" "[]" "[varint_digit v (len \<noteq> 0)]"]
      WriteVarInt_loop_len [of "n - 1" len "[]" 0] assms(2)
    by (simp add: WriteVarInt_loop_more [OF False] varint_prefix_def)
qed

lemma ReadVarInt_loop_canonical:
  fixes n :: "'a::len word"
  assumes "8 \<le> LENGTH('a)"
  shows "ReadVarInt_loop n s = Inr (m, r) \<Longrightarrow> \<exists>p. s = p @ r \<and> WriteVarInt m = varint_prefix n @ p"
proof (induction n s rule: ReadVarInt_loop.induct)
  case (1 n)
  then show ?case by (simp add: ReadVarInt_loop.simps)
next
  case (2 n c s)
  let ?v = "push_bit 7 n OR ucast (c AND 0x7F)" and ?f = "c AND 0x80 \<noteq> 0"
  have n: "n \<le> drop_bit 7 (- 1)"
    using 2(2) by (simp only: ReadVarInt_loop.simps linorder_not_less [symmetric] split: if_splits) auto
  note v = varint_digit_of [OF assms n refl, of c]
  show ?case
  proof (cases ?f)
    case False
    then have "?v = m" "s = r" using 2(2) n by (auto simp: ReadVarInt_loop.simps Let_def split: if_splits)
    then show ?thesis using varint_prefix_step [OF assms v(1), of 0] v(2) False by (simp add: WriteVarInt_def)
  next
    case True
    then have "?v \<noteq> - 1" "ReadVarInt_loop (?v + 1) s = Inr (m, r)"
      using 2(2) n by (auto simp: ReadVarInt_loop.simps Let_def split: if_splits)
    then obtain p where "s = p @ r" "WriteVarInt m = varint_prefix (?v + 1) @ p"
      using 2(1) [OF n [folded linorder_not_less] refl True] by blast
    then show ?thesis using varint_prefix_step [OF assms v(1), of 1] v(2) True \<open>?v \<noteq> - 1\<close>
      by (auto simp: varint_prefix_def [of "?v + 1"] eq_neg_iff_add_eq_0 [symmetric])
  qed
qed

lemma ReadVarInt_Inr:
  fixes n :: "'a::len word"
  assumes "8 \<le> LENGTH('a)"
  shows "ReadVarInt s = Inr (n, r) \<longleftrightarrow> s = WriteVarInt n @ r"
  using ReadVarInt_loop_canonical [OF assms, of 0 s n r] ReadVarInt_WriteVarInt [of n r]
  by (auto simp: ReadVarInt_def varint_prefix_def)

subsection \<open>The contract of a serializable type\<close>

locale lossless_codec =
  fixes ser :: "'a \<Rightarrow> bytes"
    and unser :: "'a reader"
    and wf :: "'a \<Rightarrow> bool"
  assumes roundtrip: "wf x \<Longrightarrow> unser (ser x @ r) = Inr (x, r)"
begin

lemma ser_inject: "wf x \<Longrightarrow> wf y \<Longrightarrow> ser x = ser y \<longleftrightarrow> x = y"
  by (metis roundtrip Inr_inject prod.inject)

lemma ser_prefix_free: "wf x \<Longrightarrow> wf y \<Longrightarrow> ser x @ r = ser y @ q \<Longrightarrow> x = y \<and> r = q"
  by (metis roundtrip Inr_inject prod.inject)

end

locale canonical_codec = lossless_codec +
  assumes canonical: "unser s = Inr (x, r) \<Longrightarrow> wf x \<and> s = ser x @ r"
begin

lemma unser_Inr: "unser s = Inr (x, r) \<longleftrightarrow> wf x \<and> s = ser x @ r"
  using roundtrip canonical by blast

end

subsection \<open>Vectors\<close>

fun read_elements :: "'a reader \<Rightarrow> nat \<Rightarrow> 'a list reader" where
  "read_elements unser 0 s = Inr ([], s)"
| "read_elements unser (Suc n) s =
    (case unser s of Inl e \<Rightarrow> Inl e
     | Inr (x, s') \<Rightarrow> (case read_elements unser n s' of Inl e \<Rightarrow> Inl e | Inr (xs, s'') \<Rightarrow> Inr (x # xs, s'')))"

definition Serialize_vector :: "('a \<Rightarrow> bytes) \<Rightarrow> 'a list \<Rightarrow> bytes" where
  "Serialize_vector ser v = WriteCompactSize (of_nat (length v)) @ concat (map ser v)"

definition Unserialize_vector :: "'a reader \<Rightarrow> 'a list reader" where
  "Unserialize_vector unser =
    reader_bind ReadCompactSize (\<lambda>nSize. read_elements unser (unat (ucast nSize :: u32)))"

function read_blocks :: "nat \<Rightarrow> bytes reader" where
  "read_blocks nRest s =
    (if nRest = 0 then Inr ([], s)
     else let blk = min nRest (1 + 4999999) in
       case stream_read blk s of Inl e \<Rightarrow> Inl e
       | Inr (b, s') \<Rightarrow> (case read_blocks (nRest - blk) s' of Inl e \<Rightarrow> Inl e
           | Inr (v, s'') \<Rightarrow> Inr (b @ v, s'')))"
  by pat_completeness auto
termination by (relation "measure fst") auto

definition Serialize_bytes :: "bytes \<Rightarrow> bytes" where
  "Serialize_bytes v = WriteCompactSize (of_nat (length v)) @ v"

definition Unserialize_bytes :: "bytes reader" where
  "Unserialize_bytes = reader_bind ReadCompactSize (\<lambda>nSize. read_blocks (unat (ucast nSize :: u32)))"

definition size_ok :: "'a list \<Rightarrow> bool" where
  "size_ok v \<longleftrightarrow> length v \<le> 0x02000000"

declare read_blocks.simps [simp del]

text \<open>Reading a byte vector block by block is one read of its whole size.\<close>

lemma read_blocks_eq: "read_blocks n s = stream_read n s"
proof (induction n s rule: read_blocks.induct)
  case (1 n s)
  show ?case
  proof (cases "n = 0 \<or> length s < min n (1 + 4999999)")
    case True
    then show ?thesis by (subst read_blocks.simps) (auto simp: stream_read_def Let_def)
  next
    case False
    then have "stream_read (min n (1 + 4999999)) s =
        Inr (take (min n (1 + 4999999)) s, drop (min n (1 + 4999999)) s)"
      by (simp add: stream_read_def)
    with 1 [OF _ refl this refl] False show ?thesis
      by (subst read_blocks.simps) (auto simp: stream_read_def Let_def min_def take_add [symmetric])
  qed
qed

lemma read_elements_Suc_Inr:
  "read_elements u (Suc n) s = Inr (v, r) \<longleftrightarrow>
    (\<exists>x s' xs. u s = Inr (x, s') \<and> read_elements u n s' = Inr (xs, r) \<and> v = x # xs)"
  by (auto split: sum.split prod.split)

lemma unat_size: "n \<le> MAX_SIZE \<Longrightarrow> unat (ucast n :: u32) = unat n"
  by (simp add: unat_ucast MAX_SIZE_def word_le_nat_alt)

lemma size_ok_MAX_SIZE: "size_ok v \<Longrightarrow> of_nat (length v) \<le> MAX_SIZE \<and> unat (of_nat (length v) :: u64) = length v"
  by (simp add: size_ok_def MAX_SIZE_def word_le_nat_alt unat_of_nat)

lemma size_ok_unat: "length v = unat n \<Longrightarrow> n \<le> MAX_SIZE \<Longrightarrow> size_ok v \<and> of_nat (length v) = n"
  by (simp add: size_ok_def MAX_SIZE_def word_le_nat_alt)

context lossless_codec
begin

lemma read_elements_ser:
  "list_all wf v \<Longrightarrow> read_elements unser (length v) (concat (map ser v) @ r) = Inr (v, r)"
  by (induction v) (simp_all add: roundtrip)

lemma vector_roundtrip:
  "size_ok v \<Longrightarrow> list_all wf v \<Longrightarrow> Unserialize_vector unser (Serialize_vector ser v @ r) = Inr (v, r)"
  using size_ok_MAX_SIZE [of v]
  by (simp add: Serialize_vector_def Unserialize_vector_def unat_size read_elements_ser)

end

context canonical_codec
begin

lemma read_elements_Inr:
  "read_elements unser n s = Inr (v, r) \<longleftrightarrow>
    length v = n \<and> list_all wf v \<and> s = concat (map ser v) @ r"
proof (induction n arbitrary: s v)
  case 0
  then show ?case by auto
next
  case (Suc n)
  show ?case
    by (cases v) (auto simp add: read_elements_Suc_Inr unser_Inr Suc.IH simp del: read_elements.simps)
qed

text \<open>A vector of a serializable type is serializable.\<close>

lemma vector_codec:
  "canonical_codec (Serialize_vector ser) (Unserialize_vector unser) (\<lambda>v. size_ok v \<and> list_all wf v)"
proof
  fix v r assume "size_ok v \<and> list_all wf v"
  then show "Unserialize_vector unser (Serialize_vector ser v @ r) = Inr (v, r)"
    by (simp add: vector_roundtrip)
next
  fix s v r assume "Unserialize_vector unser s = Inr (v, r)"
  then obtain n where "n \<le> MAX_SIZE" "length v = unat n" "list_all wf v"
    "s = WriteCompactSize n @ concat (map ser v) @ r"
    by (auto simp: Unserialize_vector_def reader_bind_Inr ReadCompactSize_Inr read_elements_Inr unat_size)
  then show "(size_ok v \<and> list_all wf v) \<and> s = Serialize_vector ser v @ r"
    using size_ok_unat [of v n] by (simp add: Serialize_vector_def)
qed

end

lemma bytes_codec: "canonical_codec Serialize_bytes Unserialize_bytes size_ok"
proof
  fix v r :: bytes assume "size_ok v"
  then show "Unserialize_bytes (Serialize_bytes v @ r) = Inr (v, r)"
    using size_ok_MAX_SIZE [of v]
    by (simp add: Serialize_bytes_def Unserialize_bytes_def unat_size read_blocks_eq)
next
  fix s v r assume "Unserialize_bytes s = Inr (v, r)"
  then obtain n where "n \<le> MAX_SIZE" "length v = unat n" "s = WriteCompactSize n @ v @ r"
    by (auto simp: Unserialize_bytes_def reader_bind_Inr ReadCompactSize_Inr read_blocks_eq stream_read_Inr unat_size)
  then show "size_ok v \<and> s = Serialize_bytes v @ r"
    using size_ok_unat [of v n] by (simp add: Serialize_bytes_def)
qed

interpretation vch_codec: canonical_codec Serialize_bytes Unserialize_bytes size_ok
  by (rule bytes_codec)

interpretation vch_vector_codec: canonical_codec "Serialize_vector Serialize_bytes"
  "Unserialize_vector Unserialize_bytes" "\<lambda>v. size_ok v \<and> list_all size_ok v"
  by (rule vch_codec.vector_codec)

interpretation blob_codec: canonical_codec "\<lambda>b. b" "stream_read n" "\<lambda>b. length b = n" for n
  by unfold_locales (auto simp: stream_read_Inr)

interpretation u32_codec: canonical_codec ser_writedata32 ser_readdata32 "\<lambda>_. True"
  by unfold_locales (auto simp: ser_readdata_Inr)

interpretation u64_codec: canonical_codec ser_writedata64 ser_readdata64 "\<lambda>_. True"
  by unfold_locales (auto simp: ser_readdata_Inr)

subsection \<open>Exactness of the two size encodings\<close>

text \<open>
  Reading a compact size succeeds exactly on the canonical encoding of a size of at most
  \<open>MAX_SIZE\<close>, and consumes exactly that encoding, whose length is \<open>GetSizeOfCompactSize\<close>.
\<close>

theorem ReadCompactSize_exact:
  "(ReadCompactSize s = Inr (n, r) \<longleftrightarrow> n \<le> MAX_SIZE \<and> s = WriteCompactSize n @ r) \<and>
   length (WriteCompactSize n) = GetSizeOfCompactSize n"
  using ReadCompactSize_Inr length_WriteCompactSize by blast

text \<open>
  C26: a variable-length integer of 64 bits has exactly one encoding: \<open>ReadVarInt\<close> returns \<open>n\<close> on the
  bytes that \<open>WriteVarInt\<close> emits for \<open>n\<close> and on no others, and they are \<open>GetSizeOfVarInt\<close> many.
\<close>

theorem ReadVarInt_exact:
  "(ReadVarInt s = Inr (n :: u64, r) \<longleftrightarrow> s = WriteVarInt n @ r) \<and>
   length (WriteVarInt n) = GetSizeOfVarInt n"
  using ReadVarInt_Inr [where ?'a = 64] length_WriteVarInt by simp

end
