(* ===== verification/SC_Hasher.thy ===== *)
theory SC_Hasher
  imports SC_Prelude
begin

text \<open>
  The buffering of the block hash classes \<open>CSHA256\<close>, \<open>CSHA1\<close> and \<open>CRIPEMD160\<close>
  (\<^verbatim>\<open>crypto/sha256.cpp\<close>, \<^verbatim>\<open>crypto/sha1.cpp\<close>, \<^verbatim>\<open>crypto/ripemd160.cpp\<close>): the three classes share the fields
  and the text of \<open>Write\<close> and differ in the compression function and in the byte order of the
  result. The locale \<open>block_hash\<close> is what the buffering needs of a compression function; in it, the
  result of any sequence of \<open>Write\<close> calls is shown to depend on the concatenated data only.
\<close>

subsection \<open>Big-endian words\<close>

definition ReadBE32 :: "bytes \<Rightarrow> u32" where
  "ReadBE32 p = of_nat (le_nat (rev (take 4 p)))"

definition WriteBE32 :: "u32 \<Rightarrow> bytes" where
  "WriteBE32 x = rev (le_bytes 4 (unat x))"

definition WriteBE64 :: "u64 \<Rightarrow> bytes" where
  "WriteBE64 x = rev (le_bytes 8 (unat x))"

lemma length_WriteBE [simp]: "length (WriteBE32 x) = 4" "length (WriteBE64 y) = 8"
  by (simp_all add: WriteBE32_def WriteBE64_def)

lemma ReadBE32_WriteBE32 [simp]: "ReadBE32 (WriteBE32 x @ r) = x"
  by (simp add: ReadBE32_def WriteBE32_def)

subsection \<open>The buffered hasher\<close>

record hasher =
  hs_s :: "u32 list"
  hs_buf :: bytes
  hs_bytes :: u64

type_synonym transform = "u32 list \<Rightarrow> bytes \<Rightarrow> u32 list"

definition hasher_new :: "u32 list \<Rightarrow> hasher" where
  "hasher_new init = \<lparr>hs_s = init, hs_buf = replicate 64 0, hs_bytes = 0\<rparr>"

function hasher_chunks :: "transform \<Rightarrow> bytes \<Rightarrow> hasher \<Rightarrow> hasher \<times> bytes" where
  "hasher_chunks Transform data h =
    (if length data \<ge> 64
     then hasher_chunks Transform (drop 64 data) (h\<lparr>hs_s := Transform (hs_s h) (take 64 data), hs_bytes := hs_bytes h + 64\<rparr>)
     else (h, data))"
  by pat_completeness auto
termination by (relation "measure (\<lambda>(_, data, _). length data)") auto

definition hasher_fill :: "transform \<Rightarrow> bytes \<Rightarrow> hasher \<Rightarrow> hasher \<times> bytes \<times> nat" where
  "hasher_fill Transform data h =
    (let bufsize = unat (hs_bytes h mod 64) in
     if bufsize \<noteq> 0 \<and> bufsize + length data \<ge> 64
     then let buf' = take bufsize (hs_buf h) @ take (64 - bufsize) data in
       (h\<lparr>hs_buf := buf', hs_bytes := hs_bytes h + of_nat (64 - bufsize), hs_s := Transform (hs_s h) buf'\<rparr>,
        drop (64 - bufsize) data, 0)
     else (h, data, bufsize))"

definition hasher_Write :: "transform \<Rightarrow> bytes \<Rightarrow> hasher \<Rightarrow> hasher" where
  "hasher_Write Transform data h =
    (let (h, data, bufsize) = hasher_fill Transform data h;
         (h, data) = hasher_chunks Transform data h in
     if data \<noteq> []
     then h\<lparr>hs_buf := take bufsize (hs_buf h) @ data @ drop (bufsize + length data) (hs_buf h),
            hs_bytes := hs_bytes h + of_nat (length data)\<rparr>
     else h)"

definition hasher_pad :: bytes where
  "hasher_pad = 0x80 # replicate 63 0"

definition hasher_Finalize :: "transform \<Rightarrow> (u64 \<Rightarrow> bytes) \<Rightarrow> (u32 \<Rightarrow> bytes) \<Rightarrow> hasher \<Rightarrow> bytes" where
  "hasher_Finalize Transform write64 write32 h =
    (let sizedesc = write64 (push_bit 3 (hs_bytes h));
         h = hasher_Write Transform (take (1 + ((119 - unat (hs_bytes h mod 64)) mod 64)) hasher_pad) h;
         h = hasher_Write Transform sizedesc h in
     concat (map write32 (hs_s h)))"

declare hasher_chunks.simps [simp del]

subsection \<open>The reference: iterate the compression function over the padded message\<close>

function block_iterate :: "transform \<Rightarrow> u32 list \<Rightarrow> bytes \<Rightarrow> u32 list" where
  "block_iterate Transform st m =
    (if length m < 64 then st else block_iterate Transform (Transform st (take 64 m)) (drop 64 m))"
  by pat_completeness auto
termination by (relation "measure (\<lambda>(_, _, m). length m)") auto

declare block_iterate.simps [simp del]

definition padded :: "(u64 \<Rightarrow> bytes) \<Rightarrow> bytes \<Rightarrow> bytes" where
  "padded write64 m =
    m @ 0x80 # replicate ((119 - length m mod 64) mod 64) 0 @ write64 (8 * of_nat (length m))"

definition block_digest :: "transform \<Rightarrow> (u64 \<Rightarrow> bytes) \<Rightarrow> (u32 \<Rightarrow> bytes) \<Rightarrow> u32 list \<Rightarrow> bytes \<Rightarrow> bytes" where
  "block_digest Transform write64 write32 init m =
    concat (map write32 (block_iterate Transform init (padded write64 m)))"

lemma block_iterate_short: "length m < 64 \<Longrightarrow> block_iterate tr st m = st"
  by (simp add: block_iterate.simps)

lemma block_iterate_block:
  "length b = 64 \<Longrightarrow> block_iterate tr st (b @ m) = block_iterate tr (tr st b) m"
  by (subst block_iterate.simps) simp

lemma block_iterate_append:
  "64 dvd length a \<Longrightarrow> block_iterate tr st (a @ b) = block_iterate tr (block_iterate tr st a) b"
proof (induction tr st a rule: block_iterate.induct)
  case (1 tr st a)
  show ?case
  proof (cases "length a < 64")
    case True
    then have "a = []" using 1(2) by (auto elim!: dvdE)
    then show ?thesis by (simp add: block_iterate_short)
  next
    case False
    have a: "a = take 64 a @ drop 64 a" by simp
    have "64 dvd length (drop 64 a)" using 1(2) by simp
    then have "block_iterate tr (tr st (take 64 a)) (drop 64 a @ b) =
        block_iterate tr (block_iterate tr (tr st (take 64 a)) (drop 64 a)) b"
      using 1(1) False by simp
    then show ?thesis
      using False block_iterate_block [of "take 64 a" tr st "drop 64 a @ b"]
        block_iterate_block [of "take 64 a" tr st "drop 64 a"]
      by (simp flip: append_assoc)
  qed
qed

text \<open>A hasher holds a message: whole blocks are absorbed into the state, the rest is in the buffer.\<close>

definition holds :: "transform \<Rightarrow> u32 list \<Rightarrow> bytes \<Rightarrow> hasher \<Rightarrow> bool" where
  "holds tr init m h \<longleftrightarrow>
    hs_s h = block_iterate tr init m \<and> hs_bytes h = of_nat (length m) \<and> length (hs_buf h) = 64 \<and>
    take (length m mod 64) (hs_buf h) = drop (length m - length m mod 64) m"

lemma holds_new: "holds tr init [] (hasher_new init)"
  by (simp add: holds_def hasher_new_def block_iterate_short)

text \<open>The rest of a message beyond its whole blocks.\<close>

definition tail_of :: "bytes \<Rightarrow> bytes" where
  "tail_of m = drop (length m - length m mod 64) m"

lemma length_tail_of [simp]: "length (tail_of m) = length m mod 64"
  by (simp add: tail_of_def)

lemma block_iterate_extend:
  "block_iterate tr st (m @ d) = block_iterate tr (block_iterate tr st m) (tail_of m @ d)"
proof -
  let ?f = "take (length m - length m mod 64) m"
  have m: "m = ?f @ tail_of m" by (simp add: tail_of_def)
  have f: "64 dvd length ?f" by (simp add: dvd_minus_mod)
  have "block_iterate tr st m = block_iterate tr (block_iterate tr st ?f) (tail_of m)"
    by (subst m, rule block_iterate_append [OF f])
  then have "block_iterate tr st m = block_iterate tr st ?f" by (simp add: block_iterate_short)
  moreover have "block_iterate tr st (m @ d) = block_iterate tr (block_iterate tr st ?f) (tail_of m @ d)"
    using block_iterate_append [OF f, of tr st "tail_of m @ d"] m by (metis append.assoc)
  ultimately show ?thesis by simp
qed

lemma tail_of_append_small:
  "length m mod 64 + length d < 64 \<Longrightarrow> tail_of (m @ d) = tail_of m @ d"
proof -
  assume a: "length m mod 64 + length d < 64"
  then have "(length m + length d) mod 64 = length m mod 64 + length d"
    by (metis mod_add_left_eq mod_less)
  then show ?thesis by (simp add: tail_of_def)
qed

lemma tail_of_append_block:
  "length m mod 64 + length d = 64 \<Longrightarrow> tail_of (m @ d) = []"
proof -
  assume a: "length m mod 64 + length d = 64"
  then have "(length m + length d) mod 64 = 0"
    by (metis mod_add_left_eq mod_self)
  then show ?thesis by (simp add: tail_of_def)
qed

lemma holds_alt:
  "holds tr init m h \<longleftrightarrow> hs_s h = block_iterate tr init m \<and> hs_bytes h = of_nat (length m) \<and>
    length (hs_buf h) = 64 \<and> take (length m mod 64) (hs_buf h) = tail_of m"
  by (simp add: holds_def tail_of_def)

lemma holds_bufsize: "holds tr init m h \<Longrightarrow> unat (hs_bytes h mod 64) = length m mod 64"
proof -
  assume "holds tr init m h"
  then have "unat (hs_bytes h mod 64) = (length m mod 2 ^ 64) mod 64"
    by (simp add: holds_def unat_mod unat_of_nat)
  also have "\<dots> = length m mod 64" by (rule mod_mod_cancel) simp
  finally show ?thesis .
qed

lemma holds_append_small:
  assumes "holds tr init m h" and "length m mod 64 + length d < 64"
  shows "holds tr init (m @ d)
    (h\<lparr>hs_buf := take (length m mod 64) (hs_buf h) @ d @ drop (length m mod 64 + length d) (hs_buf h),
       hs_bytes := hs_bytes h + of_nat (length d)\<rparr>)"
proof -
  have "(length m + length d) mod 64 = length m mod 64 + length d"
    using assms(2) by (metis mod_add_left_eq mod_less)
  then show ?thesis
    using assms tail_of_append_small [of m d] block_iterate_extend [of tr init m d]
    by (simp add: holds_alt block_iterate_short)
qed

lemma holds_append_block:
  assumes "holds tr init m h" and "length m mod 64 + length d = 64" and "length b = 64"
  shows "holds tr init (m @ d)
    (h\<lparr>hs_buf := b, hs_bytes := hs_bytes h + of_nat (length d), hs_s := tr (hs_s h) (tail_of m @ d)\<rparr>)"
proof -
  have z: "(length m + length d) mod 64 = 0"
    using assms(2) by (metis mod_add_left_eq mod_self)
  have "block_iterate tr init (m @ d) = tr (block_iterate tr init m) (tail_of m @ d)"
    using assms(2) block_iterate_extend [of tr init m d]
      block_iterate_block [of "tail_of m @ d" tr "block_iterate tr init m" "[]"]
    by (simp add: block_iterate_short)
  then show ?thesis
    using assms tail_of_append_block [of m d] z by (simp add: holds_alt)
qed

lemma hasher_fill_holds:
  assumes "holds tr init m h" and "hasher_fill tr data h = (h', data', bufsize)"
  shows "\<exists>m'. holds tr init m' h' \<and> m' @ data' = m @ data \<and> bufsize = length m' mod 64 \<and>
    (bufsize = 0 \<or> bufsize + length data' < 64)"
proof (cases "length m mod 64 \<noteq> 0 \<and> length m mod 64 + length data \<ge> 64")
  case True
  let ?d = "take (64 - length m mod 64) data"
  have "64 - length m mod 64 \<le> length data" using True by linarith
  then have len: "length ?d = 64 - length m mod 64" by simp
  have "take (length m mod 64) (hs_buf h) = tail_of m" using assms(1) by (simp add: holds_alt)
  then have "hasher_fill tr data h =
    (h\<lparr>hs_buf := tail_of m @ ?d, hs_bytes := hs_bytes h + of_nat (length ?d), hs_s := tr (hs_s h) (tail_of m @ ?d)\<rparr>,
     drop (64 - length m mod 64) data, 0)"
    using True by (simp only: hasher_fill_def Let_def holds_bufsize [OF assms(1)] len if_True simp_thms)
  then have "h' = h\<lparr>hs_buf := tail_of m @ ?d, hs_bytes := hs_bytes h + of_nat (length ?d),
      hs_s := tr (hs_s h) (tail_of m @ ?d)\<rparr>"
    and d': "data' = drop (64 - length m mod 64) data" "bufsize = 0"
    using assms(2) by simp_all
  then have "holds tr init (m @ ?d) h'"
    using holds_append_block [OF assms(1), of ?d "tail_of m @ ?d"] len by simp
  moreover have "length (m @ ?d) mod 64 = 0"
  proof -
    have "length m mod 64 < 64" by simp
    then have "length m mod 64 + length ?d = 64" using len by linarith
    then show ?thesis by (metis length_append mod_add_left_eq mod_self)
  qed
  ultimately show ?thesis using d' by (intro exI [of _ "m @ ?d"]) simp
next
  case False
  then show ?thesis
    using assms by (intro exI [of _ m]) (auto simp: hasher_fill_def holds_bufsize [OF assms(1)] Let_def)
qed

lemma hasher_chunks_holds:
  "holds tr init m h \<Longrightarrow> length m mod 64 = 0 \<Longrightarrow> hasher_chunks tr data h = (h', data') \<Longrightarrow>
    \<exists>m'. holds tr init m' h' \<and> m' @ data' = m @ data \<and> length m' mod 64 = 0 \<and> length data' < 64"
proof (induction tr data h arbitrary: m rule: hasher_chunks.induct)
  case (1 tr data h)
  show ?case
  proof (cases "length data \<ge> 64")
    case True
    let ?h = "h\<lparr>hs_s := tr (hs_s h) (take 64 data), hs_bytes := hs_bytes h + 64\<rparr>"
    have "tail_of m = []" using 1(3) by (simp add: tail_of_def)
    then have "holds tr init (m @ take 64 data)
        (h\<lparr>hs_buf := hs_buf h, hs_bytes := hs_bytes h + 64, hs_s := tr (hs_s h) (take 64 data)\<rparr>)"
      using holds_append_block [OF 1(2), of "take 64 data" "hs_buf h"] 1(2,3) True
      by (simp add: holds_alt)
    then have h: "holds tr init (m @ take 64 data) ?h" by (simp add: holds_def)
    have "length (m @ take 64 data) mod 64 = 0" using 1(3) True by simp
    moreover have "hasher_chunks tr (drop 64 data) ?h = (h', data')"
      using 1(4) True by (subst (asm) hasher_chunks.simps) simp
    ultimately show ?thesis using 1(1) [OF True h] by (metis append.assoc append_take_drop_id)
  next
    case False
    then have "h' = h" "data' = data" using 1(4) by (simp_all add: hasher_chunks.simps)
    then show ?thesis using 1(2,3) False by (intro exI [of _ m]) simp
  qed
qed

lemma hasher_Write_holds:
  assumes "holds tr init m h"
  shows "holds tr init (m @ data) (hasher_Write tr data h)"
proof -
  obtain h1 d1 n where fill: "hasher_fill tr data h = (h1, d1, n)" by (metis prod_cases3)
  from hasher_fill_holds [OF assms fill] obtain m1 where
    m1: "holds tr init m1 h1" "m1 @ d1 = m @ data" "n = length m1 mod 64" "n = 0 \<or> n + length d1 < 64"
    by (elim exE conjE) (rule that)
  obtain h2 d2 where chunks: "hasher_chunks tr d1 h1 = (h2, d2)" by fastforce
  obtain m2 where
    m2: "holds tr init m2 h2" "m2 @ d2 = m @ data" "n = length m2 mod 64" "n + length d2 < 64"
  proof (cases "n = 0")
    case True
    then have "length m1 mod 64 = 0" using m1(3) by simp
    from hasher_chunks_holds [OF m1(1) this chunks] True show thesis
      by (elim exE conjE) (rule that, simp_all add: m1(2))
  next
    case False
    then have "h2 = h1" "d2 = d1" using m1(4) chunks by (auto simp: hasher_chunks.simps)
    then show thesis using that m1 False by simp
  qed
  from holds_append_small [OF m2(1), of d2] m2 fill chunks show ?thesis
    by (cases "d2 = []") (auto simp: hasher_Write_def)
qed

lemma fold_hasher_Write_holds:
  "holds tr init m h \<Longrightarrow> holds tr init (m @ concat ds) (fold (hasher_Write tr) ds h)"
proof (induction ds arbitrary: m h)
  case (Cons d ds)
  then show ?case using hasher_Write_holds [of tr init m h d] by fastforce
qed simp

subsection \<open>What the buffering needs of a compression function\<close>

locale block_hash =
  fixes Transform :: transform
    and init :: "u32 list"
    and write64 :: "u64 \<Rightarrow> bytes"
    and write32 :: "u32 \<Rightarrow> bytes"
  assumes length_Transform: "length st = length init \<Longrightarrow> length (Transform st b) = length init"
    and length_write64: "length (write64 x) = 8"
    and length_write32: "length (write32 y) = 4"
begin

lemma Finalize_holds:
  assumes "holds Transform init m h"
  shows "hasher_Finalize Transform write64 write32 h = block_digest Transform write64 write32 init m"
proof -
  let ?r = "length m mod 64"
  let ?p = "take (1 + ((119 - ?r) mod 64)) hasher_pad"
  have "(119 - ?r) mod 64 < 64" by simp
  then have p: "?p = 0x80 # replicate ((119 - ?r) mod 64) 0"
    by (simp add: hasher_pad_def min_absorb1)
  have "push_bit 3 (hs_bytes h) = 8 * of_nat (length m)"
    using assms by (simp add: holds_def push_bit_eq_mult)
  then have "holds Transform init (padded write64 m)
     (hasher_Write Transform (write64 (push_bit 3 (hs_bytes h))) (hasher_Write Transform ?p h))"
    using hasher_Write_holds [OF hasher_Write_holds [OF assms, of ?p], of "write64 (8 * of_nat (length m))"] p
    by (simp add: padded_def)
  then show ?thesis
    by (simp add: hasher_Finalize_def block_digest_def holds_bufsize [OF assms] holds_def)
qed

text \<open>Any sequence of writes hashes the concatenation of what was written.\<close>

lemma Finalize_writes:
  "hasher_Finalize Transform write64 write32 (fold (hasher_Write Transform) ds (hasher_new init)) =
   block_digest Transform write64 write32 init (concat ds)"
  using Finalize_holds [OF fold_hasher_Write_holds [OF holds_new, of Transform init ds]] by simp

lemma length_block_iterate:
  "length st = length init \<Longrightarrow> length (block_iterate Transform st m) = length init"
proof (induction "length m" arbitrary: st m rule: less_induct)
  case less
  then show ?case by (subst block_iterate.simps) (simp add: length_Transform)
qed

lemma length_digest: "length (block_digest Transform write64 write32 init m) = 4 * length init"
  by (simp add: block_digest_def length_concat o_def length_write32 sum_list_triv length_block_iterate)

text \<open>The padded message is a whole number of blocks, so the digest absorbs all of it.\<close>

lemma padded_blocks: "64 dvd length (padded write64 m)"
proof -
  have "(length m + (119 - length m mod 64) mod 64 + 9) mod 64 = 0"
  proof -
    define r where "r = length m mod 64"
    have "r < 64" by (simp add: r_def)
    then have "(119 - r) mod 64 = (if r \<le> 55 then 55 - r else 119 - r)"
      by (auto simp: mod_if)
    moreover have "(length m + k) mod 64 = (r + k) mod 64" for k by (simp add: r_def mod_add_left_eq)
    ultimately show ?thesis using \<open>r < 64\<close> by (auto simp: r_def [symmetric] add.assoc)
  qed
  moreover have "length (padded write64 m) = length m + (119 - length m mod 64) mod 64 + 9"
    by (simp add: padded_def length_write64)
  ultimately show ?thesis by (simp only: dvd_eq_mod_eq_0)
qed

end

subsection \<open>Registers that rotate and words that are overwritten\<close>

text \<open>
  SHA-1 and RIPEMD-160 pass five registers to round \<open>i\<close> rotated by \<open>i\<close> places. SHA-256 and SHA-1 keep
  the last sixteen words of the message schedule, overwriting word \<open>i mod 16\<close> in round \<open>i\<close>.
\<close>

definition reg5 :: "nat \<Rightarrow> nat \<Rightarrow> nat" where
  "reg5 i r = (r + 4 * i) mod 5"

definition rotated5 :: "nat \<Rightarrow> u32 list \<Rightarrow> u32 list" where
  "rotated5 i v = map (\<lambda>r. v ! reg5 i r) [0..<5]"

lemma nat_mod5_cases:
  obtains "i mod 5 = (0::nat)" | "i mod 5 = 1" | "i mod 5 = 2" | "i mod 5 = 3" | "i mod 5 = 4"
proof -
  have "i mod 5 < 5" by simp
  then show thesis using that by linarith
qed

lemma reg5_mod: "reg5 i r = (r + 4 * (i mod 5)) mod 5"
  unfolding reg5_def by (metis mod_add_right_eq mod_mult_right_eq)

lemma rotated5_full: "i mod 5 = 0 \<Longrightarrow> length v = 5 \<Longrightarrow> rotated5 i v = v"
  by (rule nth_equalityI) (simp_all add: rotated5_def reg5_mod)

lemma rotated5_Suc: "rotated5 (Suc i) v = map (\<lambda>r. v ! reg5 i (r + 4)) [0..<5]"
  by (simp add: rotated5_def reg5_def add.assoc)

lemma upt5: "[0..<5] = [0, 1, 2, 3, 4::nat]"
  by (simp add: upt_rec)

lemma length5_cases:
  assumes "length v = 5"
  obtains a b c d e where "v = [a, b, c, d, e]"
  using assms that by (auto simp: eval_nat_numeral length_Suc_conv)

definition window :: "(nat \<Rightarrow> u32) \<Rightarrow> nat \<Rightarrow> u32 list \<Rightarrow> bool" where
  "window W i w \<longleftrightarrow> length w = 16 \<and> (\<forall>t. t < i \<and> i \<le> t + 16 \<longrightarrow> w ! (t mod 16) = W t)"

lemma window_update:
  assumes "window W i w" and "x = W i"
  shows "window W (Suc i) (w[i mod 16 := x])"
proof -
  have ne: "t mod 16 \<noteq> i mod 16" if "t < i" "Suc i \<le> t + 16" for t
  proof
    assume "t mod 16 = i mod 16"
    then have "16 dvd i - t" using that(1) by (metis less_imp_le_nat mod_eq_dvd_iff_nat)
    then have "16 \<le> i - t" using that(1) by (intro dvd_imp_le) simp_all
    then show False using that by linarith
  qed
  have "w[i mod 16 := x] ! (t mod 16) = W t" if "t < Suc i" "Suc i \<le> t + 16" for t
  proof (cases "t = i")
    case False
    then have "t < i" using that(1) by simp
    then show ?thesis using assms(1) ne [of t] that(2) by (simp add: window_def)
  qed (use assms in \<open>simp add: window_def\<close>)
  then show ?thesis using assms(1) by (simp add: window_def)
qed

lemma window_nth:
  assumes "window W i w" and "16 \<le> i" and "k < 16"
  shows "w ! ((i + k) mod 16) = W (i - (16 - k))"
proof -
  have "(i + k) mod 16 = (i - (16 - k)) mod 16"
    using assms(2,3) by (metis add.commute diff_diff_right le_add_diff_inverse less_imp_le_nat
        mod_add_self2 trans_le_add2)
  then show ?thesis using assms by (simp add: window_def)
qed

end
