(* ===== verification/SC_Sha256.thy ===== *)
theory SC_Sha256
  imports SC_Hasher
begin

text \<open>
  SHA-256 (\<^verbatim>\<open>crypto/sha256.cpp\<close>). The source unrolls the 64 rounds: round \<open>i\<close> passes the registers
  \<open>a\<close> to \<open>h\<close> rotated by \<open>i\<close> places instead of moving their contents, and keeps the last sixteen words
  of the message schedule in \<open>w0\<close> to \<open>w15\<close>, overwriting word \<open>i mod 16\<close>. Here round \<open>i\<close> is
  \<open>sha256_step i\<close> over the list of registers and the list of schedule words, with the same rotation and
  the same overwriting. The reference is the textual definition of FIPS 180-4, where the registers move
  and the schedule is a sequence of 64 words.
\<close>

subsection \<open>The compression function\<close>

definition sha256_Ch :: "u32 \<Rightarrow> u32 \<Rightarrow> u32 \<Rightarrow> u32" where
  "sha256_Ch x y z = z XOR (x AND (y XOR z))"

definition sha256_Maj :: "u32 \<Rightarrow> u32 \<Rightarrow> u32 \<Rightarrow> u32" where
  "sha256_Maj x y z = (x AND y) OR (z AND (x OR y))"

definition sha256_Sigma0 :: "u32 \<Rightarrow> u32" where
  "sha256_Sigma0 x = (drop_bit 2 x OR push_bit 30 x) XOR (drop_bit 13 x OR push_bit 19 x) XOR
    (drop_bit 22 x OR push_bit 10 x)"

definition sha256_Sigma1 :: "u32 \<Rightarrow> u32" where
  "sha256_Sigma1 x = (drop_bit 6 x OR push_bit 26 x) XOR (drop_bit 11 x OR push_bit 21 x) XOR
    (drop_bit 25 x OR push_bit 7 x)"

definition sha256_sigma0 :: "u32 \<Rightarrow> u32" where
  "sha256_sigma0 x = (drop_bit 7 x OR push_bit 25 x) XOR (drop_bit 18 x OR push_bit 14 x) XOR drop_bit 3 x"

definition sha256_sigma1 :: "u32 \<Rightarrow> u32" where
  "sha256_sigma1 x = (drop_bit 17 x OR push_bit 15 x) XOR (drop_bit 19 x OR push_bit 13 x) XOR drop_bit 10 x"

definition sha256_Round ::
  "u32 \<Rightarrow> u32 \<Rightarrow> u32 \<Rightarrow> u32 \<Rightarrow> u32 \<Rightarrow> u32 \<Rightarrow> u32 \<Rightarrow> u32 \<Rightarrow> u32 \<Rightarrow> u32 \<Rightarrow> u32 \<times> u32" where
  "sha256_Round a b c d e f g h k w =
    (let t1 = h + sha256_Sigma1 e + sha256_Ch e f g + k + w;
         t2 = sha256_Sigma0 a + sha256_Maj a b c in
     (d + t1, t1 + t2))"

definition sha256_Initialize :: "u32 list" where
  "sha256_Initialize = [0x6a09e667, 0xbb67ae85, 0x3c6ef372, 0xa54ff53a, 0x510e527f, 0x9b05688c,
    0x1f83d9ab, 0x5be0cd19]"

text \<open>The constants of the rounds, as the calls of \<open>Round\<close> have them: one row for each full turn of the eight registers.\<close>

definition sha256_K :: "u32 list" where
  "sha256_K = concat
    [[0x428a2f98, 0x71374491, 0xb5c0fbcf, 0xe9b5dba5, 0x3956c25b, 0x59f111f1, 0x923f82a4, 0xab1c5ed5],
     [0xd807aa98, 0x12835b01, 0x243185be, 0x550c7dc3, 0x72be5d74, 0x80deb1fe, 0x9bdc06a7, 0xc19bf174],
     [0xe49b69c1, 0xefbe4786, 0x0fc19dc6, 0x240ca1cc, 0x2de92c6f, 0x4a7484aa, 0x5cb0a9dc, 0x76f988da],
     [0x983e5152, 0xa831c66d, 0xb00327c8, 0xbf597fc7, 0xc6e00bf3, 0xd5a79147, 0x06ca6351, 0x14292967],
     [0x27b70a85, 0x2e1b2138, 0x4d2c6dfc, 0x53380d13, 0x650a7354, 0x766a0abb, 0x81c2c92e, 0x92722c85],
     [0xa2bfe8a1, 0xa81a664b, 0xc24b8b70, 0xc76c51a3, 0xd192e819, 0xd6990624, 0xf40e3585, 0x106aa070],
     [0x19a4c116, 0x1e376c08, 0x2748774c, 0x34b0bcb5, 0x391c0cb3, 0x4ed8aa4a, 0x5b9cca4f, 0x682e6ff3],
     [0x748f82ee, 0x78a5636f, 0x84c87814, 0x8cc70208, 0x90befffa, 0xa4506ceb, 0xbef9a3f7, 0xc67178f2]]"

definition sha256_reg :: "nat \<Rightarrow> nat \<Rightarrow> nat" where
  "sha256_reg i r = (r + 7 * i) mod 8"

definition sha256_word :: "bytes \<Rightarrow> nat \<Rightarrow> u32 list \<Rightarrow> u32" where
  "sha256_word chunk i w =
    (if i < 16 then ReadBE32 (drop (4 * i) chunk)
     else w ! (i mod 16) + (sha256_sigma1 (w ! ((i + 14) mod 16)) + w ! ((i + 9) mod 16) +
       sha256_sigma0 (w ! ((i + 1) mod 16))))"

definition sha256_step :: "bytes \<Rightarrow> nat \<Rightarrow> u32 list \<times> u32 list \<Rightarrow> u32 list \<times> u32 list" where
  "sha256_step chunk i = (\<lambda>(v, w).
    let wi = sha256_word chunk i w;
        x = (\<lambda>r. v ! sha256_reg i r);
        (d, h) = sha256_Round (x 0) (x 1) (x 2) (x 3) (x 4) (x 5) (x 6) (x 7) (sha256_K ! i) wi in
    (v[sha256_reg i 3 := d, sha256_reg i 7 := h], w[i mod 16 := wi]))"

definition sha256_Transform1 :: "u32 list \<Rightarrow> bytes \<Rightarrow> u32 list" where
  "sha256_Transform1 s chunk =
    map2 (+) s (fst (fold (sha256_step chunk) [0..<64] (s, replicate 16 0)))"

fun sha256_Transform :: "u32 list \<Rightarrow> bytes \<Rightarrow> nat \<Rightarrow> u32 list" where
  "sha256_Transform s chunk 0 = s"
| "sha256_Transform s chunk (Suc blocks) =
    sha256_Transform (sha256_Transform1 s chunk) (drop 64 chunk) blocks"

subsection \<open>The class CSHA256\<close>

definition CSHA256_new :: hasher where
  "CSHA256_new = hasher_new sha256_Initialize"

definition CSHA256_Write :: "bytes \<Rightarrow> hasher \<Rightarrow> hasher" where
  "CSHA256_Write data h =
    (let (h, data, bufsize) = hasher_fill (\<lambda>s b. sha256_Transform s b 1) data h;
         (h, data) =
           (if length data \<ge> 64
            then let blocks = length data div 64 in
              (h\<lparr>hs_s := sha256_Transform (hs_s h) data blocks, hs_bytes := hs_bytes h + of_nat (64 * blocks)\<rparr>,
               drop (64 * blocks) data)
            else (h, data)) in
     if data \<noteq> []
     then h\<lparr>hs_buf := take bufsize (hs_buf h) @ data @ drop (bufsize + length data) (hs_buf h),
            hs_bytes := hs_bytes h + of_nat (length data)\<rparr>
     else h)"

definition CSHA256_Finalize :: "hasher \<Rightarrow> bytes" where
  "CSHA256_Finalize h =
    (let sizedesc = WriteBE64 (push_bit 3 (hs_bytes h));
         h = CSHA256_Write (take (1 + ((119 - unat (hs_bytes h mod 64)) mod 64)) hasher_pad) h;
         h = CSHA256_Write sizedesc h in
     concat (map WriteBE32 (hs_s h)))"

definition CSHA256_Reset :: "hasher \<Rightarrow> hasher" where
  "CSHA256_Reset h = h\<lparr>hs_bytes := 0, hs_s := sha256_Initialize\<rparr>"

subsection \<open>The reference of FIPS 180-4\<close>

function fips_W :: "bytes \<Rightarrow> nat \<Rightarrow> u32" where
  "fips_W chunk t =
    (if t < 16 then ReadBE32 (drop (4 * t) chunk)
     else sha256_sigma1 (fips_W chunk (t - 2)) + fips_W chunk (t - 7) + sha256_sigma0 (fips_W chunk (t - 15)) +
       fips_W chunk (t - 16))"
  by pat_completeness auto
termination by (relation "measure snd") auto

declare fips_W.simps [simp del]

fun fips_round :: "u32 \<Rightarrow> u32 \<Rightarrow> u32 list \<Rightarrow> u32 list" where
  "fips_round k w [a, b, c, d, e, f, g, h] =
    (let t1 = h + sha256_Sigma1 e + sha256_Ch e f g + k + w;
         t2 = sha256_Sigma0 a + sha256_Maj a b c in
     [t1 + t2, a, b, c, d + t1, e, f, g])"
| "fips_round k w v = v"

definition fips_compress :: "u32 list \<Rightarrow> bytes \<Rightarrow> u32 list" where
  "fips_compress s chunk =
    map2 (+) s (fold (\<lambda>t. fips_round (sha256_K ! t) (fips_W chunk t)) [0..<64] s)"

definition fips_sha256 :: "bytes \<Rightarrow> bytes" where
  "fips_sha256 m = block_digest fips_compress WriteBE64 WriteBE32 sha256_Initialize m"

text \<open>
  The registers of the source, read in the rotation of round \<open>i\<close>, are those of the reference; the
  schedule words are the last sixteen words of the reference schedule.
\<close>

definition rotated :: "nat \<Rightarrow> u32 list \<Rightarrow> u32 list" where
  "rotated i v = map (\<lambda>r. v ! sha256_reg i r) [0..<8]"

lemma nat_mod8_cases:
  obtains "i mod 8 = (0::nat)" | "i mod 8 = 1" | "i mod 8 = 2" | "i mod 8 = 3" | "i mod 8 = 4"
    | "i mod 8 = 5" | "i mod 8 = 6" | "i mod 8 = 7"
proof -
  have "i mod 8 < 8" by simp
  then show thesis using that by linarith
qed

lemma sha256_reg_mod: "sha256_reg i r = (r + 7 * (i mod 8)) mod 8"
  unfolding sha256_reg_def by (metis mod_add_right_eq mod_mult_right_eq)

lemma rotated_full: "i mod 8 = 0 \<Longrightarrow> length v = 8 \<Longrightarrow> rotated i v = v"
  by (rule nth_equalityI) (simp_all add: rotated_def sha256_reg_mod)

lemma rotated_Suc: "rotated (Suc i) v = map (\<lambda>r. v ! sha256_reg i (r + 7)) [0..<8]"
  by (simp add: rotated_def sha256_reg_def add.assoc)

lemma upt8: "[0..<8] = [0, 1, 2, 3, 4, 5, 6, 7::nat]"
  by (simp add: upt_rec)

lemma rotated_step:
  assumes "length v = 8"
  shows "rotated (Suc i) (fst (sha256_step chunk i (v, w))) =
    fips_round (sha256_K ! i) (sha256_word chunk i w) (rotated i v)"
proof -
  obtain a b c d e f g h where v: "v = [a, b, c, d, e, f, g, h]"
    using assms by (auto simp: eval_nat_numeral length_Suc_conv)
  show ?thesis
    unfolding rotated_Suc unfolding rotated_def
    by (cases i rule: nat_mod8_cases)
      (simp_all add: v upt8 sha256_step_def sha256_reg_mod sha256_Round_def Let_def)
qed

lemma sha256_word_window:
  assumes "window (fips_W chunk) i w"
  shows "sha256_word chunk i w = fips_W chunk i"
proof (cases "i < 16")
  case True
  then show ?thesis by (simp add: sha256_word_def fips_W.simps)
next
  case False
  then have w: "w ! ((i + k) mod 16) = fips_W chunk (i - (16 - k))" if "k < 16" for k
    using window_nth [OF assms] that by simp
  from w [of 0] w [of 14] w [of 9] w [of 1] False show ?thesis
    by (subst fips_W.simps) (simp add: sha256_word_def algebra_simps)
qed

lemma length_sha256_step [simp]:
  "length (fst (sha256_step chunk i (v, w))) = length v"
  by (simp add: sha256_step_def Let_def split: prod.split)

lemma sha256_rounds:
  fixes chunk :: bytes
  assumes "length v = 8"
  defines "st \<equiv> \<lambda>n. fold (sha256_step chunk) [0..<n] (v, replicate 16 0)"
  shows "length (fst (st n)) = 8 \<and> window (fips_W chunk) n (snd (st n)) \<and>
    rotated n (fst (st n)) = fold (\<lambda>t. fips_round (sha256_K ! t) (fips_W chunk t)) [0..<n] v"
proof (induction n)
  case 0
  have "rotated 0 v = v" using assms(1) by (simp add: rotated_full)
  then show ?case using assms(1) by (simp add: st_def window_def)
next
  case (Suc n)
  obtain v' w' where st: "st n = (v', w')" by fastforce
  have step: "st (Suc n) = sha256_step chunk n (v', w')" using st by (simp add: st_def)
  have w: "sha256_word chunk n w' = fips_W chunk n" using Suc st by (simp add: sha256_word_window)
  have "snd (st (Suc n)) = w'[n mod 16 := fips_W chunk n]"
    using w by (simp add: step sha256_step_def Let_def split: prod.split)
  then show ?case using Suc st w rotated_step [of v' n chunk w'] window_update [of "fips_W chunk" n w' "fips_W chunk n"]
    by (simp add: step)
qed

lemma sha256_Transform1_fips:
  assumes "length st = 8"
  shows "sha256_Transform1 st chunk = fips_compress st chunk"
proof -
  let ?v = "fst (fold (sha256_step chunk) [0..<64] (st, replicate 16 0))"
  note rounds = sha256_rounds [OF assms, of chunk 64]
  have "rotated 64 ?v = ?v" using rounds by (intro rotated_full) simp_all
  with rounds have "fold (\<lambda>t. fips_round (sha256_K ! t) (fips_W chunk t)) [0..<64] st = ?v" by simp
  then show ?thesis by (simp only: sha256_Transform1_def fips_compress_def)
qed

lemma length_sha256_Transform1 [simp]: "length (sha256_Transform1 st chunk) = length st"
proof -
  have "length (fst (fold (sha256_step chunk) is (v, w))) = length v" for "is" v w
    by (induction "is" arbitrary: v w) (auto, metis length_sha256_step prod.collapse)
  then show ?thesis by (simp add: sha256_Transform1_def)
qed

interpretation sha256: block_hash sha256_Transform1 sha256_Initialize WriteBE64 WriteBE32
  by unfold_locales simp_all

lemma sha256_Transform1_take: "sha256_Transform1 st (take 64 chunk) = sha256_Transform1 st chunk"
proof -
  have "sha256_word (take 64 chunk) i = sha256_word chunk i" for i
    by (simp add: fun_eq_iff sha256_word_def ReadBE32_def drop_take)
  then have "sha256_step (take 64 chunk) = sha256_step chunk" by (simp add: fun_eq_iff sha256_step_def)
  then show ?thesis by (simp only: sha256_Transform1_def)
qed

text \<open>Handing all whole blocks to the compression function at once is handing them one by one.\<close>

lemma sha256_Transform_Suc0 [simp]: "sha256_Transform st chunk (Suc 0) = sha256_Transform1 st chunk"
  by simp

lemma hasher_chunks_Transform:
  "hasher_chunks sha256_Transform1 data h =
    (h\<lparr>hs_s := sha256_Transform (hs_s h) data (length data div 64),
       hs_bytes := hs_bytes h + of_nat (64 * (length data div 64))\<rparr>, drop (64 * (length data div 64)) data)"
proof (induction sha256_Transform1 data h rule: hasher_chunks.induct)
  case (1 data h)
  show ?case
  proof (cases "length data \<ge> 64")
    case True
    then have n: "length data div 64 = Suc ((length data - 64) div 64)" using le_div_geq [of 64 "length data"] by simp
    show ?thesis
      using 1 [OF True] True by (subst hasher_chunks.simps) (simp add: n sha256_Transform1_take algebra_simps)
  next
    case False
    then show ?thesis by (simp add: hasher_chunks.simps)
  qed
qed

lemma CSHA256_Write_eq: "CSHA256_Write = hasher_Write sha256_Transform1"
proof (intro ext)
  fix data h
  show "CSHA256_Write data h = hasher_Write sha256_Transform1 data h"
    by (simp add: CSHA256_Write_def hasher_Write_def hasher_chunks_Transform Let_def split: prod.split)
qed

lemma CSHA256_Finalize_eq: "CSHA256_Finalize = hasher_Finalize sha256_Transform1 WriteBE64 WriteBE32"
  by (simp add: fun_eq_iff CSHA256_Finalize_def hasher_Finalize_def CSHA256_Write_eq)

lemma block_iterate_fips:
  "length st = 8 \<Longrightarrow> block_iterate sha256_Transform1 st m = block_iterate fips_compress st m"
proof (induction "length m" arbitrary: st m rule: less_induct)
  case less
  then show ?case
    by (subst (1 2) block_iterate.simps) (simp add: sha256_Transform1_fips [symmetric])
qed

lemma CSHA256_fold:
  "CSHA256_Finalize (fold CSHA256_Write ds CSHA256_new) = fips_sha256 (concat ds)"
  using sha256.Finalize_writes [of ds]
  by (simp add: CSHA256_Finalize_eq CSHA256_Write_eq CSHA256_new_def fips_sha256_def block_digest_def
      block_iterate_fips sha256_Initialize_def)

lemma length_fips_sha256: "length (fips_sha256 m) = 32"
  using sha256.length_digest [of m]
  by (simp add: fips_sha256_def block_digest_def block_iterate_fips sha256_Initialize_def)

end
