(* ===== verification/SC_Sha1.thy ===== *)
theory SC_Sha1
  imports SC_Hasher
begin

text \<open>
  SHA-1 (\<^verbatim>\<open>crypto/sha1.cpp\<close>). As in SHA-256, the eighty unrolled rounds rotate the registers and
  overwrite a window of sixteen schedule words; the reference is FIPS 180-4.
\<close>

definition sha1_f1 :: "u32 \<Rightarrow> u32 \<Rightarrow> u32 \<Rightarrow> u32" where
  "sha1_f1 b c d = d XOR (b AND (c XOR d))"

definition sha1_f2 :: "u32 \<Rightarrow> u32 \<Rightarrow> u32 \<Rightarrow> u32" where
  "sha1_f2 b c d = b XOR c XOR d"

definition sha1_f3 :: "u32 \<Rightarrow> u32 \<Rightarrow> u32 \<Rightarrow> u32" where
  "sha1_f3 b c d = (b AND c) OR (d AND (b OR c))"

definition sha1_left :: "u32 \<Rightarrow> u32" where
  "sha1_left x = push_bit 1 x OR drop_bit 31 x"

definition sha1_Round :: "u32 \<Rightarrow> u32 \<Rightarrow> u32 \<Rightarrow> u32 \<Rightarrow> u32 \<Rightarrow> u32 \<Rightarrow> u32 \<Rightarrow> u32 \<Rightarrow> u32 \<times> u32" where
  "sha1_Round a b c d e f k w =
    (push_bit 30 b OR drop_bit 2 b, e + ((push_bit 5 a OR drop_bit 27 a) + f + k + w))"

definition sha1_Initialize :: "u32 list" where
  "sha1_Initialize = [0x67452301, 0xEFCDAB89, 0x98BADCFE, 0x10325476, 0xC3D2E1F0]"

definition sha1_k :: "nat \<Rightarrow> u32" where
  "sha1_k i = (if i < 20 then 0x5A827999 else if i < 40 then 0x6ED9EBA1
    else if i < 60 then 0x8F1BBCDC else 0xCA62C1D6)"

definition sha1_f :: "nat \<Rightarrow> u32 \<Rightarrow> u32 \<Rightarrow> u32 \<Rightarrow> u32" where
  "sha1_f i = (if i < 20 then sha1_f1 else if i < 40 then sha1_f2 else if i < 60 then sha1_f3 else sha1_f2)"

definition sha1_word :: "bytes \<Rightarrow> nat \<Rightarrow> u32 list \<Rightarrow> u32" where
  "sha1_word chunk i w =
    (if i < 16 then ReadBE32 (drop (4 * i) chunk)
     else sha1_left (w ! (i mod 16) XOR w ! ((i + 13) mod 16) XOR w ! ((i + 8) mod 16) XOR w ! ((i + 2) mod 16)))"

definition sha1_step :: "bytes \<Rightarrow> nat \<Rightarrow> u32 list \<times> u32 list \<Rightarrow> u32 list \<times> u32 list" where
  "sha1_step chunk i = (\<lambda>(v, w).
    let wi = sha1_word chunk i w;
        x = (\<lambda>r. v ! reg5 i r);
        (b, e) = sha1_Round (x 0) (x 1) (x 2) (x 3) (x 4) (sha1_f i (x 1) (x 2) (x 3)) (sha1_k i) wi in
    (v[reg5 i 4 := e, reg5 i 1 := b], w[i mod 16 := wi]))"

definition sha1_Transform :: "u32 list \<Rightarrow> bytes \<Rightarrow> u32 list" where
  "sha1_Transform s chunk = map2 (+) s (fst (fold (sha1_step chunk) [0..<80] (s, replicate 16 0)))"

definition CSHA1_new :: hasher where
  "CSHA1_new = hasher_new sha1_Initialize"

definition CSHA1_Write :: "bytes \<Rightarrow> hasher \<Rightarrow> hasher" where
  "CSHA1_Write = hasher_Write sha1_Transform"

definition CSHA1_Finalize :: "hasher \<Rightarrow> bytes" where
  "CSHA1_Finalize = hasher_Finalize sha1_Transform WriteBE64 WriteBE32"

definition CSHA1_Reset :: "hasher \<Rightarrow> hasher" where
  "CSHA1_Reset h = h\<lparr>hs_bytes := 0, hs_s := sha1_Initialize\<rparr>"

subsection \<open>The reference of FIPS 180-4\<close>

function fips1_W :: "bytes \<Rightarrow> nat \<Rightarrow> u32" where
  "fips1_W chunk t =
    (if t < 16 then ReadBE32 (drop (4 * t) chunk)
     else sha1_left (fips1_W chunk (t - 3) XOR fips1_W chunk (t - 8) XOR fips1_W chunk (t - 14) XOR
       fips1_W chunk (t - 16)))"
  by pat_completeness auto
termination by (relation "measure snd") auto

declare fips1_W.simps [simp del]

fun fips1_round :: "nat \<Rightarrow> u32 \<Rightarrow> u32 list \<Rightarrow> u32 list" where
  "fips1_round t w [a, b, c, d, e] =
    [(push_bit 5 a OR drop_bit 27 a) + sha1_f t b c d + e + sha1_k t + w, a, push_bit 30 b OR drop_bit 2 b, c, d]"
| "fips1_round t w v = v"

definition fips1_compress :: "u32 list \<Rightarrow> bytes \<Rightarrow> u32 list" where
  "fips1_compress s chunk = map2 (+) s (fold (\<lambda>t. fips1_round t (fips1_W chunk t)) [0..<80] s)"

definition fips_sha1 :: "bytes \<Rightarrow> bytes" where
  "fips_sha1 m = block_digest fips1_compress WriteBE64 WriteBE32 sha1_Initialize m"

lemma sha1_rotated_step:
  assumes "length v = 5"
  shows "rotated5 (Suc i) (fst (sha1_step chunk i (v, w))) =
    fips1_round i (sha1_word chunk i w) (rotated5 i v)"
proof -
  obtain a b c d e where v: "v = [a, b, c, d, e]" using assms by (rule length5_cases)
  show ?thesis
    unfolding rotated5_Suc unfolding rotated5_def
    by (cases i rule: nat_mod5_cases)
      (simp_all add: v upt5 sha1_step_def reg5_mod sha1_Round_def Let_def ac_simps)
qed

lemma sha1_word_window:
  assumes "window (fips1_W chunk) i w"
  shows "sha1_word chunk i w = fips1_W chunk i"
proof (cases "i < 16")
  case True
  then show ?thesis by (simp add: sha1_word_def fips1_W.simps)
next
  case False
  then have w: "w ! ((i + k) mod 16) = fips1_W chunk (i - (16 - k))" if "k < 16" for k
    using window_nth [OF assms] that by simp
  from w [of 0] w [of 13] w [of 8] w [of 2] False show ?thesis
    by (subst fips1_W.simps) (simp add: sha1_word_def ac_simps)
qed

lemma length_sha1_step [simp]: "length (fst (sha1_step chunk i (v, w))) = length v"
  by (simp add: sha1_step_def Let_def split: prod.split)

lemma sha1_rounds:
  fixes chunk :: bytes
  assumes "length v = 5"
  defines "st \<equiv> \<lambda>n. fold (sha1_step chunk) [0..<n] (v, replicate 16 0)"
  shows "length (fst (st n)) = 5 \<and> window (fips1_W chunk) n (snd (st n)) \<and>
    rotated5 n (fst (st n)) = fold (\<lambda>t. fips1_round t (fips1_W chunk t)) [0..<n] v"
proof (induction n)
  case 0
  then show ?case using assms(1) by (simp add: st_def window_def rotated5_full)
next
  case (Suc n)
  obtain v' w' where st: "st n = (v', w')" by fastforce
  have step: "st (Suc n) = sha1_step chunk n (v', w')" using st by (simp add: st_def)
  have w: "sha1_word chunk n w' = fips1_W chunk n" using Suc st by (simp add: sha1_word_window)
  have "snd (st (Suc n)) = w'[n mod 16 := fips1_W chunk n]"
    using w by (simp add: step sha1_step_def Let_def split: prod.split)
  then show ?case
    using Suc st w sha1_rotated_step [of v' n chunk w'] window_update [of "fips1_W chunk" n w' "fips1_W chunk n"]
    by (simp add: step)
qed

lemma sha1_Transform_fips:
  assumes "length st = 5"
  shows "sha1_Transform st chunk = fips1_compress st chunk"
proof -
  let ?v = "fst (fold (sha1_step chunk) [0..<80] (st, replicate 16 0))"
  note rounds = sha1_rounds [OF assms, of chunk 80]
  have "rotated5 80 ?v = ?v" using rounds by (intro rotated5_full) simp_all
  with rounds have "fold (\<lambda>t. fips1_round t (fips1_W chunk t)) [0..<80] st = ?v" by simp
  then show ?thesis by (simp only: sha1_Transform_def fips1_compress_def)
qed

lemma length_sha1_Transform [simp]: "length (sha1_Transform st chunk) = length st"
proof -
  have "length (fst (fold (sha1_step chunk) is (v, w))) = length v" for "is" v w
    by (induction "is" arbitrary: v w) (auto, metis length_sha1_step prod.collapse)
  then show ?thesis by (simp add: sha1_Transform_def)
qed

interpretation sha1: block_hash sha1_Transform sha1_Initialize WriteBE64 WriteBE32
  by unfold_locales simp_all

lemma block_iterate_fips1:
  "length st = 5 \<Longrightarrow> block_iterate sha1_Transform st m = block_iterate fips1_compress st m"
proof (induction "length m" arbitrary: st m rule: less_induct)
  case less
  then show ?case
    by (subst (1 2) block_iterate.simps) (simp add: sha1_Transform_fips [symmetric])
qed

lemma CSHA1_fold: "CSHA1_Finalize (fold CSHA1_Write ds CSHA1_new) = fips_sha1 (concat ds)"
  using sha1.Finalize_writes [of ds]
  by (simp add: CSHA1_Finalize_def CSHA1_Write_def CSHA1_new_def fips_sha1_def block_digest_def
      block_iterate_fips1 sha1_Initialize_def)

lemma length_fips_sha1: "length (fips_sha1 m) = 20"
  using sha1.length_digest [of m]
  by (simp add: fips_sha1_def block_digest_def block_iterate_fips1 sha1_Initialize_def)

end
