(* ===== verification/SC_Ripemd160.thy ===== *)
theory SC_Ripemd160
  imports SC_Hasher
begin

text \<open>
  RIPEMD-160 (\<^verbatim>\<open>crypto/ripemd160.cpp\<close>). The source interleaves two lines of eighty rounds over the
  registers \<open>a1\<close> to \<open>e1\<close> and \<open>a2\<close> to \<open>e2\<close>, rotating the registers as in SHA-1. The tables below list
  the message word and the shift of each round of each line in the order of the source. The reference
  is the published algorithm, where the registers move.
\<close>

definition ripemd160_f1 :: "u32 \<Rightarrow> u32 \<Rightarrow> u32 \<Rightarrow> u32" where
  "ripemd160_f1 x y z = x XOR y XOR z"

definition ripemd160_f2 :: "u32 \<Rightarrow> u32 \<Rightarrow> u32 \<Rightarrow> u32" where
  "ripemd160_f2 x y z = (x AND y) OR (NOT x AND z)"

definition ripemd160_f3 :: "u32 \<Rightarrow> u32 \<Rightarrow> u32 \<Rightarrow> u32" where
  "ripemd160_f3 x y z = (x OR NOT y) XOR z"

definition ripemd160_f4 :: "u32 \<Rightarrow> u32 \<Rightarrow> u32 \<Rightarrow> u32" where
  "ripemd160_f4 x y z = (x AND z) OR (y AND NOT z)"

definition ripemd160_f5 :: "u32 \<Rightarrow> u32 \<Rightarrow> u32 \<Rightarrow> u32" where
  "ripemd160_f5 x y z = x XOR (y OR NOT z)"

definition ripemd160_Initialize :: "u32 list" where
  "ripemd160_Initialize = [0x67452301, 0xEFCDAB89, 0x98BADCFE, 0x10325476, 0xC3D2E1F0]"

definition ripemd160_rol :: "u32 \<Rightarrow> nat \<Rightarrow> u32" where
  "ripemd160_rol x i = push_bit i x OR drop_bit (32 - i) x"

definition ripemd160_Round ::
  "u32 \<Rightarrow> u32 \<Rightarrow> u32 \<Rightarrow> u32 \<Rightarrow> u32 \<Rightarrow> u32 \<Rightarrow> u32 \<Rightarrow> u32 \<Rightarrow> nat \<Rightarrow> u32 \<times> u32" where
  "ripemd160_Round a b c d e f x k r = (ripemd160_rol (a + f + x + k) r + e, ripemd160_rol c 10)"

text \<open>The functions \<open>R11\<close> to \<open>R51\<close> of the first line and \<open>R12\<close> to \<open>R52\<close> of the second, by round.\<close>

definition ripemd160_fk1 :: "nat \<Rightarrow> (u32 \<Rightarrow> u32 \<Rightarrow> u32 \<Rightarrow> u32) \<times> u32" where
  "ripemd160_fk1 i =
    (if i < 16 then (ripemd160_f1, 0) else if i < 32 then (ripemd160_f2, 0x5A827999)
     else if i < 48 then (ripemd160_f3, 0x6ED9EBA1) else if i < 64 then (ripemd160_f4, 0x8F1BBCDC)
     else (ripemd160_f5, 0xA953FD4E))"

definition ripemd160_fk2 :: "nat \<Rightarrow> (u32 \<Rightarrow> u32 \<Rightarrow> u32 \<Rightarrow> u32) \<times> u32" where
  "ripemd160_fk2 i =
    (if i < 16 then (ripemd160_f5, 0x50A28BE6) else if i < 32 then (ripemd160_f4, 0x5C4DD124)
     else if i < 48 then (ripemd160_f3, 0x6D703EF3) else if i < 64 then (ripemd160_f2, 0x7A6D76E9)
     else (ripemd160_f1, 0))"

definition ripemd160_words1 :: "nat list" where
  "ripemd160_words1 =
    [0, 1, 2, 3, 4, 5, 6, 7, 8, 9, 10, 11, 12, 13, 14, 15,
     7, 4, 13, 1, 10, 6, 15, 3, 12, 0, 9, 5, 2, 14, 11, 8,
     3, 10, 14, 4, 9, 15, 8, 1, 2, 7, 0, 6, 13, 11, 5, 12,
     1, 9, 11, 10, 0, 8, 12, 4, 13, 3, 7, 15, 14, 5, 6, 2,
     4, 0, 5, 9, 7, 12, 2, 10, 14, 1, 3, 8, 11, 6, 15, 13]"

definition ripemd160_shifts1 :: "nat list" where
  "ripemd160_shifts1 =
    [11, 14, 15, 12, 5, 8, 7, 9, 11, 13, 14, 15, 6, 7, 9, 8,
     7, 6, 8, 13, 11, 9, 7, 15, 7, 12, 15, 9, 11, 7, 13, 12,
     11, 13, 6, 7, 14, 9, 13, 15, 14, 8, 13, 6, 5, 12, 7, 5,
     11, 12, 14, 15, 14, 15, 9, 8, 9, 14, 5, 6, 8, 6, 5, 12,
     9, 15, 5, 11, 6, 8, 13, 12, 5, 12, 13, 14, 11, 8, 5, 6]"

definition ripemd160_words2 :: "nat list" where
  "ripemd160_words2 =
    [5, 14, 7, 0, 9, 2, 11, 4, 13, 6, 15, 8, 1, 10, 3, 12,
     6, 11, 3, 7, 0, 13, 5, 10, 14, 15, 8, 12, 4, 9, 1, 2,
     15, 5, 1, 3, 7, 14, 6, 9, 11, 8, 12, 2, 10, 0, 4, 13,
     8, 6, 4, 1, 3, 11, 15, 0, 5, 12, 2, 13, 9, 7, 10, 14,
     12, 15, 10, 4, 1, 5, 8, 7, 6, 2, 13, 14, 0, 3, 9, 11]"

definition ripemd160_shifts2 :: "nat list" where
  "ripemd160_shifts2 =
    [8, 9, 9, 11, 13, 15, 15, 5, 7, 7, 8, 11, 14, 14, 12, 6,
     9, 13, 15, 7, 12, 8, 9, 11, 7, 7, 12, 7, 6, 15, 13, 11,
     9, 7, 15, 11, 8, 6, 6, 14, 12, 13, 5, 14, 13, 13, 7, 5,
     15, 5, 8, 11, 14, 14, 6, 14, 6, 9, 12, 9, 12, 5, 15, 8,
     8, 5, 12, 9, 12, 5, 14, 6, 8, 13, 6, 5, 15, 13, 11, 11]"

definition ripemd160_word :: "bytes \<Rightarrow> nat \<Rightarrow> u32" where
  "ripemd160_word chunk j = ReadLE32 (drop (4 * j) chunk)"

definition ripemd160_step ::
  "(u32 \<Rightarrow> u32 \<Rightarrow> u32 \<Rightarrow> u32) \<times> u32 \<Rightarrow> u32 \<Rightarrow> nat \<Rightarrow> nat \<Rightarrow> u32 list \<Rightarrow> u32 list" where
  "ripemd160_step fk w shift i v =
    (let x = (\<lambda>r. v ! reg5 i r);
         (a, c) = ripemd160_Round (x 0) (x 1) (x 2) (x 3) (x 4) (fst fk (x 1) (x 2) (x 3)) w (snd fk) shift in
     v[reg5 i 0 := a, reg5 i 2 := c])"

definition ripemd160_lines :: "bytes \<Rightarrow> nat \<Rightarrow> u32 list \<times> u32 list \<Rightarrow> u32 list \<times> u32 list" where
  "ripemd160_lines chunk i = (\<lambda>(v1, v2).
    (ripemd160_step (ripemd160_fk1 i) (ripemd160_word chunk (ripemd160_words1 ! i)) (ripemd160_shifts1 ! i) i v1,
     ripemd160_step (ripemd160_fk2 i) (ripemd160_word chunk (ripemd160_words2 ! i)) (ripemd160_shifts2 ! i) i v2))"

definition ripemd160_combine :: "u32 list \<Rightarrow> u32 list \<Rightarrow> u32 list \<Rightarrow> u32 list" where
  "ripemd160_combine s v1 v2 =
    [s ! 1 + v1 ! 2 + v2 ! 3, s ! 2 + v1 ! 3 + v2 ! 4, s ! 3 + v1 ! 4 + v2 ! 0, s ! 4 + v1 ! 0 + v2 ! 1,
     s ! 0 + v1 ! 1 + v2 ! 2]"

definition ripemd160_Transform :: "u32 list \<Rightarrow> bytes \<Rightarrow> u32 list" where
  "ripemd160_Transform s chunk =
    (let (v1, v2) = fold (ripemd160_lines chunk) [0..<80] (s, s) in
     ripemd160_combine s v1 v2)"

definition CRIPEMD160_new :: hasher where
  "CRIPEMD160_new = hasher_new ripemd160_Initialize"

definition CRIPEMD160_Write :: "bytes \<Rightarrow> hasher \<Rightarrow> hasher" where
  "CRIPEMD160_Write = hasher_Write ripemd160_Transform"

definition CRIPEMD160_Finalize :: "hasher \<Rightarrow> bytes" where
  "CRIPEMD160_Finalize = hasher_Finalize ripemd160_Transform WriteLE64 WriteLE32"

definition CRIPEMD160_Reset :: "hasher \<Rightarrow> hasher" where
  "CRIPEMD160_Reset h = h\<lparr>hs_bytes := 0, hs_s := ripemd160_Initialize\<rparr>"

subsection \<open>The published algorithm\<close>

fun rmd_round :: "(u32 \<Rightarrow> u32 \<Rightarrow> u32 \<Rightarrow> u32) \<times> u32 \<Rightarrow> u32 \<Rightarrow> nat \<Rightarrow> u32 list \<Rightarrow> u32 list" where
  "rmd_round fk w shift [a, b, c, d, e] =
    [e, ripemd160_rol (a + fst fk b c d + w + snd fk) shift + e, b, ripemd160_rol c 10, d]"
| "rmd_round fk w shift v = v"

definition rmd_compress :: "u32 list \<Rightarrow> bytes \<Rightarrow> u32 list" where
  "rmd_compress s chunk =
    (let line = (\<lambda>fk words shifts. fold (\<lambda>t. rmd_round (fk t) (ripemd160_word chunk (words ! t)) (shifts ! t)) [0..<80] s) in
     ripemd160_combine s (line ripemd160_fk1 ripemd160_words1 ripemd160_shifts1)
       (line ripemd160_fk2 ripemd160_words2 ripemd160_shifts2))"

definition rmd160 :: "bytes \<Rightarrow> bytes" where
  "rmd160 m = block_digest rmd_compress WriteLE64 WriteLE32 ripemd160_Initialize m"

lemma ripemd160_rotated_step:
  assumes "length v = 5"
  shows "rotated5 (Suc i) (ripemd160_step fk w n i v) = rmd_round fk w n (rotated5 i v)"
proof -
  obtain a b c d e where v: "v = [a, b, c, d, e]" using assms by (rule length5_cases)
  show ?thesis
    unfolding rotated5_Suc unfolding rotated5_def
    by (cases i rule: nat_mod5_cases)
      (simp_all add: v upt5 ripemd160_step_def reg5_mod ripemd160_Round_def Let_def)
qed

lemma length_ripemd160_step [simp]: "length (ripemd160_step fk w n i v) = length v"
  by (simp add: ripemd160_step_def Let_def split: prod.split)

lemma ripemd160_line:
  assumes "length v = 5"
  shows "length (fold (\<lambda>i. ripemd160_step (fk i) (w i) (n i) i) [0..<k] v) = 5 \<and>
    rotated5 k (fold (\<lambda>i. ripemd160_step (fk i) (w i) (n i) i) [0..<k] v) =
      fold (\<lambda>i. rmd_round (fk i) (w i) (n i)) [0..<k] v"
  by (induction k) (use assms in \<open>simp_all add: rotated5_full ripemd160_rotated_step\<close>)

lemma ripemd160_lines_fold:
  "fold (ripemd160_lines chunk) is (v1, v2) =
    (fold (\<lambda>i. ripemd160_step (ripemd160_fk1 i) (ripemd160_word chunk (ripemd160_words1 ! i)) (ripemd160_shifts1 ! i) i) is v1,
     fold (\<lambda>i. ripemd160_step (ripemd160_fk2 i) (ripemd160_word chunk (ripemd160_words2 ! i)) (ripemd160_shifts2 ! i) i) is v2)"
  by (induction "is" arbitrary: v1 v2) (simp_all add: ripemd160_lines_def)

lemma ripemd160_line80:
  assumes "length v = 5"
  shows "fold (\<lambda>i. ripemd160_step (fk i) (w i) (n i) i) [0..<80] v = fold (\<lambda>i. rmd_round (fk i) (w i) (n i)) [0..<80] v"
proof -
  let ?v = "fold (\<lambda>i. ripemd160_step (fk i) (w i) (n i) i) [0..<80] v"
  have "rotated5 80 ?v = ?v" using ripemd160_line [OF assms, of fk w n 80] by (intro rotated5_full) simp_all
  then show ?thesis using ripemd160_line [OF assms, of fk w n 80] by simp
qed

lemma ripemd160_Transform_rmd:
  assumes "length st = 5"
  shows "ripemd160_Transform st chunk = rmd_compress st chunk"
  using assms by (simp only: ripemd160_Transform_def rmd_compress_def ripemd160_lines_fold Let_def
      ripemd160_line80 prod.case)

lemma length_ripemd160_Transform [simp]: "length (ripemd160_Transform st chunk) = 5"
  by (simp only: ripemd160_Transform_def ripemd160_lines_fold Let_def prod.case) (simp add: ripemd160_combine_def)

interpretation ripemd160: block_hash ripemd160_Transform ripemd160_Initialize WriteLE64 WriteLE32
  by unfold_locales (simp_all add: ripemd160_Initialize_def)

lemma block_iterate_rmd:
  "length st = 5 \<Longrightarrow> block_iterate ripemd160_Transform st m = block_iterate rmd_compress st m"
proof (induction "length m" arbitrary: st m rule: less_induct)
  case less
  then show ?case
    by (subst (1 2) block_iterate.simps) (simp add: ripemd160_Transform_rmd [symmetric])
qed

lemma CRIPEMD160_fold:
  "CRIPEMD160_Finalize (fold CRIPEMD160_Write ds CRIPEMD160_new) = rmd160 (concat ds)"
  using ripemd160.Finalize_writes [of ds]
  by (simp add: CRIPEMD160_Finalize_def CRIPEMD160_Write_def CRIPEMD160_new_def rmd160_def
      block_digest_def block_iterate_rmd ripemd160_Initialize_def)

lemma length_rmd160: "length (rmd160 m) = 20"
  using ripemd160.length_digest [of m]
  by (simp add: rmd160_def block_digest_def block_iterate_rmd ripemd160_Initialize_def)

end
