(* ===== verification/SC_Hash.thy ===== *)
theory SC_Hash
  imports SC_Serialize SC_Sha256 SC_Sha1 SC_Ripemd160
begin

text \<open>
  The hash functions the rest of the code calls (\<^verbatim>\<open>hash.h\<close>, \<^verbatim>\<open>hash.cpp\<close>): the hasher classes
  \<open>CHash256\<close> and \<open>CHash160\<close>, the functions \<open>Hash\<close> and \<open>Hash160\<close>, and the hashing stream \<open>CHashWriter\<close>.
  The other theories use only the equations and lengths proved here.
\<close>

subsection \<open>Double SHA-256 and SHA-256 followed by RIPEMD-160\<close>

definition CHash256_Write :: "bytes \<Rightarrow> hasher \<Rightarrow> hasher" where
  "CHash256_Write data sha = CSHA256_Write data sha"

definition CHash256_Finalize :: "hasher \<Rightarrow> uint256" where
  "CHash256_Finalize sha =
    (let buf = CSHA256_Finalize sha in CSHA256_Finalize (CSHA256_Write buf (CSHA256_Reset sha)))"

definition CHash256_Reset :: "hasher \<Rightarrow> hasher" where
  "CHash256_Reset h = CSHA256_Reset h"

definition CHash160_Write :: "bytes \<Rightarrow> hasher \<Rightarrow> hasher" where
  "CHash160_Write data h = CSHA256_Write data h"

definition CHash160_Reset :: "hasher \<Rightarrow> hasher" where
  "CHash160_Reset h = CSHA256_Reset h"

definition CHash160_Finalize :: "hasher \<Rightarrow> uint160" where
  "CHash160_Finalize sha =
    (let buf = CSHA256_Finalize sha in CRIPEMD160_Finalize (CRIPEMD160_Write buf CRIPEMD160_new))"

definition Hash :: "bytes \<Rightarrow> uint256" where
  "Hash p = CHash256_Finalize (CHash256_Write p CSHA256_new)"

definition Hash2 :: "bytes \<Rightarrow> bytes \<Rightarrow> uint256" where
  "Hash2 p1 p2 = CHash256_Finalize (CHash256_Write p2 (CHash256_Write p1 CSHA256_new))"

definition Hash160 :: "bytes \<Rightarrow> uint160" where
  "Hash160 p = CHash160_Finalize (CHash160_Write p CSHA256_new)"

text \<open>The stream: every \<open>write\<close> call of a serialization is one call of \<open>CHash256::Write\<close>.\<close>

definition CHashWriter_write :: "bytes \<Rightarrow> hasher \<Rightarrow> hasher" where
  "CHashWriter_write pch ctx = CHash256_Write pch ctx"

definition CHashWriter_GetHash :: "hasher \<Rightarrow> uint256" where
  "CHashWriter_GetHash ctx = CHash256_Finalize ctx"

definition SerializeHash :: "bytes list \<Rightarrow> uint256" where
  "SerializeHash writes = CHashWriter_GetHash (fold CHashWriter_write writes CSHA256_new)"

definition sha256 :: "bytes \<Rightarrow> bytes" where
  "sha256 m = CSHA256_Finalize (CSHA256_Write m CSHA256_new)"

definition sha1 :: "bytes \<Rightarrow> bytes" where
  "sha1 m = CSHA1_Finalize (CSHA1_Write m CSHA1_new)"

definition ripemd160 :: "bytes \<Rightarrow> bytes" where
  "ripemd160 m = CRIPEMD160_Finalize (CRIPEMD160_Write m CRIPEMD160_new)"

lemma sha256_fips: "sha256 m = fips_sha256 m"
  using CSHA256_fold [of "[m]"] by (simp add: sha256_def)

lemma sha1_fips: "sha1 m = fips_sha1 m"
  using CSHA1_fold [of "[m]"] by (simp add: sha1_def)

lemma ripemd160_rmd: "ripemd160 m = rmd160 m"
  using CRIPEMD160_fold [of "[m]"] by (simp add: ripemd160_def)

lemma hash_lengths [simp]:
  "length (sha256 m) = 32" "length (sha1 m) = 20" "length (ripemd160 m) = 20"
  by (simp_all add: sha256_fips sha1_fips ripemd160_rmd length_fips_sha256 length_fips_sha1 length_rmd160)

text \<open>A reset hasher holds the empty message, whatever the buffer still contains.\<close>

lemma holds_Reset:
  "holds tr init m h \<Longrightarrow> holds tr sha256_Initialize [] (CSHA256_Reset h)"
  by (simp add: holds_def CSHA256_Reset_def block_iterate_short)

lemma CHash256_fold:
  "CHash256_Finalize (fold CHash256_Write ds CSHA256_new) = sha256 (sha256 (concat ds))"
proof -
  let ?h = "fold CSHA256_Write ds CSHA256_new"
  have "holds sha256_Transform1 sha256_Initialize (concat ds) ?h"
    using fold_hasher_Write_holds [OF holds_new, of sha256_Transform1 sha256_Initialize ds]
    by (simp add: CSHA256_Write_eq CSHA256_new_def)
  then have reset: "holds sha256_Transform1 sha256_Initialize [] (CSHA256_Reset ?h)" by (rule holds_Reset)
  have fin: "CSHA256_Finalize ?h = sha256 (concat ds)" by (simp add: CSHA256_fold sha256_fips)
  have "CSHA256_Finalize (CSHA256_Write x (CSHA256_Reset ?h)) = sha256 x" for x
    using sha256.Finalize_holds [OF hasher_Write_holds [OF reset, of x]]
      sha256.Finalize_holds [OF hasher_Write_holds [OF holds_new, of sha256_Transform1 sha256_Initialize x]]
    by (simp add: sha256_def CSHA256_Finalize_eq CSHA256_Write_eq CSHA256_new_def)
  moreover have "CHash256_Write = CSHA256_Write" by (simp add: fun_eq_iff CHash256_Write_def)
  ultimately show ?thesis by (simp add: CHash256_Finalize_def fin)
qed

lemma Hash_eq: "Hash p = sha256 (sha256 p)"
  using CHash256_fold [of "[p]"] by (simp add: Hash_def)

lemma Hash2_eq: "Hash2 p q = Hash (p @ q)"
  using CHash256_fold [of "[p, q]"] by (simp add: Hash2_def Hash_eq)

lemma Hash160_eq: "Hash160 p = ripemd160 (sha256 p)"
  by (simp add: Hash160_def CHash160_Finalize_def CHash160_Write_def sha256_def ripemd160_def)

lemma SerializeHash_eq: "SerializeHash ws = Hash (concat ws)"
proof -
  have "CHashWriter_write = CHash256_Write" by (simp add: fun_eq_iff CHashWriter_write_def)
  then show ?thesis
    using CHash256_fold [of ws] by (simp add: SerializeHash_def CHashWriter_GetHash_def Hash_eq)
qed

lemma length_Hash [simp]: "length (Hash p) = 32" "length (Hash2 p q) = 32" "length (Hash160 p) = 20"
  by (simp_all add: Hash_eq Hash2_eq Hash160_eq)

subsection \<open>The streaming hashers compute the published functions\<close>

text \<open>
  C25: writing a message to a \<open>CSHA256\<close> in any number of pieces of any sizes and finalizing gives the
  SHA-256 digest of the whole message as FIPS 180-4 defines it, although the source unrolls and rotates
  the rounds, overwrites the message schedule and buffers partial blocks; the result has 32 bytes.
\<close>

theorem CSHA256_correct:
  "CSHA256_Finalize (fold CSHA256_Write ds CSHA256_new) = fips_sha256 (concat ds) \<and>
   length (fips_sha256 (concat ds)) = 32"
  using CSHA256_fold length_fips_sha256 by blast

text \<open>
  Likewise a \<open>CSHA1\<close> computes SHA-1 and a \<open>CRIPEMD160\<close> computes RIPEMD-160 of the concatenated
  writes.
\<close>

theorem CSHA1_CRIPEMD160_correct:
  "CSHA1_Finalize (fold CSHA1_Write ds CSHA1_new) = fips_sha1 (concat ds) \<and>
   CRIPEMD160_Finalize (fold CRIPEMD160_Write ds CRIPEMD160_new) = rmd160 (concat ds)"
  using CSHA1_fold CRIPEMD160_fold by blast

text \<open>
  \<open>CHash256\<close> is SHA-256 applied twice to the concatenated writes, whatever is left in the buffer when
  it resets the inner hasher; so hashing two ranges is hashing their concatenation, and the hash of a
  serialized object does not depend on how its serialization splits the writes.
\<close>

theorem CHash256_correct:
  "CHash256_Finalize (fold CHash256_Write ds CSHA256_new) = fips_sha256 (fips_sha256 (concat ds)) \<and>
   Hash2 p q = Hash (p @ q) \<and> SerializeHash ds = Hash (concat ds)"
  using CHash256_fold [of ds] Hash2_eq SerializeHash_eq by (simp add: sha256_fips)

end
