(* ===== verification/SC_SipHash.thy ===== *)
theory SC_SipHash
  imports SC_Hash
begin

text \<open>
  SipHash-2-4 (\<^verbatim>\<open>hash.cpp\<close>): the incremental hasher \<open>CSipHasher\<close> and the two routines specialised for
  256-bit values. The field \<open>count\<close> is a natural number; its C++ type \<open>int\<close> only matters after 2 GiB of
  input to one hasher.
\<close>

type_synonym sip_v = "u64 \<times> u64 \<times> u64 \<times> u64"

record CSipHasher =
  sip_v :: sip_v
  sip_tmp :: u64
  sip_count :: nat

definition ROTL :: "u64 \<Rightarrow> nat \<Rightarrow> u64" where
  "ROTL x b = push_bit b x OR drop_bit (64 - b) x"

definition SIPROUND :: "sip_v \<Rightarrow> sip_v" where
  "SIPROUND = (\<lambda>(v0, v1, v2, v3).
    let v0 = v0 + v1; v1 = ROTL v1 13; v1 = v1 XOR v0;
        v0 = ROTL v0 32;
        v2 = v2 + v3; v3 = ROTL v3 16; v3 = v3 XOR v2;
        v0 = v0 + v3; v3 = ROTL v3 21; v3 = v3 XOR v0;
        v2 = v2 + v1; v1 = ROTL v1 17; v1 = v1 XOR v2;
        v2 = ROTL v2 32 in
    (v0, v1, v2, v3))"

definition sip_xor0 :: "u64 \<Rightarrow> sip_v \<Rightarrow> sip_v" where
  "sip_xor0 d = (\<lambda>(v0, v1, v2, v3). (v0 XOR d, v1, v2, v3))"

definition sip_xor2 :: "u64 \<Rightarrow> sip_v \<Rightarrow> sip_v" where
  "sip_xor2 d = (\<lambda>(v0, v1, v2, v3). (v0, v1, v2 XOR d, v3))"

definition sip_xor3 :: "u64 \<Rightarrow> sip_v \<Rightarrow> sip_v" where
  "sip_xor3 d = (\<lambda>(v0, v1, v2, v3). (v0, v1, v2, v3 XOR d))"

definition sip_result :: "sip_v \<Rightarrow> u64" where
  "sip_result = (\<lambda>(v0, v1, v2, v3). v0 XOR v1 XOR v2 XOR v3)"

definition CSipHasher_new :: "u64 \<Rightarrow> u64 \<Rightarrow> CSipHasher" where
  "CSipHasher_new k0 k1 =
    \<lparr>sip_v = (0x736f6d6570736575 XOR k0, 0x646f72616e646f6d XOR k1,
              0x6c7967656e657261 XOR k0, 0x7465646279746573 XOR k1),
     sip_tmp = 0, sip_count = 0\<rparr>"

text \<open>\<open>Write(uint64_t)\<close> asserts that whole words have been written so far.\<close>

definition CSipHasher_Write64 :: "u64 \<Rightarrow> CSipHasher \<Rightarrow> CSipHasher option" where
  "CSipHasher_Write64 data h =
    (if sip_count h mod 8 \<noteq> 0 then None
     else Some (h\<lparr>sip_v := sip_xor0 data (SIPROUND (SIPROUND (sip_xor3 data (sip_v h)))),
                  sip_count := sip_count h + 8\<rparr>))"

fun CSipHasher_Write :: "bytes \<Rightarrow> CSipHasher \<Rightarrow> CSipHasher" where
  "CSipHasher_Write [] h = h"
| "CSipHasher_Write (b # data) h =
    (let t = sip_tmp h OR push_bit (8 * (sip_count h mod 8)) (ucast b);
         c = sip_count h + 1 in
     CSipHasher_Write data
       (if c mod 8 = 0
        then h\<lparr>sip_v := sip_xor0 t (SIPROUND (SIPROUND (sip_xor3 t (sip_v h)))), sip_tmp := 0, sip_count := c\<rparr>
        else h\<lparr>sip_tmp := t, sip_count := c\<rparr>))"

definition CSipHasher_Finalize :: "CSipHasher \<Rightarrow> u64" where
  "CSipHasher_Finalize h =
    (let t = sip_tmp h OR push_bit 56 (of_nat (sip_count h));
         v = sip_xor0 t (SIPROUND (SIPROUND (sip_xor3 t (sip_v h))));
         v = sip_xor2 0xFF v in
     sip_result (SIPROUND (SIPROUND (SIPROUND (SIPROUND v)))))"

definition GetUint64 :: "uint256 \<Rightarrow> nat \<Rightarrow> u64" where
  "GetUint64 val pos = ReadLE64 (drop (pos * 8) val)"

definition SipHashUint256 :: "u64 \<Rightarrow> u64 \<Rightarrow> uint256 \<Rightarrow> u64" where
  "SipHashUint256 k0 k1 val =
    (let d = GetUint64 val 0;
         v = (0x736f6d6570736575 XOR k0, 0x646f72616e646f6d XOR k1,
              0x6c7967656e657261 XOR k0, 0x7465646279746573 XOR k1 XOR d);
         v = sip_xor0 d (SIPROUND (SIPROUND v));
         d = GetUint64 val 1;
         v = sip_xor0 d (SIPROUND (SIPROUND (sip_xor3 d v)));
         d = GetUint64 val 2;
         v = sip_xor0 d (SIPROUND (SIPROUND (sip_xor3 d v)));
         d = GetUint64 val 3;
         v = sip_xor0 d (SIPROUND (SIPROUND (sip_xor3 d v)));
         v = sip_xor0 (push_bit 59 4) (SIPROUND (SIPROUND (sip_xor3 (push_bit 59 4) v)));
         v = sip_xor2 0xFF v in
     sip_result (SIPROUND (SIPROUND (SIPROUND (SIPROUND v)))))"

definition SipHashUint256Extra :: "u64 \<Rightarrow> u64 \<Rightarrow> uint256 \<Rightarrow> u32 \<Rightarrow> u64" where
  "SipHashUint256Extra k0 k1 val extra =
    (let d = GetUint64 val 0;
         v = (0x736f6d6570736575 XOR k0, 0x646f72616e646f6d XOR k1,
              0x6c7967656e657261 XOR k0, 0x7465646279746573 XOR k1 XOR d);
         v = sip_xor0 d (SIPROUND (SIPROUND v));
         d = GetUint64 val 1;
         v = sip_xor0 d (SIPROUND (SIPROUND (sip_xor3 d v)));
         d = GetUint64 val 2;
         v = sip_xor0 d (SIPROUND (SIPROUND (sip_xor3 d v)));
         d = GetUint64 val 3;
         v = sip_xor0 d (SIPROUND (SIPROUND (sip_xor3 d v)));
         d = push_bit 56 36 OR ucast extra;
         v = sip_xor0 d (SIPROUND (SIPROUND (sip_xor3 d v)));
         v = sip_xor2 0xFF v in
     sip_result (SIPROUND (SIPROUND (SIPROUND (SIPROUND v)))))"

subsection \<open>Writing bytes and writing words\<close>

lemma CSipHasher_Write_append:
  "CSipHasher_Write (a @ b) h = CSipHasher_Write b (CSipHasher_Write a h)"
  by (induction a h rule: CSipHasher_Write.induct) (simp_all add: Let_def)

text \<open>Bytes written into an aligned hasher accumulate in \<open>tmp\<close> as a little-endian number.\<close>

lemma of_nat_le_nat_Cons:
  "(of_nat (le_nat (b # bs)) :: u64) = ucast b OR push_bit 8 (of_nat (le_nat bs))"
proof -
  have "unat (ucast b :: u64) < 2 ^ 8" by simp
  then have "push_bit 8 (of_nat (le_nat bs)) OR ucast b = push_bit 8 (of_nat (le_nat bs)) + (ucast b :: u64)"
    by (rule or_add_word)
  then show ?thesis by (simp add: push_bit_eq_mult or.commute ac_simps)
qed

lemma CSipHasher_Write_partial:
  assumes "sip_count h mod 8 + length bs < 8"
  shows "CSipHasher_Write bs h =
    h\<lparr>sip_tmp := sip_tmp h OR push_bit (8 * (sip_count h mod 8)) (of_nat (le_nat bs)),
      sip_count := sip_count h + length bs\<rparr>"
  using assms
proof (induction bs arbitrary: h)
  case (Cons b bs)
  let ?c = "sip_count h"
  have c: "Suc ?c mod 8 = Suc (?c mod 8)" using Cons.prems by (simp add: mod_Suc)
  then have "CSipHasher_Write (b # bs) h =
      CSipHasher_Write bs (h\<lparr>sip_tmp := sip_tmp h OR push_bit (8 * (?c mod 8)) (ucast b), sip_count := Suc ?c\<rparr>)"
    by (simp add: Let_def)
  also have "\<dots> = h\<lparr>sip_tmp := sip_tmp h OR push_bit (8 * (?c mod 8)) (ucast b) OR
      push_bit (8 * Suc (?c mod 8)) (of_nat (le_nat bs)), sip_count := Suc ?c + length bs\<rparr>"
    using Cons.prems c by (subst Cons.IH) (simp_all add: or.assoc)
  finally show ?case
    by (simp add: of_nat_le_nat_Cons push_bit_or or.assoc push_bit_push_bit add.commute del: le_nat.simps)
qed (simp add: push_bit_of_0)

lemma of_nat_le_nat_snoc:
  "(of_nat (le_nat (xs @ [b])) :: u64) = of_nat (le_nat xs) OR push_bit (8 * length xs) (ucast b)"
proof (induction xs)
  case (Cons x xs)
  then show ?case
    by (simp add: of_nat_le_nat_Cons push_bit_or or.assoc push_bit_push_bit add.commute del: le_nat.simps)
qed (simp add: of_nat_le_nat_Cons push_bit_of_0 del: le_nat.simps, simp add: push_bit_of_0)

lemma CSipHasher_Write_word:
  assumes "sip_count h mod 8 = 0" and "sip_tmp h = 0" and "length bs = 8"
  shows "CSipHasher_Write64 (ReadLE64 bs) h = Some (CSipHasher_Write bs h)"
proof -
  have bs: "bs = take 7 bs @ [bs ! 7]"
    using assms(3) take_Suc_conv_app_nth [of 7 bs] by simp
  let ?h = "h\<lparr>sip_tmp := of_nat (le_nat (take 7 bs)), sip_count := sip_count h + 7\<rparr>"
  have part: "CSipHasher_Write (take 7 bs) h = ?h"
    using CSipHasher_Write_partial [of h "take 7 bs"] assms by simp
  have c: "(sip_count h + 7) mod 8 = 7" "Suc (sip_count h + 7) mod 8 = 0"
    using assms(1) by presburger+
  have t: "of_nat (le_nat (take 7 bs)) OR push_bit 56 (ucast (bs ! 7)) = ReadLE64 bs"
    using of_nat_le_nat_snoc [of "take 7 bs" "bs ! 7"] bs assms(3) by (simp add: ReadLE64_def)
  have "CSipHasher_Write bs h = CSipHasher_Write [bs ! 7] ?h"
    by (subst bs) (simp only: CSipHasher_Write_append part)
  also have "\<dots> = h\<lparr>sip_v := sip_xor0 (ReadLE64 bs) (SIPROUND (SIPROUND (sip_xor3 (ReadLE64 bs) (sip_v h)))),
      sip_tmp := 0, sip_count := sip_count h + 8\<rparr>"
    using c t by (simp add: Let_def)
  finally show ?thesis using assms(1,2) by (simp add: CSipHasher_Write64_def)
qed

text \<open>The state after whole words, starting from a fresh hasher.\<close>

lemma CSipHasher_Write_words:
  assumes "sip_count h mod 8 = 0" and "sip_tmp h = 0" and "length bs = 8"
  shows "CSipHasher_Write (bs @ r) h = CSipHasher_Write r
    (h\<lparr>sip_v := sip_xor0 (ReadLE64 bs) (SIPROUND (SIPROUND (sip_xor3 (ReadLE64 bs) (sip_v h)))),
       sip_count := sip_count h + 8\<rparr>)"
  using CSipHasher_Write_word [OF assms] assms(1,2)
  by (simp add: CSipHasher_Write_append CSipHasher_Write64_def split: if_splits)

lemma sip_words_of_uint256:
  assumes "length val = 32"
  shows "val = take 8 val @ take 8 (drop 8 val) @ take 8 (drop 16 val) @ take 8 (drop 24 val)"
proof -
  have "take 8 (drop 24 val) = drop 24 val" using assms by simp
  moreover have "take 8 (drop k val) @ drop (k + 8) val = drop k val" for k
    by (metis add.commute append_take_drop_id drop_drop)
  from this [of 0] this [of 8] this [of 16]
  have "take 8 val @ drop 8 val = val" "take 8 (drop 8 val) @ drop 16 val = drop 8 val"
    "take 8 (drop 16 val) @ drop 24 val = drop 16 val" by simp_all
  ultimately show ?thesis by simp
qed

lemma ReadLE64_take: "ReadLE64 (take 8 p) = ReadLE64 p"
  by (simp add: ReadLE64_def)

lemma CSipHasher_Write_uint256:
  assumes "length val = 32"
  shows "CSipHasher_Write (val @ r) (CSipHasher_new k0 k1) = CSipHasher_Write r
    \<lparr>sip_v = fold (\<lambda>i v. sip_xor0 (GetUint64 val i) (SIPROUND (SIPROUND (sip_xor3 (GetUint64 val i) v))))
        [0, 1, 2, 3] (sip_v (CSipHasher_new k0 k1)),
     sip_tmp = 0, sip_count = 32\<rparr>"
  using assms
  by (subst sip_words_of_uint256 [OF assms])
    (simp add: CSipHasher_Write_words CSipHasher_new_def ReadLE64_take GetUint64_def)

lemma sip_v_new:
  "sip_v (CSipHasher_new k0 k1) = (0x736f6d6570736575 XOR k0, 0x646f72616e646f6d XOR k1,
     0x6c7967656e657261 XOR k0, 0x7465646279746573 XOR k1)"
  by (simp add: CSipHasher_new_def)

lemma sip_xor3_key:
  "(a, b, c, 0x7465646279746573 XOR k XOR d) = sip_xor3 d (a, b, c, 0x7465646279746573 XOR k)"
  by (simp add: sip_xor3_def xor.assoc)

text \<open>
  The two routines specialised for 256-bit values compute the SipHash of the 32 bytes of the value
  (\<open>SipHashUint256\<close>), and of these bytes followed by the four bytes of \<open>extra\<close> (\<open>SipHashUint256Extra\<close>),
  as the incremental hasher does.
\<close>

theorem SipHashUint256_eq:
  assumes "length val = 32"
  shows "SipHashUint256 k0 k1 val = CSipHasher_Finalize (CSipHasher_Write val (CSipHasher_new k0 k1)) \<and>
    SipHashUint256Extra k0 k1 val extra =
      CSipHasher_Finalize (CSipHasher_Write (val @ WriteLE32 extra) (CSipHasher_new k0 k1))"
proof
  show "SipHashUint256 k0 k1 val = CSipHasher_Finalize (CSipHasher_Write val (CSipHasher_new k0 k1))"
    using CSipHasher_Write_uint256 [OF assms, of "[]" k0 k1]
    by (simp add: SipHashUint256_def CSipHasher_Finalize_def Let_def sip_xor3_key sip_v_new
        push_bit_eq_mult)
  have "of_nat (le_nat (WriteLE32 extra)) = (ucast extra :: u64)"
    by (simp add: WriteLE32_def word_unat_eq_iff unat_of_nat)
  then show "SipHashUint256Extra k0 k1 val extra =
      CSipHasher_Finalize (CSipHasher_Write (val @ WriteLE32 extra) (CSipHasher_new k0 k1))"
    by (simp add: SipHashUint256Extra_def CSipHasher_Finalize_def Let_def sip_xor3_key sip_v_new
        CSipHasher_Write_uint256 [OF assms] CSipHasher_Write_partial or.commute push_bit_eq_mult)
qed

theorem SipHashUint256_eq_witness:
  "length (replicate 32 0 :: uint256) = 32 \<and>
   SipHashUint256 1 2 (replicate 32 0) = CSipHasher_Finalize (CSipHasher_Write (replicate 32 0) (CSipHasher_new 1 2)) \<and>
   SipHashUint256Extra 1 2 (replicate 32 0) 7 =
      CSipHasher_Finalize (CSipHasher_Write (replicate 32 0 @ WriteLE32 7) (CSipHasher_new 1 2))"
  using SipHashUint256_eq [of "replicate 32 0" 1 2 7] by simp

end
