(* ===== verification/SC_ScriptNum.thy ===== *)
theory SC_ScriptNum
  imports SC_Prelude
begin

text \<open>
  Script numbers (\<open>CScriptNum\<close> of \<^verbatim>\<open>script/script.h\<close>): little-endian byte vectors with a sign bit in the
  last byte. The value \<open>m_value\<close> is a HOL integer in the range of \<open>int64_t\<close>. The theory shows that the
  encoder and the decoder are inverse to each other and that, with minimal encodings required, the
  decoder accepts nothing but the encoder's output.
\<close>

datatype scriptnum_error = ScriptNumOverflow | ScriptNumNotMinimal

definition nDefaultMaxNumSize :: nat where
  [consts_defs]: "nDefaultMaxNumSize = 4"

fun set_vch_loop :: "nat \<Rightarrow> bytes \<Rightarrow> int \<Rightarrow> int" where
  "set_vch_loop i [] result = result"
| "set_vch_loop i (b # vch) result = set_vch_loop (i + 1) vch (result OR s64 (push_bit (8 * i) (uint b)))"

definition set_vch :: "bytes \<Rightarrow> int" where
  "set_vch vch =
    (if vch = [] then 0
     else let result = set_vch_loop 0 vch 0 in
       if last vch AND 0x80 \<noteq> 0
       then - (result AND NOT (push_bit (8 * (length vch - 1)) 0x80))
       else result)"

definition CScriptNum :: "bytes \<Rightarrow> bool \<Rightarrow> nat \<Rightarrow> scriptnum_error + int" where
  "CScriptNum vch fRequireMinimal nMaxNumSize =
    (if length vch > nMaxNumSize then Inl ScriptNumOverflow
     else if fRequireMinimal \<and> length vch > 0 \<and> last vch AND 0x7f = 0 \<and>
         (length vch \<le> 1 \<or> vch ! (length vch - 2) AND 0x80 = 0)
     then Inl ScriptNumNotMinimal
     else Inr (set_vch vch))"

definition getint :: "int \<Rightarrow> int" where
  "getint m_value =
    (if m_value > 2147483647 then 2147483647
     else if m_value < - 2147483648 then - 2147483648
     else m_value)"

function serialize_abs :: "nat \<Rightarrow> bytes" where
  "serialize_abs absvalue =
    (if absvalue = 0 then [] else of_nat (absvalue mod 256) # serialize_abs (absvalue div 256))"
  by pat_completeness auto
termination by (relation "measure id") auto

definition serialize :: "int \<Rightarrow> bytes" where
  "serialize value =
    (if value = 0 then []
     else let neg = (value < 0);
              result = serialize_abs (nat \<bar>value\<bar>) in
       if last result AND 0x80 \<noteq> 0 then result @ [if neg then 0x80 else 0]
       else if neg then butlast result @ [last result OR 0x80]
       else result)"

definition getvch :: "int \<Rightarrow> bytes" where
  "getvch m_value = serialize m_value"

declare serialize_abs.simps [simp del]

subsection \<open>The decoder as arithmetic\<close>

text \<open>The magnitude of a byte vector: its little-endian value without the sign bit.\<close>

definition magnitude :: "bytes \<Rightarrow> nat" where
  "magnitude vch = le_nat (butlast vch) + 256 ^ (length vch - 1) * (unat (last vch) mod 128)"

lemma uint_byte_less: "uint (b :: byte) < 256"
  by (rule order_less_le_trans [OF unsigned_less]) simp

lemma push_bit_bytes: "push_bit (8 * i) (x :: int) = 256 ^ i * x"
  by (simp add: push_bit_eq_mult power_mult)

lemma set_vch_loop_eq:
  "i + length vch \<le> 7 \<Longrightarrow> 0 \<le> r \<Longrightarrow> r < 256 ^ i \<Longrightarrow>
    set_vch_loop i vch r = r + 256 ^ i * int (le_nat vch)"
proof (induction vch arbitrary: i r)
  case (Cons b vch)
  have "uint b < 256" by (rule uint_byte_less)
  then have "256 ^ i * uint b < 256 ^ i * (256 :: int)" by (rule mult_strict_left_mono) simp
  also have "256 ^ i * (256 :: int) = 256 ^ (i + 1)" by simp
  also have "(256 :: int) ^ (i + 1) \<le> 256 ^ 7" by (rule power_increasing) (use Cons.prems in simp_all)
  finally have "256 ^ i * uint b < (72057594037927936 :: int)" by simp
  moreover have "(0 :: int) \<le> 256 ^ i * uint b" by simp
  ultimately have "in_s64 (256 ^ i * uint b)" unfolding in_s64_def by (intro conjI) linarith+
  then have s: "s64 (push_bit (8 * i) (uint b)) = 256 ^ i * uint b" by (simp add: push_bit_bytes)
  have "r OR 256 ^ i * uint b = r + 256 ^ i * uint b"
    using or_add_int [of r "8 * i" "uint b"] Cons.prems
    by (simp add: push_bit_bytes power_mult or.commute [of r] mult.commute [of "256 ^ i"])
  moreover have "r + 256 ^ i * uint b < 256 ^ (i + 1)"
  proof -
    have "256 ^ i * uint b \<le> 256 ^ i * (255 :: int)"
      using \<open>uint b < 256\<close> by (intro mult_left_mono) simp_all
    moreover have "(256 :: int) ^ (i + 1) = 256 ^ i * 255 + 256 ^ i" by simp
    ultimately show ?thesis using Cons.prems(3) by linarith
  qed
  ultimately show ?case
    using Cons.IH [of "i + 1" "r + 256 ^ i * uint b"] Cons.prems s
    by (simp add: algebra_simps)
qed simp

lemma or_7F_80: "push_bit 7 (x :: nat) OR y = x * 128 + y" if "y < 128"
  using or_add_nat [of y 7 x] that by simp

text \<open>Clearing the sign bit of the last byte.\<close>

lemma clear_sign:
  fixes a b :: nat
  assumes "a < 256 ^ k" and "b < 128"
  shows "int (a + 256 ^ k * (128 + b)) AND NOT (push_bit (8 * k) 0x80) = int (a + 256 ^ k * b)"
proof -
  let ?x = "int (a + 256 ^ k * b)"
  have pw: "(2 :: int) ^ (8 * k + 7) = 256 ^ k * 128" by (simp add: power_add power_mult)
  have p: "push_bit (8 * k) (0x80 :: int) = push_bit (8 * k + 7) 1"
    by (simp add: push_bit_eq_mult power_add)
  have "a + 256 ^ k * b < 256 ^ k * (b + 1)" using assms(1) by simp
  also have "256 ^ k * (b + 1) \<le> 256 ^ k * (128 :: nat)" using assms(2) by (intro mult_le_mono2) simp
  also have "256 ^ k * (128 :: nat) = 2 ^ (8 * k + 7)" by (simp add: power_add power_mult)
  finally have x: "?x < 2 ^ (8 * k + 7)" by (metis of_nat_less_iff of_nat_numeral of_nat_power)
  then have "int (a + 256 ^ k * (128 + b)) = push_bit (8 * k + 7) 1 OR ?x"
    by (subst or_add_int) (simp_all add: pw distrib_left)
  moreover have "take_bit (8 * k + 7) ?x = ?x" using x by (simp add: take_bit_int_eq_self)
  then have "\<not> bit ?x n" if "n \<ge> 8 * k + 7" for n using that by (metis bit_take_bit_iff not_le)
  ultimately show ?thesis
    unfolding p by (intro bit_eqI) (auto simp: bit_simps)
qed

lemma byte_sign:
  "(b :: byte) AND 0x80 \<noteq> 0 \<Longrightarrow> unat b = 128 + unat b mod 128"
  "(b :: byte) AND 0x80 = 0 \<Longrightarrow> unat b = unat b mod 128"
proof -
  assume "b AND 0x80 \<noteq> 0"
  then have "128 \<le> unat b" by (simp add: byte_and_80)
  moreover have "128 \<le> n \<Longrightarrow> n < 256 \<Longrightarrow> n = 128 + n mod 128" for n :: nat
    using le_mod_geq [of 128 n] by simp
  ultimately show "unat b = 128 + unat b mod 128" using unat_byte_less [of b] by blast
next
  assume "b AND 0x80 = 0"
  then show "unat b = unat b mod 128" by (simp add: byte_and_80)
qed

lemma set_vch_eq:
  assumes "vch \<noteq> []" and "length vch \<le> 7"
  shows "set_vch vch = (if last vch AND 0x80 \<noteq> 0 then - int (magnitude vch) else int (magnitude vch))"
proof -
  let ?k = "length vch - 1" and ?b = "last vch" and ?a = "le_nat (butlast vch)"
  have vch: "vch = butlast vch @ [?b]" using assms(1) by simp
  have "set_vch_loop 0 vch 0 = int (le_nat vch)" using set_vch_loop_eq [of 0 vch 0] assms(2) by simp
  moreover have "le_nat vch = ?a + 256 ^ ?k * unat ?b"
    by (subst vch, subst le_nat_append) simp
  ultimately have loop: "set_vch_loop 0 vch 0 = int (?a + 256 ^ ?k * unat ?b)" by simp
  have a: "?a < 256 ^ ?k" using le_nat_less [of "butlast vch"] by simp
  show ?thesis
  proof (cases "?b AND 0x80 = 0")
    case True
    then show ?thesis using assms(1) loop byte_sign(2) [of ?b] by (simp add: set_vch_def magnitude_def Let_def)
  next
    case False
    have "int (?a + 256 ^ ?k * unat ?b) AND NOT (push_bit (8 * ?k) 0x80) = int (magnitude vch)"
      using clear_sign [OF a, of "unat ?b mod 128"] byte_sign(1) [OF False] by (simp only: magnitude_def)
    then show ?thesis using False assms(1) by (simp add: set_vch_def loop Let_def)
  qed
qed

subsection \<open>The encoder as arithmetic\<close>

lemma serialize_abs_0 [simp]: "serialize_abs 0 = []"
  by (simp add: serialize_abs.simps)

lemma serialize_abs_eq_Nil [simp]: "serialize_abs n = [] \<longleftrightarrow> n = 0"
  by (simp add: serialize_abs.simps)

lemma le_nat_serialize_abs [simp]: "le_nat (serialize_abs n) = n"
proof (induction n rule: serialize_abs.induct)
  case (1 n)
  then show ?case by (subst serialize_abs.simps) simp
qed

lemma last_serialize_abs: "n \<noteq> 0 \<Longrightarrow> last (serialize_abs n) \<noteq> 0"
proof (induction n rule: serialize_abs.induct)
  case (1 n)
  show ?case
  proof (cases "n div 256 = 0")
    case True
    then have "n < 256" by (simp add: div_eq_0_iff)
    moreover have "serialize_abs n = [of_nat (n mod 256)]"
      using 1(2) True by (subst serialize_abs.simps) simp
    ultimately show ?thesis using 1(2) unat_of_nat_mod256 [of n] by (metis last.simps mod_less unat_0)
  next
    case False
    then show ?thesis using 1 by (subst serialize_abs.simps) simp
  qed
qed

lemma le_nat_pos: "bs \<noteq> [] \<Longrightarrow> last bs \<noteq> 0 \<Longrightarrow> le_nat bs \<noteq> 0"
proof (induction bs)
  case (Cons b bs)
  then show ?case by (cases "bs = []") (auto simp: unsigned_eq_0_iff)
qed simp

text \<open>A byte vector without leading zero bytes is the encoding of its value.\<close>

lemma serialize_abs_le_nat: "bs = [] \<or> last bs \<noteq> 0 \<Longrightarrow> serialize_abs (le_nat bs) = bs"
proof (induction bs)
  case (Cons b bs)
  have nz: "le_nat (b # bs) \<noteq> 0" using Cons.prems le_nat_pos [of "b # bs"] by simp
  have "(unat b + 256 * le_nat bs) mod 256 = unat b" "(unat b + 256 * le_nat bs) div 256 = le_nat bs"
    by simp_all
  then have "serialize_abs (le_nat (b # bs)) = b # serialize_abs (le_nat bs)"
    using nz by (subst serialize_abs.simps) simp
  then show ?case using Cons by (cases "bs = []") auto
qed simp

definition minimal :: "bytes \<Rightarrow> bool" where
  "minimal vch \<longleftrightarrow> \<not> (length vch > 0 \<and> last vch AND 0x7f = 0 \<and>
    (length vch \<le> 1 \<or> vch ! (length vch - 2) AND 0x80 = 0))"

lemma CScriptNum_minimal:
  "CScriptNum vch True n = Inr v \<longleftrightarrow> length vch \<le> n \<and> minimal vch \<and> v = set_vch vch"
  by (auto simp: CScriptNum_def minimal_def)

lemma nth_snoc_prev: "bs \<noteq> [] \<Longrightarrow> (bs @ [b]) ! (length (bs @ [b]) - 2) = last bs"
  by (cases bs rule: rev_cases) (auto simp: nth_append)

lemma minimal_snoc:
  "minimal (bs @ [b]) \<longleftrightarrow> b AND 0x7f \<noteq> 0 \<or> (bs \<noteq> [] \<and> last bs AND 0x80 \<noteq> 0)"
  using nth_snoc_prev [of bs b] by (cases "bs = []") (auto simp: minimal_def)

lemma magnitude_snoc: "magnitude (bs @ [b]) = le_nat bs + 256 ^ length bs * (unat b mod 128)"
  by (simp add: magnitude_def)

lemma byte_or_80: "(b :: byte) AND 0x80 = 0 \<Longrightarrow> unat (b OR 0x80) = unat b + 128 \<and> (b OR 0x80) AND 0x80 \<noteq> 0"
proof -
  assume "b AND 0x80 = 0"
  then have "unat b < 2 ^ 7" by (simp add: byte_and_80)
  then have "push_bit 7 1 OR b = push_bit 7 1 + b" by (rule or_add_word)
  then have "b OR 0x80 = b + 0x80" by (simp add: or.commute add.commute)
  moreover have "unat (b + 0x80) = unat b + 128"
    using \<open>unat b < 2 ^ 7\<close> by (subst unat_add_lem [THEN iffD1]) simp_all
  ultimately show ?thesis by (simp add: byte_and_80)
qed

lemma byte_7F_eq_0: "(b :: byte) AND 0x7f = 0 \<longleftrightarrow> unat b mod 128 = 0"
  using byte_and_7F [of b] by (metis unsigned_0 unsigned_eq_0_iff)

text \<open>The two branches of the encoder on a nonzero value.\<close>

lemma serialize_cases:
  assumes "v \<noteq> 0"
  defines "r \<equiv> serialize_abs (nat \<bar>v\<bar>)"
  shows "serialize v =
    (if last r AND 0x80 \<noteq> 0 then r @ [if v < 0 then 0x80 else 0]
     else butlast r @ [if v < 0 then last r OR 0x80 else last r])"
proof -
  have "r \<noteq> []" using assms by simp
  then have "butlast r @ [last r] = r" by simp
  then show ?thesis using assms(1) by (auto simp: serialize_def r_def Let_def)
qed

lemma serialize_sound:
  assumes "v \<noteq> 0"
  shows "minimal (serialize v) \<and> magnitude (serialize v) = nat \<bar>v\<bar> \<and>
    (last (serialize v) AND 0x80 \<noteq> 0 \<longleftrightarrow> v < 0) \<and> serialize v \<noteq> []"
proof -
  define r where "r = serialize_abs (nat \<bar>v\<bar>)"
  have nz: "nat \<bar>v\<bar> \<noteq> 0" using assms by simp
  have r: "r \<noteq> []" "last r \<noteq> 0" "le_nat r = nat \<bar>v\<bar>"
    using nz last_serialize_abs [OF nz] by (simp_all add: r_def)
  show ?thesis
  proof (cases "last r AND 0x80 = 0")
    case False
    then have "serialize v = r @ [if v < 0 then 0x80 else 0]"
      using serialize_cases [OF assms] by (simp add: r_def)
    then show ?thesis using False r by (simp add: minimal_snoc magnitude_snoc)
  next
    case True
    let ?b = "if v < 0 then last r OR 0x80 else last r"
    have ser: "serialize v = butlast r @ [?b]" using True serialize_cases [OF assms] by (simp add: r_def)
    have b: "unat ?b mod 128 = unat (last r)" "?b AND 0x80 \<noteq> 0 \<longleftrightarrow> v < 0"
      using True byte_or_80 [OF True] byte_sign(2) [OF True] by auto
    have "unat (last r) \<noteq> 0" using r(2) by (simp add: unsigned_eq_0_iff)
    moreover have "le_nat r = le_nat (butlast r) + 256 ^ length (butlast r) * unat (last r)"
      using le_nat_append [of "butlast r" "[last r]"] r(1) by simp
    ultimately show ?thesis using b r by (simp add: ser minimal_snoc magnitude_snoc byte_7F_eq_0)
  qed
qed

lemma serialize_0 [simp]: "serialize 0 = []"
  by (simp add: serialize_def)

lemma set_vch_serialize: "length (serialize v) \<le> 7 \<Longrightarrow> set_vch (serialize v) = v"
  using serialize_sound [of v] set_vch_eq [of "serialize v"]
  by (cases "v = 0") (auto simp: set_vch_def)

lemma minimal_serialize: "minimal (serialize v)"
  using serialize_sound [of v] by (cases "v = 0") (auto simp: minimal_def)

lemma serialize_set_vch:
  assumes "minimal vch" and "length vch \<le> 7"
  shows "serialize (set_vch vch) = vch"
proof (cases vch rule: rev_cases)
  case Nil
  then show ?thesis by (simp add: set_vch_def)
next
  case (snoc bs b)
  let ?v = "set_vch vch"
  have v: "?v = (if b AND 0x80 \<noteq> 0 then - int (magnitude vch) else int (magnitude vch))"
    using set_vch_eq [of vch] snoc assms(2) by simp
  have mag: "magnitude vch = le_nat bs + 256 ^ length bs * (unat b mod 128)"
    by (simp add: snoc magnitude_snoc)
  show ?thesis
  proof (cases "unat b mod 128 = 0")
    case True
    then have bs: "bs \<noteq> []" "last bs AND 0x80 \<noteq> 0"
      using assms(1) by (auto simp: snoc minimal_snoc byte_7F_eq_0)
    then have "last bs \<noteq> 0" by auto
    have m: "magnitude vch = le_nat bs" "magnitude vch \<noteq> 0"
      using True mag le_nat_pos [OF bs(1) \<open>last bs \<noteq> 0\<close>] by simp_all
    have "unat b = 128 \<or> unat b = 0"
      using True byte_sign [of b] by (cases "b AND 0x80 = 0") auto
    then have "b = 0x80 \<or> b = 0" by (simp add: word_unat_eq_iff)
    then have b: "b = (if b AND 0x80 \<noteq> 0 then 0x80 else 0)" by auto
    have "serialize_abs (nat \<bar>?v\<bar>) = bs"
      using m v serialize_abs_le_nat [of bs] \<open>last bs \<noteq> 0\<close> by simp
    moreover have "?v \<noteq> 0" "?v < 0 \<longleftrightarrow> b AND 0x80 \<noteq> 0" using v m by auto
    ultimately show ?thesis using bs b [symmetric] serialize_cases [of ?v] by (simp add: snoc)
  next
    case False
    define c where "c = (b AND 0x7f)"
    have c: "unat c = unat b mod 128" "c \<noteq> 0" "c AND 0x80 = 0"
      using False by (simp_all add: c_def byte_and_7F byte_7F_eq_0 byte_and_80 [of "b AND 0x7f"])
    have m: "magnitude vch = le_nat (bs @ [c])" by (simp add: mag c le_nat_append)
    have "magnitude vch \<noteq> 0" using le_nat_pos [of "bs @ [c]"] c(2) by (simp add: m)
    have abs: "serialize_abs (nat \<bar>?v\<bar>) = bs @ [c]"
      using m v serialize_abs_le_nat [of "bs @ [c]"] c(2) by simp
    have v0: "?v \<noteq> 0" and neg: "?v < 0 \<longleftrightarrow> b AND 0x80 \<noteq> 0" using v \<open>magnitude vch \<noteq> 0\<close> by auto
    have "serialize ?v = bs @ [if b AND 0x80 \<noteq> 0 then c OR 0x80 else c]"
      using c(3) abs serialize_cases [OF v0] by (simp add: neg)
    also have "(if b AND 0x80 \<noteq> 0 then c OR 0x80 else c) = b"
      using byte_sign [of b] byte_or_80 [OF c(3)] c(1)
      by (cases "b AND 0x80 = 0") (simp_all add: word_unat_eq_iff [of _ b])
    finally show ?thesis by (simp add: snoc)
  qed
qed

lemma length_serialize_abs: "n < 256 ^ k \<Longrightarrow> length (serialize_abs n) \<le> k"
proof (induction k arbitrary: n)
  case (Suc k)
  then have "n div 256 < 256 ^ k" by (simp add: div_less_iff_less_mult mult.commute)
  with Suc.IH show ?case by (subst serialize_abs.simps) simp
qed simp

lemma length_serialize: "nat \<bar>v\<bar> < 256 ^ k \<Longrightarrow> length (serialize v) \<le> Suc k"
  using length_serialize_abs [of "nat \<bar>v\<bar>" k] serialize_cases [of v]
  by (cases "v = 0") (auto split: if_splits)

lemma CScriptNum_True_Inr:
  assumes "n \<le> 7"
  shows "CScriptNum vch True n = Inr v \<longleftrightarrow> vch = serialize v \<and> length vch \<le> n"
  using assms set_vch_serialize [of v] minimal_serialize [of v] serialize_set_vch [of vch]
  by (auto simp: CScriptNum_minimal)

lemma magnitude_less: "vch \<noteq> [] \<Longrightarrow> magnitude vch < 128 * 256 ^ (length vch - 1)"
proof -
  assume "vch \<noteq> []"
  have "le_nat (butlast vch) < 256 ^ (length vch - 1)" using le_nat_less [of "butlast vch"] by simp
  moreover have "256 ^ (length vch - 1) * (unat (last vch) mod 128) \<le> 256 ^ (length vch - 1) * (127 :: nat)"
    by (intro mult_le_mono2) simp
  ultimately show ?thesis unfolding magnitude_def by linarith
qed

lemma CScriptNum_bound:
  assumes "CScriptNum vch f n = Inr v" and "n \<le> 7"
  shows "\<bar>v\<bar> < 2 ^ (8 * n - 1) \<or> v = 0"
proof (cases "vch = []")
  case True
  then show ?thesis using assms(1) by (simp add: CScriptNum_def set_vch_def split: if_splits)
next
  case False
  then have len: "length vch \<le> n" and v: "v = set_vch vch"
    using assms(1) by (auto simp: CScriptNum_def split: if_splits)
  then have "\<bar>v\<bar> = int (magnitude vch)" using False assms(2) set_vch_eq [of vch] by simp
  moreover have "magnitude vch < 2 ^ (8 * n - 1)"
  proof -
    have "magnitude vch < 128 * 256 ^ (length vch - 1)" using False by (rule magnitude_less)
    also have "(128 :: nat) * 256 ^ (length vch - 1) = 2 ^ (7 + 8 * (length vch - 1))"
      by (simp add: power_add power_mult)
    also have "\<dots> \<le> 2 ^ (8 * n - 1)" using False len by (intro power_increasing) (cases vch, auto)
    finally show ?thesis .
  qed
  ultimately show ?thesis by (metis of_nat_less_iff of_nat_numeral of_nat_power)
qed

text \<open>
  C27: with minimal encodings required, decoding a byte vector as a script number of at most \<open>n\<close> bytes
  succeeds with \<open>v\<close> exactly on the vector that \<open>serialize\<close> produces for \<open>v\<close>; so every number has one
  accepted encoding. The numeric operands of at most four bytes lie strictly between \<open>-2\<^sup>3\<^sup>1\<close> and \<open>2\<^sup>3\<^sup>1\<close>.
\<close>

theorem CScriptNum_exact:
  assumes "n \<le> 7"
  shows "(CScriptNum vch True n = Inr v \<longleftrightarrow> vch = serialize v \<and> length vch \<le> n) \<and>
    (CScriptNum vch f 4 = Inr v \<longrightarrow> \<bar>v\<bar> < 2147483648)"
  using CScriptNum_True_Inr [OF assms] CScriptNum_bound [of vch f 4 v] by auto

theorem CScriptNum_exact_witness:
  "(4 :: nat) \<le> 7 \<and> CScriptNum [0xff, 0x80] True 4 = Inr (- 255) \<and> serialize (- 255) = [0xff, 0x80]"
  using CScriptNum_exact [of 4 "[0xff, 0x80]" "- 255" True]
  by (simp add: CScriptNum_def set_vch_def s64_def signed_take_bit_rec serialize_def serialize_abs.simps)

end
