(* ===== verification/SC_Script.thy ===== *)
theory SC_Script
  imports SC_ScriptNum
begin

text \<open>
  Scripts (\<^verbatim>\<open>script/script.h\<close>, \<^verbatim>\<open>script/script.cpp\<close>): opcodes, the push encodings, the instruction
  decoder \<open>GetOp2\<close>, signature operation counts, script templates and the checks on whole scripts. A
  script is its list of bytes. An iterator is the suffix of the script that is still to be read.
  \<open>GetOp2\<close> moves the iterator even when it fails, so its model returns the rest in every case.
\<close>

subsection \<open>Limits and opcodes\<close>

type_synonym CScript = bytes

abbreviation MAX_SCRIPT_ELEMENT_SIZE :: nat where "MAX_SCRIPT_ELEMENT_SIZE \<equiv> 520"
abbreviation MAX_OPS_PER_SCRIPT :: int where "MAX_OPS_PER_SCRIPT \<equiv> 201"
abbreviation MAX_PUBKEYS_PER_MULTISIG :: nat where "MAX_PUBKEYS_PER_MULTISIG \<equiv> 20"
abbreviation MAX_SCRIPT_SIZE :: nat where "MAX_SCRIPT_SIZE \<equiv> 10000"
abbreviation MAX_STACK_SIZE :: nat where "MAX_STACK_SIZE \<equiv> 1000"
abbreviation LOCKTIME_THRESHOLD :: int where "LOCKTIME_THRESHOLD \<equiv> 500000000"

type_synonym opcodetype = byte

abbreviation OP_0 :: opcodetype where "OP_0 \<equiv> 0x00"
abbreviation OP_FALSE :: opcodetype where "OP_FALSE \<equiv> OP_0"
abbreviation OP_PUSHDATA1 :: opcodetype where "OP_PUSHDATA1 \<equiv> 0x4c"
abbreviation OP_PUSHDATA2 :: opcodetype where "OP_PUSHDATA2 \<equiv> 0x4d"
abbreviation OP_PUSHDATA4 :: opcodetype where "OP_PUSHDATA4 \<equiv> 0x4e"
abbreviation OP_1NEGATE :: opcodetype where "OP_1NEGATE \<equiv> 0x4f"
abbreviation OP_RESERVED :: opcodetype where "OP_RESERVED \<equiv> 0x50"
abbreviation OP_1 :: opcodetype where "OP_1 \<equiv> 0x51"
abbreviation OP_TRUE :: opcodetype where "OP_TRUE \<equiv> OP_1"
abbreviation OP_2 :: opcodetype where "OP_2 \<equiv> 0x52"
abbreviation OP_3 :: opcodetype where "OP_3 \<equiv> 0x53"
abbreviation OP_4 :: opcodetype where "OP_4 \<equiv> 0x54"
abbreviation OP_5 :: opcodetype where "OP_5 \<equiv> 0x55"
abbreviation OP_6 :: opcodetype where "OP_6 \<equiv> 0x56"
abbreviation OP_7 :: opcodetype where "OP_7 \<equiv> 0x57"
abbreviation OP_8 :: opcodetype where "OP_8 \<equiv> 0x58"
abbreviation OP_9 :: opcodetype where "OP_9 \<equiv> 0x59"
abbreviation OP_10 :: opcodetype where "OP_10 \<equiv> 0x5a"
abbreviation OP_11 :: opcodetype where "OP_11 \<equiv> 0x5b"
abbreviation OP_12 :: opcodetype where "OP_12 \<equiv> 0x5c"
abbreviation OP_13 :: opcodetype where "OP_13 \<equiv> 0x5d"
abbreviation OP_14 :: opcodetype where "OP_14 \<equiv> 0x5e"
abbreviation OP_15 :: opcodetype where "OP_15 \<equiv> 0x5f"
abbreviation OP_16 :: opcodetype where "OP_16 \<equiv> 0x60"
abbreviation OP_NOP :: opcodetype where "OP_NOP \<equiv> 0x61"
abbreviation OP_VER :: opcodetype where "OP_VER \<equiv> 0x62"
abbreviation OP_IF :: opcodetype where "OP_IF \<equiv> 0x63"
abbreviation OP_NOTIF :: opcodetype where "OP_NOTIF \<equiv> 0x64"
abbreviation OP_VERIF :: opcodetype where "OP_VERIF \<equiv> 0x65"
abbreviation OP_VERNOTIF :: opcodetype where "OP_VERNOTIF \<equiv> 0x66"
abbreviation OP_ELSE :: opcodetype where "OP_ELSE \<equiv> 0x67"
abbreviation OP_ENDIF :: opcodetype where "OP_ENDIF \<equiv> 0x68"
abbreviation OP_VERIFY :: opcodetype where "OP_VERIFY \<equiv> 0x69"
abbreviation OP_RETURN :: opcodetype where "OP_RETURN \<equiv> 0x6a"
abbreviation OP_TOALTSTACK :: opcodetype where "OP_TOALTSTACK \<equiv> 0x6b"
abbreviation OP_FROMALTSTACK :: opcodetype where "OP_FROMALTSTACK \<equiv> 0x6c"
abbreviation OP_2DROP :: opcodetype where "OP_2DROP \<equiv> 0x6d"
abbreviation OP_2DUP :: opcodetype where "OP_2DUP \<equiv> 0x6e"
abbreviation OP_3DUP :: opcodetype where "OP_3DUP \<equiv> 0x6f"
abbreviation OP_2OVER :: opcodetype where "OP_2OVER \<equiv> 0x70"
abbreviation OP_2ROT :: opcodetype where "OP_2ROT \<equiv> 0x71"
abbreviation OP_2SWAP :: opcodetype where "OP_2SWAP \<equiv> 0x72"
abbreviation OP_IFDUP :: opcodetype where "OP_IFDUP \<equiv> 0x73"
abbreviation OP_DEPTH :: opcodetype where "OP_DEPTH \<equiv> 0x74"
abbreviation OP_DROP :: opcodetype where "OP_DROP \<equiv> 0x75"
abbreviation OP_DUP :: opcodetype where "OP_DUP \<equiv> 0x76"
abbreviation OP_NIP :: opcodetype where "OP_NIP \<equiv> 0x77"
abbreviation OP_OVER :: opcodetype where "OP_OVER \<equiv> 0x78"
abbreviation OP_PICK :: opcodetype where "OP_PICK \<equiv> 0x79"
abbreviation OP_ROLL :: opcodetype where "OP_ROLL \<equiv> 0x7a"
abbreviation OP_ROT :: opcodetype where "OP_ROT \<equiv> 0x7b"
abbreviation OP_SWAP :: opcodetype where "OP_SWAP \<equiv> 0x7c"
abbreviation OP_TUCK :: opcodetype where "OP_TUCK \<equiv> 0x7d"
abbreviation OP_CAT :: opcodetype where "OP_CAT \<equiv> 0x7e"
abbreviation OP_SUBSTR :: opcodetype where "OP_SUBSTR \<equiv> 0x7f"
abbreviation OP_LEFT :: opcodetype where "OP_LEFT \<equiv> 0x80"
abbreviation OP_RIGHT :: opcodetype where "OP_RIGHT \<equiv> 0x81"
abbreviation OP_SIZE :: opcodetype where "OP_SIZE \<equiv> 0x82"
abbreviation OP_INVERT :: opcodetype where "OP_INVERT \<equiv> 0x83"
abbreviation OP_AND :: opcodetype where "OP_AND \<equiv> 0x84"
abbreviation OP_OR :: opcodetype where "OP_OR \<equiv> 0x85"
abbreviation OP_XOR :: opcodetype where "OP_XOR \<equiv> 0x86"
abbreviation OP_EQUAL :: opcodetype where "OP_EQUAL \<equiv> 0x87"
abbreviation OP_EQUALVERIFY :: opcodetype where "OP_EQUALVERIFY \<equiv> 0x88"
abbreviation OP_RESERVED1 :: opcodetype where "OP_RESERVED1 \<equiv> 0x89"
abbreviation OP_RESERVED2 :: opcodetype where "OP_RESERVED2 \<equiv> 0x8a"
abbreviation OP_1ADD :: opcodetype where "OP_1ADD \<equiv> 0x8b"
abbreviation OP_1SUB :: opcodetype where "OP_1SUB \<equiv> 0x8c"
abbreviation OP_2MUL :: opcodetype where "OP_2MUL \<equiv> 0x8d"
abbreviation OP_2DIV :: opcodetype where "OP_2DIV \<equiv> 0x8e"
abbreviation OP_NEGATE :: opcodetype where "OP_NEGATE \<equiv> 0x8f"
abbreviation OP_ABS :: opcodetype where "OP_ABS \<equiv> 0x90"
abbreviation OP_NOT :: opcodetype where "OP_NOT \<equiv> 0x91"
abbreviation OP_0NOTEQUAL :: opcodetype where "OP_0NOTEQUAL \<equiv> 0x92"
abbreviation OP_ADD :: opcodetype where "OP_ADD \<equiv> 0x93"
abbreviation OP_SUB :: opcodetype where "OP_SUB \<equiv> 0x94"
abbreviation OP_MUL :: opcodetype where "OP_MUL \<equiv> 0x95"
abbreviation OP_DIV :: opcodetype where "OP_DIV \<equiv> 0x96"
abbreviation OP_MOD :: opcodetype where "OP_MOD \<equiv> 0x97"
abbreviation OP_LSHIFT :: opcodetype where "OP_LSHIFT \<equiv> 0x98"
abbreviation OP_RSHIFT :: opcodetype where "OP_RSHIFT \<equiv> 0x99"
abbreviation OP_BOOLAND :: opcodetype where "OP_BOOLAND \<equiv> 0x9a"
abbreviation OP_BOOLOR :: opcodetype where "OP_BOOLOR \<equiv> 0x9b"
abbreviation OP_NUMEQUAL :: opcodetype where "OP_NUMEQUAL \<equiv> 0x9c"
abbreviation OP_NUMEQUALVERIFY :: opcodetype where "OP_NUMEQUALVERIFY \<equiv> 0x9d"
abbreviation OP_NUMNOTEQUAL :: opcodetype where "OP_NUMNOTEQUAL \<equiv> 0x9e"
abbreviation OP_LESSTHAN :: opcodetype where "OP_LESSTHAN \<equiv> 0x9f"
abbreviation OP_GREATERTHAN :: opcodetype where "OP_GREATERTHAN \<equiv> 0xa0"
abbreviation OP_LESSTHANOREQUAL :: opcodetype where "OP_LESSTHANOREQUAL \<equiv> 0xa1"
abbreviation OP_GREATERTHANOREQUAL :: opcodetype where "OP_GREATERTHANOREQUAL \<equiv> 0xa2"
abbreviation OP_MIN :: opcodetype where "OP_MIN \<equiv> 0xa3"
abbreviation OP_MAX :: opcodetype where "OP_MAX \<equiv> 0xa4"
abbreviation OP_WITHIN :: opcodetype where "OP_WITHIN \<equiv> 0xa5"
abbreviation OP_RIPEMD160 :: opcodetype where "OP_RIPEMD160 \<equiv> 0xa6"
abbreviation OP_SHA1 :: opcodetype where "OP_SHA1 \<equiv> 0xa7"
abbreviation OP_SHA256 :: opcodetype where "OP_SHA256 \<equiv> 0xa8"
abbreviation OP_HASH160 :: opcodetype where "OP_HASH160 \<equiv> 0xa9"
abbreviation OP_HASH256 :: opcodetype where "OP_HASH256 \<equiv> 0xaa"
abbreviation OP_CODESEPARATOR :: opcodetype where "OP_CODESEPARATOR \<equiv> 0xab"
abbreviation OP_CHECKSIG :: opcodetype where "OP_CHECKSIG \<equiv> 0xac"
abbreviation OP_CHECKSIGVERIFY :: opcodetype where "OP_CHECKSIGVERIFY \<equiv> 0xad"
abbreviation OP_CHECKMULTISIG :: opcodetype where "OP_CHECKMULTISIG \<equiv> 0xae"
abbreviation OP_CHECKMULTISIGVERIFY :: opcodetype where "OP_CHECKMULTISIGVERIFY \<equiv> 0xaf"
abbreviation OP_NOP1 :: opcodetype where "OP_NOP1 \<equiv> 0xb0"
abbreviation OP_CHECKLOCKTIMEVERIFY :: opcodetype where "OP_CHECKLOCKTIMEVERIFY \<equiv> 0xb1"
abbreviation OP_NOP2 :: opcodetype where "OP_NOP2 \<equiv> OP_CHECKLOCKTIMEVERIFY"
abbreviation OP_CHECKSEQUENCEVERIFY :: opcodetype where "OP_CHECKSEQUENCEVERIFY \<equiv> 0xb2"
abbreviation OP_NOP3 :: opcodetype where "OP_NOP3 \<equiv> OP_CHECKSEQUENCEVERIFY"
abbreviation OP_NOP4 :: opcodetype where "OP_NOP4 \<equiv> 0xb3"
abbreviation OP_NOP5 :: opcodetype where "OP_NOP5 \<equiv> 0xb4"
abbreviation OP_NOP6 :: opcodetype where "OP_NOP6 \<equiv> 0xb5"
abbreviation OP_NOP7 :: opcodetype where "OP_NOP7 \<equiv> 0xb6"
abbreviation OP_NOP8 :: opcodetype where "OP_NOP8 \<equiv> 0xb7"
abbreviation OP_NOP9 :: opcodetype where "OP_NOP9 \<equiv> 0xb8"
abbreviation OP_NOP10 :: opcodetype where "OP_NOP10 \<equiv> 0xb9"
abbreviation OP_SMALLINTEGER :: opcodetype where "OP_SMALLINTEGER \<equiv> 0xfa"
abbreviation OP_PUBKEYS :: opcodetype where "OP_PUBKEYS \<equiv> 0xfb"
abbreviation OP_PUBKEYHASH :: opcodetype where "OP_PUBKEYHASH \<equiv> 0xfd"
abbreviation OP_PUBKEY :: opcodetype where "OP_PUBKEY \<equiv> 0xfe"
abbreviation OP_INVALIDOPCODE :: opcodetype where "OP_INVALIDOPCODE \<equiv> 0xff"
abbreviation MAX_OPCODE :: opcodetype where "MAX_OPCODE \<equiv> OP_NOP10"

subsection \<open>Building scripts\<close>

definition push_opcode :: "opcodetype \<Rightarrow> CScript" where
  "push_opcode opcode = [opcode]"

definition push_data :: "bytes \<Rightarrow> CScript" where
  "push_data b =
    (if length b < unat OP_PUSHDATA1 then [of_nat (length b)]
     else if length b \<le> 0xff then [OP_PUSHDATA1, of_nat (length b)]
     else if length b \<le> 0xffff then OP_PUSHDATA2 # WriteLE16 (of_nat (length b))
     else OP_PUSHDATA4 # WriteLE32 (of_nat (length b))) @ b"

definition push_int64 :: "int \<Rightarrow> CScript" where
  "push_int64 n =
    (if n = - 1 \<or> (n \<ge> 1 \<and> n \<le> 16) then [of_int (n + (uint OP_1 - 1))]
     else if n = 0 then [OP_0]
     else push_data (serialize n))"

definition DecodeOP_N :: "opcodetype \<Rightarrow> int option" where
  "DecodeOP_N opcode =
    (if opcode = OP_0 then Some 0
     else if opcode \<ge> OP_1 \<and> opcode \<le> OP_16 then Some (uint opcode - (uint OP_1 - 1))
     else None)"

definition EncodeOP_N :: "int \<Rightarrow> opcodetype option" where
  "EncodeOP_N n =
    (if n \<ge> 0 \<and> n \<le> 16 then if n = 0 then Some OP_0 else Some (of_int (uint OP_1 + n - 1)) else None)"

subsection \<open>Reading instructions\<close>

definition GetOp2_size :: "opcodetype \<Rightarrow> CScript \<Rightarrow> nat option \<times> CScript" where
  "GetOp2_size opcode pc =
    (if opcode < OP_PUSHDATA1 then (Some (unat opcode), pc)
     else if opcode = OP_PUSHDATA1 then
       if length pc < 1 then (None, pc) else (Some (unat (hd pc)), tl pc)
     else if opcode = OP_PUSHDATA2 then
       if length pc < 2 then (None, pc) else (Some (unat (ReadLE16 pc)), drop 2 pc)
     else
       if length pc < 4 then (None, pc) else (Some (unat (ReadLE32 pc)), drop 4 pc))"

definition GetOp2 :: "CScript \<Rightarrow> bool \<times> opcodetype \<times> bytes \<times> CScript" where
  "GetOp2 pc =
    (case pc of [] \<Rightarrow> (False, OP_INVALIDOPCODE, [], pc)
     | opcode # pc \<Rightarrow>
       if opcode \<le> OP_PUSHDATA4 then
         (case GetOp2_size opcode pc of
            (None, pc) \<Rightarrow> (False, OP_INVALIDOPCODE, [], pc)
          | (Some nSize, pc) \<Rightarrow>
              if length pc < nSize then (False, OP_INVALIDOPCODE, [], pc)
              else (True, opcode, take nSize pc, drop nSize pc))
       else (True, opcode, [], pc))"

lemma GetOp2_size_length: "length (snd (GetOp2_size op pc)) \<le> length pc"
  by (simp add: GetOp2_size_def)

lemma GetOp2_length:
  "GetOp2 pc = (r, op, d, pc') \<Longrightarrow> pc \<noteq> [] \<Longrightarrow> length pc' < length pc"
  using GetOp2_size_length [of "hd pc" "tl pc"]
  by (cases pc) (auto simp: GetOp2_def split: prod.splits option.splits if_splits)

lemma GetOp2_Nil [simp]: "GetOp2 [] = (False, OP_INVALIDOPCODE, [], [])"
  by (simp add: GetOp2_def)

lemma GetOp2_True_length: "GetOp2 pc = (True, op, d, pc') \<Longrightarrow> length pc' < length pc"
  by (cases "pc = []") (auto dest: GetOp2_length)

lemma GetOp2_suffix: "GetOp2 pc = (True, op, vch, pc') \<Longrightarrow> suffix pc' pc"
  by (auto simp: GetOp2_def GetOp2_size_def Let_def suffix_drop suffix_ConsI drop_Suc [symmetric] split: if_splits option.splits list.splits)

lemmas GetOp2_rest_shorter = GetOp2_True_length [OF sym]

subsection \<open>Loops over a script\<close>

function strip_prefixes :: "bytes \<Rightarrow> CScript \<Rightarrow> nat \<times> CScript" where
  "strip_prefixes b pc =
    (if b \<noteq> [] \<and> length pc \<ge> length b \<and> take (length b) pc = b
     then let (n, pc) = strip_prefixes b (drop (length b) pc) in (n + 1, pc)
     else (0, pc))"
  by pat_completeness auto
termination by (relation "measure (\<lambda>(b, pc). length pc)") (auto intro: diff_less)

declare strip_prefixes.simps [simp del]

lemma strip_prefixes_length: "length (snd (strip_prefixes b pc)) \<le> length pc"
proof (induction b pc rule: strip_prefixes.induct)
  case (1 b pc)
  then show ?case
    by (subst strip_prefixes.simps) (auto simp: case_prod_unfold Let_def intro: le_trans)
qed

function FindAndDelete_loop :: "bytes \<Rightarrow> CScript \<Rightarrow> CScript \<Rightarrow> nat \<Rightarrow> nat \<times> CScript" where
  "FindAndDelete_loop b pc result nFound =
    (let (k, pc2) = strip_prefixes b pc in
     case GetOp2 pc2 of
       (False, _, _, _) \<Rightarrow> (nFound + k, result @ pc2)
     | (True, _, _, pc) \<Rightarrow> FindAndDelete_loop b pc (result @ take (length pc2 - length pc) pc2) (nFound + k))"
  by pat_completeness auto
termination
proof (relation "measure (\<lambda>(b, pc, _, _). length pc)", goal_cases)
  case (2 b pc result nFound x k pc2 r z op y d pc')
  then show ?case
    using strip_prefixes_length [of b pc] GetOp2_True_length [of pc2 op d pc'] by (cases "strip_prefixes b pc") auto
qed simp

definition FindAndDelete :: "CScript \<Rightarrow> CScript \<Rightarrow> nat \<times> CScript" where
  "FindAndDelete script b =
    (if b = [] then (0, script)
     else let (nFound, result) = FindAndDelete_loop b script [] 0 in
       if nFound > 0 then (nFound, result) else (0, script))"

function Find :: "opcodetype \<Rightarrow> CScript \<Rightarrow> nat" where
  "Find op pc =
    (case GetOp2 pc of
       (False, _, _, _) \<Rightarrow> 0
     | (True, opcode, _, pc) \<Rightarrow> (if opcode = op then 1 else 0) + Find op pc)"
  by pat_completeness auto
termination by (relation "measure (length o snd)") (auto dest: GetOp2_rest_shorter)

function GetSigOpCount_loop :: "bool \<Rightarrow> opcodetype \<Rightarrow> CScript \<Rightarrow> nat" where
  "GetSigOpCount_loop fAccurate lastOpcode pc =
    (case GetOp2 pc of
       (False, _, _, _) \<Rightarrow> 0
     | (True, opcode, _, pc) \<Rightarrow>
         (if opcode = OP_CHECKSIG \<or> opcode = OP_CHECKSIGVERIFY then 1
          else if opcode = OP_CHECKMULTISIG \<or> opcode = OP_CHECKMULTISIGVERIFY then
            if fAccurate \<and> lastOpcode \<ge> OP_1 \<and> lastOpcode \<le> OP_16
            then (case DecodeOP_N lastOpcode of Some n \<Rightarrow> nat n | None \<Rightarrow> 0)
            else MAX_PUBKEYS_PER_MULTISIG
          else 0)
         + GetSigOpCount_loop fAccurate opcode pc)"
  by pat_completeness auto
termination by (relation "measure (\<lambda>(_, _, pc). length pc)") (auto dest: GetOp2_rest_shorter)

declare Find.simps [simp del] GetSigOpCount_loop.simps [simp del] FindAndDelete_loop.simps [simp del]

definition GetSigOpCount :: "bool \<Rightarrow> CScript \<Rightarrow> nat" where
  "GetSigOpCount fAccurate script = GetSigOpCount_loop fAccurate OP_INVALIDOPCODE script"

subsection \<open>Templates and checks on whole scripts\<close>

definition IsPayToScriptHash :: "CScript \<Rightarrow> bool" where
  "IsPayToScriptHash script \<longleftrightarrow>
    length script = 23 \<and> script ! 0 = OP_HASH160 \<and> script ! 1 = 0x14 \<and> script ! 22 = OP_EQUAL"

definition IsPayToWitnessScriptHash :: "CScript \<Rightarrow> bool" where
  "IsPayToWitnessScriptHash script \<longleftrightarrow>
    length script = 34 \<and> script ! 0 = OP_0 \<and> script ! 1 = 0x20"

definition IsWitnessProgram :: "CScript \<Rightarrow> (int \<times> bytes) option" where
  "IsWitnessProgram script =
    (if length script < 4 \<or> length script > 42 then None
     else if script ! 0 \<noteq> OP_0 \<and> (script ! 0 < OP_1 \<or> script ! 0 > OP_16) then None
     else if unat (script ! 1) + 2 = length script
     then (case DecodeOP_N (script ! 0) of Some version \<Rightarrow> Some (version, drop 2 script) | None \<Rightarrow> None)
     else None)"

function IsPushOnly :: "CScript \<Rightarrow> bool" where
  "IsPushOnly pc =
    (if pc = [] then True
     else case GetOp2 pc of
       (False, _, _, _) \<Rightarrow> False
     | (True, opcode, _, pc) \<Rightarrow> if opcode > OP_16 then False else IsPushOnly pc)"
  by pat_completeness auto
termination by (relation "measure length") (auto dest: GetOp2_rest_shorter)

function last_push :: "bytes \<Rightarrow> CScript \<Rightarrow> bytes option" where
  "last_push vData pc =
    (if pc = [] then Some vData
     else case GetOp2 pc of
       (False, _, _, _) \<Rightarrow> None
     | (True, opcode, vData, pc) \<Rightarrow> if opcode > OP_16 then None else last_push vData pc)"
  by pat_completeness auto
termination by (relation "measure (length o snd)") (auto dest: GetOp2_rest_shorter)

definition GetSigOpCount_scriptSig :: "CScript \<Rightarrow> CScript \<Rightarrow> nat" where
  "GetSigOpCount_scriptSig script scriptSig =
    (if \<not> IsPayToScriptHash script then GetSigOpCount True script
     else case last_push [] scriptSig of None \<Rightarrow> 0 | Some subscript \<Rightarrow> GetSigOpCount True subscript)"

function HasValidOps :: "CScript \<Rightarrow> bool" where
  "HasValidOps it =
    (if it = [] then True
     else case GetOp2 it of
       (False, _, _, _) \<Rightarrow> False
     | (True, opcode, item, it) \<Rightarrow>
         if opcode > MAX_OPCODE \<or> length item > MAX_SCRIPT_ELEMENT_SIZE then False else HasValidOps it)"
  by pat_completeness auto
termination by (relation "measure length") (auto dest: GetOp2_rest_shorter)

definition IsUnspendable :: "CScript \<Rightarrow> bool" where
  "IsUnspendable script \<longleftrightarrow> (length script > 0 \<and> hd script = OP_RETURN) \<or> length script > MAX_SCRIPT_SIZE"

declare IsPushOnly.simps [simp del] last_push.simps [simp del] HasValidOps.simps [simp del]

subsection \<open>What is pushed is read back\<close>

lemma ReadLE_take: "ReadLE16 (take 2 p @ r) = ReadLE16 (take 2 p)" "ReadLE32 (take 4 p @ q) = ReadLE32 (take 4 p)"
  if "length p \<ge> 4"
  using that by (simp_all add: ReadLE16_def ReadLE32_def)

lemma GetOp2_push_data_size:
  assumes "length b < 2 ^ 32"
  shows "\<exists>op. op \<le> OP_PUSHDATA4 \<and> GetOp2 (push_data b @ r) = (True, op, b, r)"
proof -
  consider "length b < 76" | "76 \<le> length b" "length b \<le> 255" | "256 \<le> length b" "length b \<le> 65535"
    | "65536 \<le> length b" by linarith
  then show ?thesis
  proof cases
    case 1
    then have "unat (of_nat (length b) :: byte) = length b" by (simp add: unat_of_nat)
    then show ?thesis using 1
      by (intro exI [of _ "of_nat (length b)"])
        (simp add: push_data_def GetOp2_def GetOp2_size_def word_le_nat_alt word_less_nat_alt)
  next
    case 2
    then have "unat (of_nat (length b) :: byte) = length b" by (simp add: unat_of_nat)
    then show ?thesis using 2 by (simp add: push_data_def GetOp2_def GetOp2_size_def)
  next
    case 3
    then have "unat (of_nat (length b) :: u16) = length b" by (simp add: unat_of_nat)
    then show ?thesis using 3 by (simp add: push_data_def GetOp2_def GetOp2_size_def)
  next
    case 4
    then have "unat (of_nat (length b) :: u32) = length b" using assms by (simp add: unat_of_nat)
    then show ?thesis using 4 by (simp add: push_data_def GetOp2_def GetOp2_size_def)
  qed
qed

text \<open>
  Pushing a byte vector of less than \<open>2\<^sup>3\<^sup>2\<close> bytes in front of any script and reading the next
  instruction returns a push opcode, exactly these bytes, and exactly the script behind them.
\<close>

theorem GetOp2_push_data:
  assumes "length b < 2 ^ 32"
  shows "\<exists>op. op \<le> OP_PUSHDATA4 \<and> GetOp2 (push_data b @ r) = (True, op, b, r)"
  using assms by (rule GetOp2_push_data_size)

theorem GetOp2_push_data_witness:
  "length [0xab :: byte, 0xcd] < 2 ^ 32 \<and> push_data [0xab, 0xcd] = [2, 0xab, 0xcd] \<and>
   (\<exists>op. op \<le> OP_PUSHDATA4 \<and> GetOp2 (push_data [0xab, 0xcd] @ [OP_DUP]) = (True, op, [0xab, 0xcd], [OP_DUP]))"
  using GetOp2_push_data [of "[0xab, 0xcd]" "[OP_DUP]"] by (simp add: push_data_def)

lemma push_only_append:
  assumes "length b < 2 ^ 32"
  shows "IsPushOnly (push_data b @ r) = IsPushOnly r"
proof -
  from GetOp2_push_data_size [OF assms, of r] obtain op where
    op: "op \<le> OP_PUSHDATA4" "GetOp2 (push_data b @ r) = (True, op, b, r)" by blast
  have "push_data b \<noteq> []" by (simp add: push_data_def)
  moreover have "\<not> op > OP_16" using op(1) by (simp add: word_le_nat_alt word_less_nat_alt)
  ultimately show ?thesis using op(2) by (subst IsPushOnly.simps) simp
qed

subsection \<open>Signature operation counts\<close>

lemma DecodeOP_N_bound: "DecodeOP_N op = Some n \<Longrightarrow> 0 \<le> n \<and> n \<le> 16"
  by (auto simp: DecodeOP_N_def word_le_def split: if_splits)

text \<open>
  Counting accurately never gives more signature operations than the legacy count, in which every
  multisig counts for twenty; and both are at most twenty per script byte, so the 32-bit counter cannot
  overflow on a script that was read from a message of at most \<open>MAX_SIZE\<close> bytes.
\<close>

theorem GetSigOpCount_bounds:
  "GetSigOpCount True script \<le> GetSigOpCount False script \<and> GetSigOpCount False script \<le> 20 * length script"
proof -
  have "GetSigOpCount_loop True op pc \<le> GetSigOpCount_loop False op pc \<and>
    GetSigOpCount_loop False op pc \<le> 20 * length pc" for op pc
  proof (induction "length pc" arbitrary: op pc rule: less_induct)
    case less
    obtain ok op' d pc' where g: "GetOp2 pc = (ok, op', d, pc')" by (metis prod_cases4)
    show ?case
    proof (cases ok)
      case False
      then show ?thesis using g by (simp add: GetSigOpCount_loop.simps)
    next
      case True
      then have short: "length pc' < length pc" using g by (simp add: GetOp2_True_length)
      show ?thesis
        using less [OF short, of op'] True short
        by (subst (1 2 3) GetSigOpCount_loop.simps)
          (auto simp: g dest!: DecodeOP_N_bound split: option.split)
    qed
  qed
  then show ?thesis by (simp add: GetSigOpCount_def)
qed

subsection \<open>The templates\<close>

lemma EncodeOP_N_DecodeOP_N: "DecodeOP_N op = Some n \<longleftrightarrow> EncodeOP_N n = Some op"
proof
  assume d: "DecodeOP_N op = Some n"
  show "EncodeOP_N n = Some op"
  proof (cases "op = OP_0")
    case True
    then show ?thesis using d by (simp add: DecodeOP_N_def EncodeOP_N_def)
  next
    case False
    then have "n = uint op - 80" "81 \<le> uint op" "uint op \<le> 96"
      using d by (auto simp: DecodeOP_N_def word_le_def split: if_splits)
    then show ?thesis by (simp add: EncodeOP_N_def)
  qed
next
  assume e: "EncodeOP_N n = Some op"
  then have n: "0 \<le> n" "n \<le> 16" by (auto simp: EncodeOP_N_def split: if_splits)
  show "DecodeOP_N op = Some n"
  proof (cases "n = 0")
    case True
    then show ?thesis using e by (auto simp: DecodeOP_N_def EncodeOP_N_def)
  next
    case False
    then have "op = word_of_int (uint OP_1 + n - 1)" using e n unfolding EncodeOP_N_def by simp
    then have "uint op = take_bit 8 (uint OP_1 + n - 1)" by (simp only: uint_word_of_int_eq) simp
    also have "\<dots> = uint OP_1 + n - 1" using n by (intro take_bit_int_eq_self) simp_all
    finally have op: "uint op = 80 + n" by simp
    then have "op \<noteq> OP_0" "op \<ge> OP_1" "op \<le> OP_16" using n False by (auto simp: word_le_def)
    then show ?thesis using op by (simp add: DecodeOP_N_def)
  qed
qed

lemma IsPayToScriptHash_form:
  "IsPayToScriptHash script \<longleftrightarrow> (\<exists>h. length h = 20 \<and> script = OP_HASH160 # 0x14 # h @ [OP_EQUAL])"
proof
  assume p: "IsPayToScriptHash script"
  then have len: "length script = 23" by (simp add: IsPayToScriptHash_def)
  then obtain a b t where s: "script = a # b # t"
    by (cases script; cases "tl script") auto
  with len have t: "length t = 21" by simp
  then have "t = take 20 t @ [t ! 20]" using take_Suc_conv_app_nth [of 20 t] by simp
  moreover have "a = OP_HASH160" "b = 0x14" "t ! 20 = OP_EQUAL" using p s by (auto simp: IsPayToScriptHash_def)
  ultimately show "\<exists>h. length h = 20 \<and> script = OP_HASH160 # 0x14 # h @ [OP_EQUAL]"
    using s t by (intro exI [of _ "take 20 t"]) auto
next
  assume "\<exists>h. length h = 20 \<and> script = OP_HASH160 # 0x14 # h @ [OP_EQUAL]"
  then show "IsPayToScriptHash script" by (auto simp: IsPayToScriptHash_def nth_append)
qed

lemma IsWitnessProgram_form:
  "IsWitnessProgram script = Some (version, program) \<longleftrightarrow>
    2 \<le> length program \<and> length program \<le> 40 \<and>
    (\<exists>op. EncodeOP_N version = Some op \<and> script = op # of_nat (length program) # program)"
  (is "?l \<longleftrightarrow> ?r")
proof
  assume l: ?l
  then have len: "4 \<le> length script" "length script \<le> 42" "unat (script ! 1) + 2 = length script"
    and d: "DecodeOP_N (script ! 0) = Some version" and p: "program = drop 2 script"
    by (auto simp: IsWitnessProgram_def split: if_splits option.splits)
  then obtain a b t where s: "script = a # b # t"
    by (cases script; cases "tl script") auto
  then have "length t = unat b" using len by simp
  then have "b = of_nat (length t)" by simp
  then show ?r using s d p len by (auto simp: EncodeOP_N_DecodeOP_N)
next
  assume r: ?r
  then obtain op where op: "DecodeOP_N op = Some version" "script = op # of_nat (length program) # program"
    by (auto simp: EncodeOP_N_DecodeOP_N)
  have "unat (of_nat (length program) :: byte) = length program" using r by (simp add: unat_of_nat)
  moreover have "\<not> (op \<noteq> OP_0 \<and> (op < OP_1 \<or> op > OP_16))"
    using op(1) by (auto simp: DecodeOP_N_def split: if_splits)
  ultimately show ?l using r op by (auto simp: IsWitnessProgram_def)
qed

text \<open>
  The byte tests for the two templates describe exactly the intended scripts. A script is
  pay-to-script-hash when it is \<open>OP_HASH160\<close>, a push of twenty bytes, \<open>OP_EQUAL\<close>. A script is the
  witness program \<open>program\<close> of version \<open>version\<close> when it is the opcode of a number from 0 to 16 followed
  by one direct push of 2 to 40 bytes.
\<close>

theorem script_templates:
  "(IsPayToScriptHash script \<longleftrightarrow> (\<exists>h. length h = 20 \<and> script = OP_HASH160 # push_data h @ [OP_EQUAL])) \<and>
   (IsWitnessProgram script = Some (version, program) \<longleftrightarrow>
     2 \<le> length program \<and> length program \<le> 40 \<and>
     (\<exists>op. EncodeOP_N version = Some op \<and> script = op # push_data program))"
  by (auto simp: IsPayToScriptHash_form IsWitnessProgram_form push_data_def)

end
