(* ===== verification/SC_Transaction.thy ===== *)
theory SC_Transaction
  imports SC_Script SC_Hash
begin

text \<open>
  Transactions (\<^verbatim>\<open>primitives/transaction.h\<close>, \<^verbatim>\<open>primitives/transaction.cpp\<close>) and amounts (\<^verbatim>\<open>amount.h\<close>): the
  records, both serialization formats with and without witness data, the transaction identifiers and
  the sum of the outputs. Signed fields are HOL integers that are written in two's complement. The
  stack of a \<open>CScriptWitness\<close> is the list of its elements.
\<close>

subsection \<open>Amounts\<close>

type_synonym CAmount = int

definition CASH :: CAmount where
  [consts_defs]: "CASH = 100000000"

definition MAX_MONEY :: CAmount where
  [consts_defs]: "MAX_MONEY = 20000000 * CASH"

definition MAX_BLOCK_SERIALIZED_SIZE :: nat where
  [consts_defs]: "MAX_BLOCK_SERIALIZED_SIZE = 4000000"

definition MAX_BLOCK_WEIGHT :: nat where
  [consts_defs]: "MAX_BLOCK_WEIGHT = 4000000"

definition MAX_BLOCK_SIGOPS_COST :: int where
  [consts_defs]: "MAX_BLOCK_SIGOPS_COST = 80000"

definition CASHBASE_MATURITY :: int where
  [consts_defs]: "CASHBASE_MATURITY = 100"

definition WITNESS_SCALE_FACTOR :: nat where
  [consts_defs]: "WITNESS_SCALE_FACTOR = 4"

definition MIN_TRANSACTION_WEIGHT :: nat where
  [consts_defs]: "MIN_TRANSACTION_WEIGHT = WITNESS_SCALE_FACTOR * 60"

definition MIN_SERIALIZABLE_TRANSACTION_WEIGHT :: nat where
  [consts_defs]: "MIN_SERIALIZABLE_TRANSACTION_WEIGHT = WITNESS_SCALE_FACTOR * 10"

definition LOCKTIME_VERIFY_SEQUENCE :: u32 where
  [consts_defs]: "LOCKTIME_VERIFY_SEQUENCE = 1"

definition LOCKTIME_MEDIAN_TIME_PAST :: u32 where
  [consts_defs]: "LOCKTIME_MEDIAN_TIME_PAST = 2"

definition MoneyRange :: "CAmount \<Rightarrow> bool" where
  "MoneyRange nValue \<longleftrightarrow> nValue \<ge> 0 \<and> nValue \<le> MAX_MONEY"

subsection \<open>Records\<close>

record COutPoint =
  op_hash :: uint256
  op_n :: u32

type_synonym CScriptWitness = "bytes list"

record CTxIn =
  prevout :: COutPoint
  scriptSig :: CScript
  nSequence :: u32
  scriptWitness :: CScriptWitness

record CTxOut =
  nValue :: CAmount
  scriptPubKey :: CScript

record CMutableTransaction =
  nVersion :: int
  vin :: "CTxIn list"
  vout :: "CTxOut list"
  nLockTime :: u32

record CTransaction = CMutableTransaction +
  tx_hash :: uint256

definition uint256_null :: uint256 where
  "uint256_null = replicate 32 0"

definition COutPoint_null :: COutPoint where
  "COutPoint_null = \<lparr>op_hash = uint256_null, op_n = - 1\<rparr>"

definition COutPoint_IsNull :: "COutPoint \<Rightarrow> bool" where
  "COutPoint_IsNull p \<longleftrightarrow> op_hash p = uint256_null \<and> op_n p = - 1"

definition SEQUENCE_FINAL :: u32 where
  [consts_defs]: "SEQUENCE_FINAL = 0xffffffff"

definition SEQUENCE_LOCKTIME_DISABLE_FLAG :: u32 where
  [consts_defs]: "SEQUENCE_LOCKTIME_DISABLE_FLAG = 0x80000000"

definition SEQUENCE_LOCKTIME_TYPE_FLAG :: u32 where
  [consts_defs]: "SEQUENCE_LOCKTIME_TYPE_FLAG = 0x00400000"

definition SEQUENCE_LOCKTIME_MASK :: u32 where
  [consts_defs]: "SEQUENCE_LOCKTIME_MASK = 0x0000ffff"

abbreviation SEQUENCE_LOCKTIME_GRANULARITY :: nat where
  "SEQUENCE_LOCKTIME_GRANULARITY \<equiv> 9"

definition CTxOut_null :: CTxOut where
  "CTxOut_null = \<lparr>nValue = - 1, scriptPubKey = []\<rparr>"

definition CTxOut_IsNull :: "CTxOut \<Rightarrow> bool" where
  "CTxOut_IsNull txout \<longleftrightarrow> nValue txout = - 1"

definition CScriptWitness_IsNull :: "CScriptWitness \<Rightarrow> bool" where
  "CScriptWitness_IsNull stack \<longleftrightarrow> stack = []"

definition HasWitness :: "('a) CMutableTransaction_scheme \<Rightarrow> bool" where
  "HasWitness tx \<longleftrightarrow> list_ex (\<lambda>txin. \<not> CScriptWitness_IsNull (scriptWitness txin)) (vin tx)"

definition IsCashBase :: "('a) CMutableTransaction_scheme \<Rightarrow> bool" where
  "IsCashBase tx \<longleftrightarrow> length (vin tx) = 1 \<and> COutPoint_IsNull (prevout (vin tx ! 0))"

definition CTransaction_IsNull :: "('a) CMutableTransaction_scheme \<Rightarrow> bool" where
  "CTransaction_IsNull tx \<longleftrightarrow> vin tx = [] \<and> vout tx = []"

subsection \<open>Serialization\<close>

definition ser_int32 :: "int \<Rightarrow> bytes" where
  "ser_int32 a = ser_writedata32 (of_int a)"

definition ser_int64 :: "int \<Rightarrow> bytes" where
  "ser_int64 a = ser_writedata64 (of_int a)"

definition unser_int32 :: "int reader" where
  "unser_int32 = reader_bind ser_readdata32 (\<lambda>a. reader_return (sint a))"

definition unser_int64 :: "int reader" where
  "unser_int64 = reader_bind ser_readdata64 (\<lambda>a. reader_return (sint a))"

definition Serialize_COutPoint :: "COutPoint \<Rightarrow> bytes" where
  "Serialize_COutPoint p = op_hash p @ ser_writedata32 (op_n p)"

definition Unserialize_COutPoint :: "COutPoint reader" where
  "Unserialize_COutPoint =
    reader_bind (stream_read 32) (\<lambda>h. reader_bind ser_readdata32 (\<lambda>i.
      reader_return \<lparr>op_hash = h, op_n = i\<rparr>))"

definition Serialize_CTxIn :: "CTxIn \<Rightarrow> bytes" where
  "Serialize_CTxIn txin =
    Serialize_COutPoint (prevout txin) @ Serialize_bytes (scriptSig txin) @ ser_writedata32 (nSequence txin)"

definition Unserialize_CTxIn :: "CTxIn reader" where
  "Unserialize_CTxIn =
    reader_bind Unserialize_COutPoint (\<lambda>p. reader_bind Unserialize_bytes (\<lambda>sig. reader_bind ser_readdata32 (\<lambda>q.
      reader_return \<lparr>prevout = p, scriptSig = sig, nSequence = q, scriptWitness = []\<rparr>)))"

definition Serialize_CTxOut :: "CTxOut \<Rightarrow> bytes" where
  "Serialize_CTxOut txout = ser_int64 (nValue txout) @ Serialize_bytes (scriptPubKey txout)"

definition Unserialize_CTxOut :: "CTxOut reader" where
  "Unserialize_CTxOut =
    reader_bind unser_int64 (\<lambda>v. reader_bind Unserialize_bytes (\<lambda>spk.
      reader_return \<lparr>nValue = v, scriptPubKey = spk\<rparr>))"

definition SerializeTransaction :: "bool \<Rightarrow> ('a) CMutableTransaction_scheme \<Rightarrow> bytes" where
  "SerializeTransaction fAllowWitness tx =
    (let flags = fAllowWitness \<and> HasWitness tx in
     ser_int32 (nVersion tx) @
     (if flags then Serialize_vector Serialize_CTxIn [] @ ser_writedata8 1 else []) @
     Serialize_vector Serialize_CTxIn (vin tx) @
     Serialize_vector Serialize_CTxOut (vout tx) @
     (if flags then concat (map (\<lambda>txin. Serialize_vector Serialize_bytes (scriptWitness txin)) (vin tx)) else []) @
     ser_writedata32 (nLockTime tx))"

fun read_witnesses :: "CTxIn list \<Rightarrow> CTxIn list reader" where
  "read_witnesses [] s = Inr ([], s)"
| "read_witnesses (txin # txins) s =
    (case Unserialize_vector Unserialize_bytes s of Inl e \<Rightarrow> Inl e
     | Inr (stack, s') \<Rightarrow> (case read_witnesses txins s' of Inl e \<Rightarrow> Inl e
         | Inr (rest, s'') \<Rightarrow> Inr (txin\<lparr>scriptWitness := stack\<rparr> # rest, s'')))"

definition read_tx_body :: "bool \<Rightarrow> CTxIn list \<Rightarrow> (byte \<times> CTxIn list \<times> CTxOut list) reader" where
  "read_tx_body fAllowWitness ins =
    (if length ins = 0 \<and> fAllowWitness then
       reader_bind ser_readdata8 (\<lambda>flags.
         if flags \<noteq> 0 then
           reader_bind (Unserialize_vector Unserialize_CTxIn) (\<lambda>ins.
           reader_bind (Unserialize_vector Unserialize_CTxOut) (\<lambda>outs. reader_return (flags, ins, outs)))
         else reader_return (flags, ins, []))
     else reader_bind (Unserialize_vector Unserialize_CTxOut) (\<lambda>outs. reader_return (0, ins, outs)))"

definition read_tx_witness :: "bool \<Rightarrow> byte \<Rightarrow> CTxIn list \<Rightarrow> (byte \<times> CTxIn list) reader" where
  "read_tx_witness fAllowWitness flags ins =
    (if flags AND 1 \<noteq> 0 \<and> fAllowWitness then
       reader_bind (read_witnesses ins) (\<lambda>ins. reader_return (flags XOR 1, ins))
     else reader_return (flags, ins))"

definition UnserializeTransaction :: "bool \<Rightarrow> CMutableTransaction reader" where
  "UnserializeTransaction fAllowWitness =
    reader_bind unser_int32 (\<lambda>ver.
    reader_bind (Unserialize_vector Unserialize_CTxIn) (\<lambda>ins.
    reader_bind (read_tx_body fAllowWitness ins) (\<lambda>(flags, ins, outs).
    reader_bind (read_tx_witness fAllowWitness flags ins) (\<lambda>(flags, ins).
    if flags \<noteq> 0 then reader_throw UnknownTransactionData
    else reader_bind ser_readdata32 (\<lambda>lt.
      reader_return \<lparr>nVersion = ver, vin = ins, vout = outs, nLockTime = lt\<rparr>)))))"

subsection \<open>Identifiers and values\<close>

definition ComputeHash :: "('a) CMutableTransaction_scheme \<Rightarrow> uint256" where
  "ComputeHash tx = SerializeHash [SerializeTransaction False tx]"

definition CTransaction_of :: "CMutableTransaction \<Rightarrow> CTransaction" where
  "CTransaction_of tx = CMutableTransaction.extend tx (CTransaction.fields (ComputeHash tx))"

definition GetWitnessHash :: "CTransaction \<Rightarrow> uint256" where
  "GetWitnessHash tx =
    (if \<not> HasWitness tx then tx_hash tx else SerializeHash [SerializeTransaction True tx])"

fun sum_outputs :: "CTxOut list \<Rightarrow> CAmount \<Rightarrow> CAmount option" where
  "sum_outputs [] nValueOut = Some nValueOut"
| "sum_outputs (tx_out # outs) nValueOut =
    (let nValueOut = s64 (nValueOut + nValue tx_out) in
     if \<not> MoneyRange (nValue tx_out) \<or> \<not> MoneyRange nValueOut then None else sum_outputs outs nValueOut)"

definition GetValueOut :: "('a) CMutableTransaction_scheme \<Rightarrow> CAmount option" where
  "GetValueOut tx = sum_outputs (vout tx) 0"

definition GetTotalSize :: "('a) CMutableTransaction_scheme \<Rightarrow> nat" where
  "GetTotalSize tx = length (SerializeTransaction True tx)"

subsection \<open>The codecs\<close>

lemma sint_u32: "in_s32 (sint (a :: u32))"
  using sint_greater_eq [of a] sint_less [of a] by (simp add: in_s32_def)

lemma sint_u64: "in_s64 (sint (a :: u64))"
  using sint_greater_eq [of a] sint_less [of a] by (simp add: in_s64_def)

lemma sint_of_int_u32: "in_s32 i \<Longrightarrow> sint (of_int i :: u32) = i"
  using s32_id [of i] by (simp add: s32_def signed_of_int)

lemma sint_of_int_u64: "in_s64 i \<Longrightarrow> sint (of_int i :: u64) = i"
  using s64_id [of i] by (simp add: s64_def signed_of_int)

lemma unser_int32_Inr: "unser_int32 s = Inr (i, r) \<longleftrightarrow> in_s32 i \<and> s = ser_int32 i @ r"
  by (auto simp: unser_int32_def ser_int32_def reader_bind_Inr ser_readdata_Inr sint_u32 sint_of_int_u32)

lemma unser_int64_Inr: "unser_int64 s = Inr (i, r) \<longleftrightarrow> in_s64 i \<and> s = ser_int64 i @ r"
  by (auto simp: unser_int64_def ser_int64_def reader_bind_Inr ser_readdata_Inr sint_u64 sint_of_int_u64)

interpretation int32_codec: canonical_codec ser_int32 unser_int32 in_s32
  by unfold_locales (auto simp: unser_int32_Inr)

interpretation int64_codec: canonical_codec ser_int64 unser_int64 in_s64
  by unfold_locales (auto simp: unser_int64_Inr)

lemmas reader_Inr = reader_bind_Inr ser_readdata_Inr stream_read_Inr vch_codec.unser_Inr
  unser_int32_Inr unser_int64_Inr

definition wf_COutPoint :: "COutPoint \<Rightarrow> bool" where
  "wf_COutPoint p \<longleftrightarrow> length (op_hash p) = 32"

definition wf_CTxIn :: "CTxIn \<Rightarrow> bool" where
  "wf_CTxIn txin \<longleftrightarrow> wf_COutPoint (prevout txin) \<and> size_ok (scriptSig txin)"

definition wf_CTxOut :: "CTxOut \<Rightarrow> bool" where
  "wf_CTxOut txout \<longleftrightarrow> in_s64 (nValue txout) \<and> size_ok (scriptPubKey txout)"

definition wf_witness :: "CScriptWitness \<Rightarrow> bool" where
  "wf_witness stack \<longleftrightarrow> size_ok stack \<and> list_all size_ok stack"

lemma Unserialize_COutPoint_Inr:
  "Unserialize_COutPoint s = Inr (p, r) \<longleftrightarrow> wf_COutPoint p \<and> s = Serialize_COutPoint p @ r"
  by (cases p) (auto simp: Unserialize_COutPoint_def Serialize_COutPoint_def reader_Inr wf_COutPoint_def)

interpretation outpoint_codec: canonical_codec Serialize_COutPoint Unserialize_COutPoint wf_COutPoint
  by unfold_locales (auto simp: Unserialize_COutPoint_Inr)

lemma Unserialize_CTxIn_Inr:
  "Unserialize_CTxIn s = Inr (t, r) \<longleftrightarrow>
    (wf_CTxIn t \<and> scriptWitness t = []) \<and> s = Serialize_CTxIn t @ r"
  by (cases t) (auto simp: Unserialize_CTxIn_def Serialize_CTxIn_def reader_Inr outpoint_codec.unser_Inr wf_CTxIn_def)

interpretation txin_codec: canonical_codec Serialize_CTxIn Unserialize_CTxIn
  "\<lambda>t. wf_CTxIn t \<and> scriptWitness t = []"
  by unfold_locales (auto simp: Unserialize_CTxIn_Inr)

lemma Unserialize_CTxOut_Inr:
  "Unserialize_CTxOut s = Inr (t, r) \<longleftrightarrow> wf_CTxOut t \<and> s = Serialize_CTxOut t @ r"
  by (cases t) (auto simp: Unserialize_CTxOut_def Serialize_CTxOut_def reader_Inr wf_CTxOut_def)

interpretation txout_codec: canonical_codec Serialize_CTxOut Unserialize_CTxOut wf_CTxOut
  by unfold_locales (auto simp: Unserialize_CTxOut_Inr)

interpretation vin_codec: canonical_codec "Serialize_vector Serialize_CTxIn" "Unserialize_vector Unserialize_CTxIn"
  "\<lambda>v. size_ok v \<and> list_all (\<lambda>t. wf_CTxIn t \<and> scriptWitness t = []) v"
  by (rule txin_codec.vector_codec)

interpretation vout_codec: canonical_codec "Serialize_vector Serialize_CTxOut" "Unserialize_vector Unserialize_CTxOut"
  "\<lambda>v. size_ok v \<and> list_all wf_CTxOut v"
  by (rule txout_codec.vector_codec)

text \<open>The witness stacks follow the inputs one by one.\<close>

definition strip :: "CTxIn \<Rightarrow> CTxIn" where
  "strip t = t\<lparr>scriptWitness := []\<rparr>"

lemma Serialize_CTxIn_strip [simp]: "Serialize_CTxIn (strip t) = Serialize_CTxIn t"
  by (simp add: Serialize_CTxIn_def strip_def)

lemma Serialize_vin_strip [simp]:
  "Serialize_vector Serialize_CTxIn (map strip v) = Serialize_vector Serialize_CTxIn v"
  by (simp add: Serialize_vector_def o_def)

lemma read_witnesses_Inr:
  "read_witnesses ins s = Inr (outs, r) \<longleftrightarrow>
    map strip outs = map strip ins \<and> list_all (\<lambda>t. wf_witness (scriptWitness t)) outs \<and>
    s = concat (map (\<lambda>t. Serialize_vector Serialize_bytes (scriptWitness t)) outs) @ r"
proof (induction ins arbitrary: s outs)
  case Nil
  then show ?case by auto
next
  case (Cons t ins)
  have step: "read_witnesses (t # ins) s = Inr (outs, r) \<longleftrightarrow>
    (\<exists>st s' rest. Unserialize_vector Unserialize_bytes s = Inr (st, s') \<and> read_witnesses ins s' = Inr (rest, r) \<and>
      outs = t\<lparr>scriptWitness := st\<rparr> # rest)"
    by (auto split: sum.split prod.split)
  have upd: "strip a = strip t \<longleftrightarrow> a = t\<lparr>scriptWitness := scriptWitness a\<rparr>" for a
    by (cases a; cases t) (auto simp: strip_def)
  show ?case
    unfolding step vch_vector_codec.unser_Inr Cons.IH
    by (cases outs) (auto simp: upd wf_witness_def, (metis CTxIn.select_convs(4) CTxIn.surjective CTxIn.update_convs(4) upd)?)
qed

subsection \<open>Round trip of transactions\<close>

definition wf_tx :: "('a) CMutableTransaction_scheme \<Rightarrow> bool" where
  "wf_tx tx \<longleftrightarrow> in_s32 (nVersion tx) \<and> size_ok (vin tx) \<and> list_all wf_CTxIn (vin tx) \<and>
    list_all (\<lambda>t. wf_witness (scriptWitness t)) (vin tx) \<and> size_ok (vout tx) \<and> list_all wf_CTxOut (vout tx)"

lemma not_HasWitness_strip: "\<not> HasWitness tx \<Longrightarrow> map strip (vin tx) = vin tx"
  by (auto simp: HasWitness_def CScriptWitness_IsNull_def list_ex_iff strip_def intro!: map_idI)

lemma not_HasWitness_iff: "\<not> HasWitness tx \<longleftrightarrow> list_all (\<lambda>t. scriptWitness t = []) (vin tx)"
  by (auto simp: HasWitness_def CScriptWitness_IsNull_def list_ex_iff list_all_iff)

lemma wf_strip: "list_all wf_CTxIn v \<Longrightarrow>
  list_all (\<lambda>t. wf_CTxIn t \<and> scriptWitness t = []) (map strip v)"
  by (induction v) (auto simp: strip_def wf_CTxIn_def)

lemma size_ok_map [simp]: "size_ok (map f v) = size_ok v" and size_ok_Nil [simp]: "size_ok []"
  by (simp_all add: size_ok_def)

lemma Serialize_empty: "Serialize_vector ser [] = [0]"
  by (simp add: Serialize_vector_def WriteCompactSize_def ser_writedata8_def)

lemma read_vin: "size_ok v \<Longrightarrow> list_all wf_CTxIn v \<Longrightarrow>
  Unserialize_vector Unserialize_CTxIn (Serialize_vector Serialize_CTxIn v @ r) = Inr (map strip v, r)"
  using vin_codec.roundtrip [of "map strip v" r] wf_strip [of v] by simp

lemma read_vin_empty: "Unserialize_vector Unserialize_CTxIn (0 # r) = Inr ([], r)"
  using read_vin [of "[]" r] by (simp add: Serialize_empty)

lemma read_witnesses_roundtrip:
  "list_all (\<lambda>t. wf_witness (scriptWitness t)) v \<Longrightarrow>
   read_witnesses (map strip v)
     (concat (map (\<lambda>t. Serialize_vector Serialize_bytes (scriptWitness t)) v) @ r) = Inr (v, r)"
  unfolding read_witnesses_Inr by (simp add: strip_def)

lemmas tx_roundtrips = int32_codec.roundtrip read_vin read_vin_empty vout_codec.roundtrip read_witnesses_roundtrip
  u32_codec.roundtrip

lemma UnserializeTransaction_roundtrip:
  assumes "wf_tx tx" and "fAllow \<Longrightarrow> vin tx \<noteq> [] \<or> vout tx = []"
    and "\<not> fAllow \<Longrightarrow> \<not> HasWitness tx"
  shows "UnserializeTransaction fAllow (SerializeTransaction fAllow tx @ r) = Inr (tx, r)"
proof -
  have eta: "\<lparr>nVersion = nVersion tx, vin = vin tx, vout = vout tx, nLockTime = nLockTime tx\<rparr> = tx" by simp
  consider (ext) "fAllow" "HasWitness tx" | (empty) "fAllow" "\<not> HasWitness tx" "vin tx = []" "vout tx = []"
    | (basic) "\<not> HasWitness tx" "vin tx = [] \<Longrightarrow> \<not> fAllow" using assms(2,3) by blast
  then show ?thesis
  proof cases
    case ext
    then have "vin tx \<noteq> []" by (auto simp: HasWitness_def)
    then show ?thesis using ext assms(1)
      by (simp add: SerializeTransaction_def UnserializeTransaction_def read_tx_body_def
          read_tx_witness_def wf_tx_def tx_roundtrips Serialize_empty
          ser_writedata8_def eta)
  next
    case empty
    then show ?thesis using assms(1)
      by (simp add: SerializeTransaction_def UnserializeTransaction_def read_tx_body_def
          read_tx_witness_def wf_tx_def tx_roundtrips Serialize_empty eta)
  next
    case basic
    then show ?thesis using assms(1) not_HasWitness_strip [OF basic(1)]
      by (auto simp add: SerializeTransaction_def UnserializeTransaction_def read_tx_body_def
          read_tx_witness_def wf_tx_def tx_roundtrips eta)
  qed
qed

text \<open>What is read is well formed; and reading witness data that is not empty pins the bytes down.\<close>

lemma strip_eq_wf: "strip a = strip b \<Longrightarrow> wf_CTxIn b \<Longrightarrow> wf_CTxIn a"
  by (cases a; cases b) (simp add: strip_def wf_CTxIn_def)

lemma list_all_strip_wf: "map strip outs = map strip ins \<Longrightarrow> list_all wf_CTxIn ins \<Longrightarrow> list_all wf_CTxIn outs"
  by (induction outs arbitrary: ins) (auto simp: Cons_eq_map_conv intro: strip_eq_wf)

lemma list_all_conj: "list_all (\<lambda>x. P x \<and> Q x) xs \<longleftrightarrow> list_all P xs \<and> list_all Q xs"
  by (induction xs) auto

lemma read_witnesses_wf:
  assumes "read_witnesses ins s = Inr (outs, r)" and "size_ok ins"
    and "list_all (\<lambda>t. wf_CTxIn t \<and> scriptWitness t = []) ins"
  shows "size_ok outs \<and> list_all wf_CTxIn outs \<and> list_all (\<lambda>t. wf_witness (scriptWitness t)) outs \<and>
    Serialize_vector Serialize_CTxIn outs = Serialize_vector Serialize_CTxIn ins \<and>
    s = concat (map (\<lambda>t. Serialize_vector Serialize_bytes (scriptWitness t)) outs) @ r"
proof -
  have m: "map strip outs = map strip ins" using assms(1) by (simp add: read_witnesses_Inr)
  then have "length outs = length ins" by (metis length_map)
  moreover have "Serialize_vector Serialize_CTxIn outs = Serialize_vector Serialize_CTxIn ins"
    using m by (metis Serialize_vin_strip)
  ultimately show ?thesis
    using assms list_all_strip_wf [OF m] by (auto simp: read_witnesses_Inr size_ok_def list_all_conj)
qed

lemma no_witness_wf:
  "list_all (\<lambda>t. wf_CTxIn t \<and> scriptWitness t = []) ins \<Longrightarrow>
   list_all wf_CTxIn ins \<and> list_all (\<lambda>t. wf_witness (scriptWitness t)) ins \<and>
   list_all (\<lambda>t. scriptWitness t = []) ins"
  by (induction ins) (auto simp: wf_witness_def)

lemma byte_flags: "(flags :: byte) XOR 1 = 0 \<longleftrightarrow> flags = 1"
proof
  assume "flags XOR 1 = 0"
  then have "(flags XOR 1) XOR 1 = 0 XOR 1" by (rule arg_cong)
  then show "flags = 1" by (simp only: xor.assoc xor_self_eq xor.right_neutral xor.left_neutral)
qed simp

lemma UnserializeTransaction_canonical:
  assumes "UnserializeTransaction fAllow s = Inr (tx, r)"
  shows "wf_tx tx \<and> (HasWitness tx \<longrightarrow> s = SerializeTransaction fAllow tx @ r)"
proof -
  from assms obtain s0 ins0 s1 flags ins outs s2 flags' ins' s3 where
    ver: "in_s32 (nVersion tx)" "s = ser_int32 (nVersion tx) @ s0"
    and in0: "Unserialize_vector Unserialize_CTxIn s0 = Inr (ins0, s1)"
    and body: "read_tx_body fAllow ins0 s1 = Inr ((flags, ins, outs), s2)"
    and wit: "read_tx_witness fAllow flags ins s2 = Inr ((flags', ins'), s3)"
    and fin: "flags' = 0" "s3 = ser_writedata32 (nLockTime tx) @ r" "vin tx = ins'" "vout tx = outs"
    by (auto simp: UnserializeTransaction_def reader_Inr split: if_splits)
  have ins0: "size_ok ins0" "list_all (\<lambda>t. wf_CTxIn t \<and> scriptWitness t = []) ins0"
    and s0: "s0 = Serialize_vector Serialize_CTxIn ins0 @ s1"
    using in0 by (auto simp: vin_codec.unser_Inr)
  show ?thesis
  proof (cases "flags = 0")
    case True
    then have i: "ins = ins0" "ins' = ins0" "size_ok outs" "list_all wf_CTxOut outs"
      using body wit by (auto simp: read_tx_body_def read_tx_witness_def reader_Inr vout_codec.unser_Inr split: if_splits)
    then have "\<not> HasWitness tx" using ins0 fin no_witness_wf by (simp add: not_HasWitness_iff)
    then show ?thesis using ver ins0 i fin no_witness_wf [of ins0] by (simp add: wf_tx_def)
  next
    case False
    then have ext: "ins0 = []" "fAllow" "s1 = ser_writedata8 flags @ Serialize_vector Serialize_CTxIn ins @
        Serialize_vector Serialize_CTxOut outs @ s2"
      and i: "size_ok ins" "list_all (\<lambda>t. wf_CTxIn t \<and> scriptWitness t = []) ins" "size_ok outs" "list_all wf_CTxOut outs"
      using body by (auto simp: read_tx_body_def reader_Inr vin_codec.unser_Inr vout_codec.unser_Inr split: if_splits)
    have flags: "flags = 1" "read_witnesses ins s2 = Inr (ins', s3)"
      using wit fin False by (auto simp: read_tx_witness_def reader_Inr byte_flags split: if_splits)
    note w = read_witnesses_wf [OF flags(2) i(1,2)]
    have "wf_tx tx" using ver i w fin by (simp add: wf_tx_def)
    moreover have "s = SerializeTransaction fAllow tx @ r" if "HasWitness tx"
      using that ver ext w fin flags s0 by (simp add: SerializeTransaction_def)
    ultimately show ?thesis by blast
  qed
qed

definition example_tx :: CMutableTransaction where
  "example_tx = \<lparr>nVersion = 2,
    vin = [\<lparr>prevout = \<lparr>op_hash = replicate 32 7, op_n = 1\<rparr>, scriptSig = [OP_0], nSequence = SEQUENCE_FINAL,
             scriptWitness = [[1, 2], []]\<rparr>],
    vout = [\<lparr>nValue = 5 * CASH, scriptPubKey = [OP_1]\<rparr>], nLockTime = 0\<rparr>"

lemma example_tx_wf: "wf_tx example_tx" "vin example_tx \<noteq> []"
  by (simp_all add: example_tx_def wf_tx_def wf_CTxIn_def wf_COutPoint_def wf_CTxOut_def wf_witness_def
      size_ok_def in_s32_def in_s64_def CASH_def)



text \<open>
  C24: every transaction the reader returns is well formed, and when it carries witness data the bytes
  read are exactly its serialization: witness data cannot be encoded in two ways.
\<close>

theorem transaction_read_exact:
  assumes "UnserializeTransaction fAllowWitness s = Inr (tx, r)"
  shows "wf_tx tx \<and> (HasWitness tx \<longrightarrow> s = SerializeTransaction fAllowWitness tx @ r)"
  using assms by (rule UnserializeTransaction_canonical)

theorem transaction_read_exact_witness:
  "UnserializeTransaction True (SerializeTransaction True example_tx @ []) = Inr (example_tx, []) \<and>
   HasWitness example_tx \<and> wf_tx example_tx"
proof -
  have u: "UnserializeTransaction True (SerializeTransaction True example_tx @ []) = Inr (example_tx, [])"
    by (rule UnserializeTransaction_roundtrip) (simp_all add: example_tx_wf)
  have "HasWitness example_tx" by (simp add: example_tx_def HasWitness_def CScriptWitness_IsNull_def)
  with u transaction_read_exact [OF u] show ?thesis by blast
qed

text \<open>The basic format determines everything but the witnesses.\<close>

definition strip_tx :: "CMutableTransaction \<Rightarrow> CMutableTransaction" where
  "strip_tx tx = tx\<lparr>vin := map strip (vin tx)\<rparr>"

lemma Serialize_strip_tx: "SerializeTransaction False (strip_tx tx) = SerializeTransaction False tx"
  by (simp add: SerializeTransaction_def strip_tx_def)

lemma read_strip_tx:
  assumes "wf_tx tx"
  shows "UnserializeTransaction False (SerializeTransaction False tx @ r) = Inr (strip_tx tx, r)"
proof -
  have "wf_tx (strip_tx tx)" "\<not> HasWitness (strip_tx tx)"
    using assms wf_strip [of "vin tx"] no_witness_wf [of "map strip (vin tx)"]
    by (simp_all add: strip_tx_def wf_tx_def not_HasWitness_iff)
  then show ?thesis
    using UnserializeTransaction_roundtrip [of "strip_tx tx" False r] by (simp add: Serialize_strip_tx)
qed

lemma Serialize_basic_inject:
  assumes "wf_tx a" and "wf_tx b"
  shows "SerializeTransaction False a = SerializeTransaction False b \<longleftrightarrow> strip_tx a = strip_tx b"
  using read_strip_tx [OF assms(1), of "[]"] read_strip_tx [OF assms(2), of "[]"] Serialize_strip_tx [of a]
    Serialize_strip_tx [of b] by (metis Inr_inject prod.inject)

text \<open>
  The transaction identifier is the double SHA-256 of the basic format. Two well-formed transactions
  hash the same bytes exactly when they agree in everything but their witnesses: changing a witness
  never changes the identifier, and any other change changes the bytes that are hashed.
\<close>

theorem txid_commits:
  assumes "wf_tx a" and "wf_tx b"
  shows "tx_hash (CTransaction_of a) = Hash (SerializeTransaction False a) \<and>
    (SerializeTransaction False a = SerializeTransaction False b \<longleftrightarrow> strip_tx a = strip_tx b) \<and>
    (strip_tx a = strip_tx b \<longrightarrow> tx_hash (CTransaction_of a) = tx_hash (CTransaction_of b))"
proof -
  have h: "tx_hash (CTransaction_of x) = Hash (SerializeTransaction False x)" for x
    by (simp add: CTransaction_of_def ComputeHash_def SerializeHash_eq CMutableTransaction.defs CTransaction.defs)
  show ?thesis using Serialize_basic_inject [OF assms] h by metis
qed

theorem txid_commits_witness:
  "wf_tx example_tx \<and> wf_tx (strip_tx example_tx) \<and> example_tx \<noteq> strip_tx example_tx \<and>
   tx_hash (CTransaction_of example_tx) = tx_hash (CTransaction_of (strip_tx example_tx))"
proof -
  have wf: "wf_tx (strip_tx example_tx)"
    by (simp add: strip_tx_def strip_def example_tx_def wf_tx_def wf_CTxIn_def wf_COutPoint_def wf_CTxOut_def
        wf_witness_def size_ok_def in_s32_def in_s64_def CASH_def)
  have "strip_tx example_tx = strip_tx (strip_tx example_tx)" by (simp add: strip_tx_def strip_def)
  moreover have "example_tx \<noteq> strip_tx example_tx" by (simp add: example_tx_def strip_tx_def strip_def)
  ultimately show ?thesis using txid_commits [OF example_tx_wf(1) wf] wf example_tx_wf(1) by blast
qed

subsection \<open>The sum of the outputs\<close>

lemma MoneyRange_s64: "MoneyRange v \<Longrightarrow> MoneyRange w \<Longrightarrow> s64 (v + w) = v + w"
  by (intro s64_id) (simp add: MoneyRange_def in_s64_def MAX_MONEY_def CASH_def)

lemma sum_outputs_Some:
  "MoneyRange acc \<Longrightarrow> sum_outputs outs acc = Some v \<longleftrightarrow>
    list_all (\<lambda>t. MoneyRange (nValue t)) outs \<and> v = acc + sum_list (map nValue outs) \<and> v \<le> MAX_MONEY"
proof (induction outs arbitrary: acc)
  case Nil
  then show ?case by (auto simp: MoneyRange_def)
next
  case (Cons t outs)
  have pos: "list_all (\<lambda>t. MoneyRange (nValue t)) outs \<Longrightarrow> 0 \<le> sum_list (map nValue outs)"
    by (induction outs) (auto simp: MoneyRange_def)
  show ?case
  proof (cases "MoneyRange (nValue t)")
    case True
    then show ?thesis
      using Cons.IH [of "acc + nValue t"] Cons.prems MoneyRange_s64 [OF Cons.prems True] pos
      by (auto simp: Let_def MoneyRange_def)
  qed (simp add: Let_def)
qed

text \<open>
  \<open>GetValueOut\<close> returns a value exactly when every output is in the money range and so is their sum,
  and then it is the mathematical sum: the 64-bit accumulation never wraps unnoticed. In every other
  case it throws.
\<close>

theorem GetValueOut_exact:
  "GetValueOut tx = Some v \<longleftrightarrow>
    list_all (\<lambda>txout. MoneyRange (nValue txout)) (vout tx) \<and> v = sum_list (map nValue (vout tx)) \<and> v \<le> MAX_MONEY"
  using sum_outputs_Some [of 0 "vout tx" v] by (simp add: GetValueOut_def MoneyRange_def MAX_MONEY_def CASH_def)

end
