(* ===== verification/SC_Block.thy ===== *)
theory SC_Block
  imports SC_Transaction
begin

text \<open>
  Blocks (\<^verbatim>\<open>primitives/block.h\<close>, \<^verbatim>\<open>primitives/block.cpp\<close>): the header with its 80-byte wire format and its
  hash, the block, and the locator. The header is a canonical codec, so its hash commits to every field; a block is read back as it was written.
\<close>

record CBlockHeader =
  bh_nVersion :: int
  hashPrevBlock :: uint256
  hashMerkleRoot :: uint256
  bh_nTime :: u32
  bh_nBits :: u32
  bh_nNonce :: u32

record CBlock = CBlockHeader +
  vtx :: "CTransaction list"
  fChecked :: bool

definition CBlockHeader_null :: CBlockHeader where
  "CBlockHeader_null =
    \<lparr>bh_nVersion = 0, hashPrevBlock = uint256_null, hashMerkleRoot = uint256_null, bh_nTime = 0, bh_nBits = 0,
     bh_nNonce = 0\<rparr>"

definition CBlockHeader_IsNull :: "('a) CBlockHeader_scheme \<Rightarrow> bool" where
  "CBlockHeader_IsNull block \<longleftrightarrow> bh_nBits block = 0"

definition Serialize_CBlockHeader :: "('a) CBlockHeader_scheme \<Rightarrow> bytes" where
  "Serialize_CBlockHeader block =
    ser_int32 (bh_nVersion block) @ hashPrevBlock block @ hashMerkleRoot block @ ser_writedata32 (bh_nTime block) @
    ser_writedata32 (bh_nBits block) @ ser_writedata32 (bh_nNonce block)"

definition Unserialize_CBlockHeader :: "CBlockHeader reader" where
  "Unserialize_CBlockHeader =
    reader_bind unser_int32 (\<lambda>nVersion0.
    reader_bind (stream_read 32) (\<lambda>hashPrevBlock0.
    reader_bind (stream_read 32) (\<lambda>hashMerkleRoot0.
    reader_bind ser_readdata32 (\<lambda>nTime0.
    reader_bind ser_readdata32 (\<lambda>nBits0.
    reader_bind ser_readdata32 (\<lambda>nNonce0.
    reader_return
      \<lparr>bh_nVersion = nVersion0, hashPrevBlock = hashPrevBlock0, hashMerkleRoot = hashMerkleRoot0, bh_nTime = nTime0,
       bh_nBits = nBits0, bh_nNonce = nNonce0\<rparr>))))))"

text \<open>Serializing into a hash writer issues one write per field.\<close>

definition CBlockHeader_GetHash :: "('a) CBlockHeader_scheme \<Rightarrow> uint256" where
  "CBlockHeader_GetHash block =
    SerializeHash [ser_int32 (bh_nVersion block), hashPrevBlock block, hashMerkleRoot block,
      ser_writedata32 (bh_nTime block), ser_writedata32 (bh_nBits block), ser_writedata32 (bh_nNonce block)]"

definition CBlockHeader_GetBlockTime :: "('a) CBlockHeader_scheme \<Rightarrow> int" where
  "CBlockHeader_GetBlockTime block = uint (bh_nTime block)"

definition CBlock_of_header :: "CBlockHeader \<Rightarrow> CBlock" where
  "CBlock_of_header header = CBlockHeader.extend header (CBlock.fields [] False)"

definition GetBlockHeader :: "CBlock \<Rightarrow> CBlockHeader" where
  "GetBlockHeader block =
    \<lparr>bh_nVersion = bh_nVersion block, hashPrevBlock = hashPrevBlock block, hashMerkleRoot = hashMerkleRoot block,
     bh_nTime = bh_nTime block, bh_nBits = bh_nBits block, bh_nNonce = bh_nNonce block\<rparr>"

definition Serialize_CBlock :: "bool \<Rightarrow> CBlock \<Rightarrow> bytes" where
  "Serialize_CBlock fAllowWitness block =
    Serialize_CBlockHeader block @ Serialize_vector (SerializeTransaction fAllowWitness) (vtx block)"

definition Unserialize_CTransaction :: "bool \<Rightarrow> CTransaction reader" where
  "Unserialize_CTransaction fAllowWitness =
    reader_bind (UnserializeTransaction fAllowWitness) (\<lambda>tx. reader_return (CTransaction_of tx))"

definition Unserialize_CBlock :: "bool \<Rightarrow> CBlock reader" where
  "Unserialize_CBlock fAllowWitness =
    reader_bind Unserialize_CBlockHeader (\<lambda>header.
    reader_bind (Unserialize_vector (Unserialize_CTransaction fAllowWitness)) (\<lambda>vtx0.
    reader_return ((CBlock_of_header header)\<lparr>vtx := vtx0\<rparr>)))"

type_synonym CBlockLocator = "uint256 list"

definition Serialize_CBlockLocator :: "bool \<Rightarrow> int \<Rightarrow> CBlockLocator \<Rightarrow> bytes" where
  "Serialize_CBlockLocator gethash version vHave =
    (if gethash then [] else ser_int32 version) @ Serialize_vector (\<lambda>h. h) vHave"

definition Unserialize_CBlockLocator :: "bool \<Rightarrow> CBlockLocator reader" where
  "Unserialize_CBlockLocator gethash =
    reader_bind (if gethash then reader_return 0 else unser_int32) (\<lambda>nVersion0.
    Unserialize_vector (stream_read 32))"

subsection \<open>The header is a canonical codec\<close>

definition wf_CBlockHeader :: "('a) CBlockHeader_scheme \<Rightarrow> bool" where
  "wf_CBlockHeader block \<longleftrightarrow>
    in_s32 (bh_nVersion block) \<and> length (hashPrevBlock block) = 32 \<and> length (hashMerkleRoot block) = 32"

lemma Unserialize_CBlockHeader_Inr:
  "Unserialize_CBlockHeader s = Inr (b, r) \<longleftrightarrow> wf_CBlockHeader b \<and> s = Serialize_CBlockHeader b @ r"
  by (cases b) (auto simp: Unserialize_CBlockHeader_def Serialize_CBlockHeader_def reader_Inr wf_CBlockHeader_def)

interpretation header_codec: canonical_codec Serialize_CBlockHeader Unserialize_CBlockHeader wf_CBlockHeader
  by unfold_locales (auto simp: Unserialize_CBlockHeader_Inr)

lemma length_Serialize_CBlockHeader: "wf_CBlockHeader b \<Longrightarrow> length (Serialize_CBlockHeader b) = 80"
  by (simp add: Serialize_CBlockHeader_def wf_CBlockHeader_def ser_int32_def ser_writedata32_def)

lemma CBlockHeader_GetHash_eq: "CBlockHeader_GetHash b = Hash (Serialize_CBlockHeader b)"
  by (simp add: CBlockHeader_GetHash_def SerializeHash_eq Serialize_CBlockHeader_def)

lemma GetBlockHeader_simps [simp]:
  "Serialize_CBlockHeader (GetBlockHeader b) = Serialize_CBlockHeader b"
  "CBlockHeader_GetHash (GetBlockHeader b) = CBlockHeader_GetHash b"
  "wf_CBlockHeader (GetBlockHeader b) = wf_CBlockHeader b"
  by (simp_all add: GetBlockHeader_def Serialize_CBlockHeader_def CBlockHeader_GetHash_def wf_CBlockHeader_def)

subsection \<open>Blocks are read back as written\<close>

definition wf_CTransaction :: "CTransaction \<Rightarrow> bool" where
  "wf_CTransaction tx \<longleftrightarrow>
    (\<exists>mtx. tx = CTransaction_of mtx \<and> wf_tx mtx \<and> (vin mtx \<noteq> [] \<or> vout mtx = []))"

lemma SerializeTransaction_of [simp]: "SerializeTransaction f (CTransaction_of tx) = SerializeTransaction f tx"
  by (simp add: SerializeTransaction_def HasWitness_def CTransaction_of_def CMutableTransaction.defs CTransaction.defs Let_def)

interpretation tx_codec: lossless_codec "SerializeTransaction True" "Unserialize_CTransaction True" wf_CTransaction
proof
  fix tx r
  assume "wf_CTransaction tx"
  then obtain mtx where "tx = CTransaction_of mtx" "wf_tx mtx" "vin mtx \<noteq> [] \<or> vout mtx = []"
    by (auto simp: wf_CTransaction_def)
  then show "Unserialize_CTransaction True (SerializeTransaction True tx @ r) = Inr (tx, r)"
    using UnserializeTransaction_roundtrip [of mtx True r] by (simp add: Unserialize_CTransaction_def)
qed

definition wf_CBlock :: "CBlock \<Rightarrow> bool" where
  "wf_CBlock b \<longleftrightarrow> wf_CBlockHeader b \<and> size_ok (vtx b) \<and> list_all wf_CTransaction (vtx b) \<and> \<not> fChecked b"

interpretation block_codec: lossless_codec "Serialize_CBlock True" "Unserialize_CBlock True" wf_CBlock
proof
  fix b r
  assume "wf_CBlock b"
  then have w: "wf_CBlockHeader (GetBlockHeader b)" "size_ok (vtx b)" "list_all wf_CTransaction (vtx b)" "\<not> fChecked b"
    by (simp_all add: wf_CBlock_def)
  have "(CBlock_of_header (GetBlockHeader b))\<lparr>vtx := vtx b\<rparr> = b"
    using w(4) by (cases b) (simp add: CBlock_of_header_def GetBlockHeader_def CBlockHeader.defs CBlock.defs)
  then show "Unserialize_CBlock True (Serialize_CBlock True b @ r) = Inr (b, r)"
    using header_codec.roundtrip [OF w(1)] tx_codec.vector_roundtrip [OF w(2,3)]
    by (simp add: Unserialize_CBlock_def Serialize_CBlock_def)
qed

end
