(* ===== verification/SC_Merkle.thy ===== *)
theory SC_Merkle
  imports SC_Block
begin

text \<open>
  Merkle roots and branches (\<^verbatim>\<open>consensus/merkle.cpp\<close>). \<open>MerkleComputation\<close> is modelled with its array \<open>inner\<close>,
  its 32-bit leaf counter and its match bookkeeping. It is proved equal to the textbook computation that
  builds the tree level by level, through an intermediate binary counter of subtrees. A branch leads
  from its leaf to the root, and two lists of leaves of the same height with the same root and without
  the mutation flag are equal unless the hash collides inside one of the two trees.
\<close>

subsection \<open>MerkleComputation\<close>

record merkle_state =
  mk_inner :: "uint256 list"
  mk_matchlevel :: int
  mk_mutated :: bool
  mk_branch :: "uint256 list"

text \<open>
  The loop over the levels at which \<open>count\<close> has a zero bit. It occurs twice in the code; only the first
  occurrence looks for equal hashes (\<open>check\<close>). \<open>want\<close> says whether a branch is asked for. Beyond level 31 the
  code would leave its array; the loop stops there.
\<close>

function merkle_combine ::
  "bool \<Rightarrow> bool \<Rightarrow> u32 \<Rightarrow> nat \<Rightarrow> uint256 \<Rightarrow> bool \<Rightarrow> merkle_state \<Rightarrow> nat \<times> uint256 \<times> bool \<times> merkle_state" where
  "merkle_combine check want count level h matchh st =
    (if level \<ge> 32 \<or> bit count level then (level, h, matchh, st)
     else let a = mk_inner st ! level;
              matchh' = (matchh \<or> want \<and> mk_matchlevel st = int level);
              st = (if want
                    then if matchh then st\<lparr>mk_branch := mk_branch st @ [a]\<rparr>
                      else if mk_matchlevel st = int level then st\<lparr>mk_branch := mk_branch st @ [h]\<rparr>
                      else st
                    else st);
              st = (if check then st\<lparr>mk_mutated := mk_mutated st \<or> a = h\<rparr> else st) in
       merkle_combine check want count (level + 1) (Hash2 a h) matchh' st)"
  by pat_completeness auto
termination by (relation "measure (\<lambda>(_, _, _, level, _). 32 - level)") auto

definition merkle_leaf :: "bool \<Rightarrow> u32 \<Rightarrow> u32 \<Rightarrow> uint256 \<Rightarrow> merkle_state \<Rightarrow> merkle_state" where
  "merkle_leaf want branchpos count leaf st =
    (case merkle_combine True want (count + 1) 0 leaf (count = branchpos) st of (level, h, matchh, st) \<Rightarrow>
       st\<lparr>mk_inner := (mk_inner st)[level := h],
          mk_matchlevel := (if matchh then int level else mk_matchlevel st)\<rparr>)"

fun merkle_leaves :: "bool \<Rightarrow> u32 \<Rightarrow> u32 \<Rightarrow> uint256 list \<Rightarrow> merkle_state \<Rightarrow> merkle_state" where
  "merkle_leaves want branchpos count [] st = st"
| "merkle_leaves want branchpos count (leaf # leaves) st =
    merkle_leaves want branchpos (count + 1) leaves (merkle_leaf want branchpos count leaf st)"

function merkle_lowest :: "u32 \<Rightarrow> nat \<Rightarrow> nat" where
  "merkle_lowest count level = (if level \<ge> 32 \<or> bit count level then level else merkle_lowest count (level + 1))"
  by pat_completeness auto
termination by (relation "measure (\<lambda>(_, level). 32 - level)") auto

declare merkle_combine.simps [simp del] merkle_lowest.simps [simp del]

lemma merkle_combine_level: "level \<le> fst (merkle_combine check want count level h matchh st)"
proof (induction check want count level h matchh st rule: merkle_combine.induct)
  case (1 check want count level h matchh st)
  show ?case
  proof (cases "level \<ge> 32 \<or> bit count level")
    case False
    then show ?thesis
      using 1 [OF False refl refl refl refl] by (subst merkle_combine.simps) (simp add: Let_def)
  qed (subst merkle_combine.simps, simp)
qed

function merkle_sweep :: "bool \<Rightarrow> u32 \<Rightarrow> nat \<Rightarrow> uint256 \<Rightarrow> bool \<Rightarrow> merkle_state \<Rightarrow> uint256 \<times> merkle_state" where
  "merkle_sweep want count level h matchh st =
    (if level \<ge> 32 \<or> count = push_bit level 1 then (h, st)
     else let st = (if want \<and> matchh then st\<lparr>mk_branch := mk_branch st @ [h]\<rparr> else st);
              count = count + push_bit level 1 in
       case merkle_combine False want count (level + 1) (Hash2 h h) matchh st of (level, h, matchh, st) \<Rightarrow>
         merkle_sweep want count level h matchh st)"
  by pat_completeness auto
termination
proof (relation "measure (\<lambda>(_, _, level, _). 32 - level)", goal_cases)
  case (2 want count level h matchh st x xa xb y xc ya xd yb)
  then have "level + 1 \<le> xb" by (metis fst_conv merkle_combine_level)
  with 2(1) show ?case by (simp, linarith)
qed simp

declare merkle_sweep.simps [simp del]

definition MerkleComputation :: "bool \<Rightarrow> uint256 list \<Rightarrow> u32 \<Rightarrow> uint256 \<times> bool \<times> uint256 list" where
  "MerkleComputation want leaves branchpos =
    (if length leaves = 0 then (uint256_null, False, [])
     else let st = merkle_leaves want branchpos 0 leaves
                     \<lparr>mk_inner = replicate 32 uint256_null, mk_matchlevel = - 1, mk_mutated = False, mk_branch = []\<rparr>;
              count = of_nat (length leaves);
              level = merkle_lowest count 0;
              h = mk_inner st ! level in
       case merkle_sweep want count level h (mk_matchlevel st = int level) st of (h, st') \<Rightarrow>
         (h, mk_mutated st, mk_branch st'))"

definition ComputeMerkleRoot :: "uint256 list \<Rightarrow> uint256 \<times> bool" where
  "ComputeMerkleRoot leaves = (case MerkleComputation False leaves (- 1) of (root, mutated, _) \<Rightarrow> (root, mutated))"

definition ComputeMerkleBranch :: "uint256 list \<Rightarrow> u32 \<Rightarrow> uint256 list" where
  "ComputeMerkleBranch leaves position = (case MerkleComputation True leaves position of (_, _, branch) \<Rightarrow> branch)"

fun ComputeMerkleRootFromBranch :: "uint256 \<Rightarrow> uint256 list \<Rightarrow> u32 \<Rightarrow> uint256" where
  "ComputeMerkleRootFromBranch hash [] nIndex = hash"
| "ComputeMerkleRootFromBranch hash (it # vMerkleBranch) nIndex =
    ComputeMerkleRootFromBranch (if nIndex AND 1 \<noteq> 0 then Hash2 it hash else Hash2 hash it) vMerkleBranch
      (drop_bit 1 nIndex)"

definition BlockMerkleRoot :: "CBlock \<Rightarrow> uint256 \<times> bool" where
  "BlockMerkleRoot block = ComputeMerkleRoot (map tx_hash (vtx block))"

text \<open>The witness hash of the first transaction, the cashbase, counts as null; a block has a first transaction.\<close>

definition BlockWitnessMerkleRoot :: "CBlock \<Rightarrow> uint256 \<times> bool" where
  "BlockWitnessMerkleRoot block = ComputeMerkleRoot (uint256_null # map GetWitnessHash (tl (vtx block)))"

definition BlockMerkleBranch :: "CBlock \<Rightarrow> u32 \<Rightarrow> uint256 list" where
  "BlockMerkleBranch block position = ComputeMerkleBranch (map tx_hash (vtx block)) position"

subsection \<open>The textbook tree\<close>

fun merkle_level :: "uint256 list \<Rightarrow> uint256 list" where
  "merkle_level [] = []"
| "merkle_level [a] = [Hash2 a a]"
| "merkle_level (a # b # hs) = Hash2 a b # merkle_level hs"

lemma length_merkle_level: "length (merkle_level hs) = (length hs + 1) div 2"
  by (induction hs rule: merkle_level.induct) auto

function merkle_root :: "uint256 list \<Rightarrow> uint256" where
  "merkle_root hs = (case hs of [] \<Rightarrow> uint256_null | [h] \<Rightarrow> h | _ \<Rightarrow> merkle_root (merkle_level hs))"
  by pat_completeness auto
termination by (relation "measure length") (auto simp: length_merkle_level)

text \<open>Neighbours that are both complete subtrees; a level keeps the complete ones only.\<close>

fun pair_up :: "('a \<Rightarrow> 'a \<Rightarrow> 'a) \<Rightarrow> 'a list \<Rightarrow> 'a list" where
  "pair_up c (a # b # xs) = c a b # pair_up c xs"
| "pair_up c xs = []"

fun equal_pair :: "'a list \<Rightarrow> bool" where
  "equal_pair (a # b # xs) = (a = b \<or> equal_pair xs)"
| "equal_pair xs = False"

lemma length_pair_up [simp]: "length (pair_up c xs) = length xs div 2"
  by (induction c xs rule: pair_up.induct) auto

function merkle_mutated :: "uint256 list \<Rightarrow> bool" where
  "merkle_mutated hs = (if hs = [] then False else equal_pair hs \<or> merkle_mutated (pair_up Hash2 hs))"
  by pat_completeness auto
termination by (relation "measure length") auto

declare merkle_root.simps [simp del] merkle_mutated.simps [simp del]

subsection \<open>A binary counter of subtrees\<close>

text \<open>
  Bit \<open>l\<close> of the number of leaves stands for a complete subtree of \<open>2\<^sup>l\<close> leaves. Adding a leaf is an increment with
  carries, and the final sweep folds the subtrees from the lowest one up. \<open>c\<close> combines two subtrees when a
  leaf is added, \<open>d\<close> in the sweep.
\<close>

fun counter_add :: "('n \<Rightarrow> 'n \<Rightarrow> 'n) \<Rightarrow> 'n \<Rightarrow> 'n option list \<Rightarrow> 'n option list" where
  "counter_add c h [] = [Some h]"
| "counter_add c h (None # cs) = Some h # cs"
| "counter_add c h (Some a # cs) = None # counter_add c (c a h) cs"

fun counter_sweep :: "('n \<Rightarrow> 'n \<Rightarrow> 'n) \<Rightarrow> 'n option \<Rightarrow> 'n option list \<Rightarrow> 'n option" where
  "counter_sweep d p [] = p"
| "counter_sweep d None (None # cs) = counter_sweep d None cs"
| "counter_sweep d None (Some f # cs) = (if cs = [] then Some f else counter_sweep d (Some (d f f)) cs)"
| "counter_sweep d (Some p) (None # cs) = counter_sweep d (Some (d p p)) cs"
| "counter_sweep d (Some p) (Some f # cs) = counter_sweep d (Some (d f p)) cs"

text \<open>The same computation by levels: the complete subtrees and the last, incomplete one.\<close>

definition carry_up :: "('n \<Rightarrow> 'n \<Rightarrow> 'n) \<Rightarrow> 'n list \<Rightarrow> 'n option \<Rightarrow> 'n option" where
  "carry_up d fs p =
    (if even (length fs) then map_option (\<lambda>p. d p p) p
     else Some (case p of None \<Rightarrow> d (last fs) (last fs) | Some p \<Rightarrow> d (last fs) p))"

function level_tree :: "('n \<Rightarrow> 'n \<Rightarrow> 'n) \<Rightarrow> ('n \<Rightarrow> 'n \<Rightarrow> 'n) \<Rightarrow> 'n list \<Rightarrow> 'n option \<Rightarrow> 'n option" where
  "level_tree c d fs p =
    (if fs = [] then p
     else if length fs = 1 \<and> p = None then Some (hd fs)
     else level_tree c d (pair_up c fs) (carry_up d fs p))"
  by pat_completeness auto
termination by (relation "measure (\<lambda>(_, _, fs, _). length fs)") auto

declare level_tree.simps [simp del]

lemma fold_counter_add:
  "fold (counter_add c) xs (None # cs) =
    (if even (length xs) then None else Some (last xs)) # fold (counter_add c) (pair_up c xs) cs"
  by (induction c xs arbitrary: cs rule: pair_up.induct) auto

lemma fold_counter_add_Nil:
  "xs \<noteq> [] \<Longrightarrow> fold (counter_add c) xs [] =
    (if even (length xs) then None else Some (last xs)) # fold (counter_add c) (pair_up c xs) []"
  using fold_counter_add [of c xs "[]"] by (cases xs) auto

lemma fold_counter_add_eq_Nil: "fold (counter_add c) xs [] = [] \<longleftrightarrow> xs = []"
  using fold_counter_add_Nil [of xs c] by (cases "xs = []") auto

lemma counter_sweep_level_tree: "counter_sweep d p (fold (counter_add c) fs []) = level_tree c d fs p"
proof (induction c d fs p rule: level_tree.induct)
  case (1 c d fs p)
  show ?case
  proof (cases "fs = [] \<or> length fs = 1 \<and> p = None")
    case True
    then show ?thesis by (subst level_tree.simps) (auto simp: length_Suc_conv)
  next
    case False
    then have step: "level_tree c d fs p = level_tree c d (pair_up c fs) (carry_up d fs p)"
      by (subst level_tree.simps) auto
    have "pair_up c fs = [] \<longleftrightarrow> length fs div 2 = 0" by (metis length_0_conv length_pair_up)
    then have "pair_up c fs = [] \<longleftrightarrow> length fs = 1" using False by (cases fs) (auto simp: div_eq_0_iff)
    then have "counter_sweep d p (fold (counter_add c) fs []) =
        counter_sweep d (carry_up d fs p) (fold (counter_add c) (pair_up c fs) [])"
      using False by (cases p) (auto simp: fold_counter_add_Nil carry_up_def fold_counter_add_eq_Nil)
    then show ?thesis using 1 False step by simp
  qed
qed

subsection \<open>MerkleComputation runs the counter\<close>

text \<open>A subtree with its hash, the branch collected so far if it contains the wanted leaf, and the mutation flag.\<close>

record subtree =
  nd_hash :: uint256
  nd_branch :: "uint256 list option"
  nd_mut :: bool

definition join :: "subtree \<Rightarrow> subtree \<Rightarrow> subtree" where
  "join a b =
    \<lparr>nd_hash = Hash2 (nd_hash a) (nd_hash b),
     nd_branch = (case nd_branch b of
         Some br \<Rightarrow> Some (br @ [nd_hash a])
       | None \<Rightarrow> map_option (\<lambda>br. br @ [nd_hash b]) (nd_branch a)),
     nd_mut = (nd_mut a \<or> nd_mut b \<or> nd_hash a = nd_hash b)\<rparr>"

lemma nd_hash_join [simp]: "nd_hash (join a b) = Hash2 (nd_hash a) (nd_hash b)"
  by (simp add: join_def)

fun counter_shape :: "nat \<Rightarrow> 'n option list \<Rightarrow> bool" where
  "counter_shape n [] \<longleftrightarrow> n = 0"
| "counter_shape n (x # cs) \<longleftrightarrow> 0 < n \<and> (x \<noteq> None \<longleftrightarrow> odd n) \<and> counter_shape (n div 2) cs"

lemma counter_shape_add: "counter_shape n cs \<Longrightarrow> counter_shape (Suc n) (counter_add c h cs)"
proof (induction c h cs arbitrary: n rule: counter_add.induct)
  case (3 c h a cs)
  then have "counter_shape (Suc (n div 2)) (counter_add c (c a h) cs)" "odd n" by auto
  then show ?case by (simp add: odd_iff_mod_2_eq_one)
qed (auto elim: evenE)

text \<open>The entries of the counter from level \<open>L\<close> on are those of the array.\<close>

fun tracks :: "bool \<Rightarrow> nat \<Rightarrow> subtree option list \<Rightarrow> uint256 list \<Rightarrow> int \<Rightarrow> uint256 list \<Rightarrow> bool" where
  "tracks want L [] inner ml B \<longleftrightarrow> (want \<longrightarrow> ml < int L)"
| "tracks want L (None # cs) inner ml B \<longleftrightarrow> (want \<longrightarrow> ml \<noteq> int L) \<and> tracks want (Suc L) cs inner ml B"
| "tracks want L (Some nd # cs) inner ml B \<longleftrightarrow>
    inner ! L = nd_hash nd \<and> (want \<longrightarrow> nd_branch nd = (if ml = int L then Some B else None)) \<and>
    tracks want (Suc L) cs inner ml B"

lemma tracks_update: "k < L \<Longrightarrow> tracks want L cs (inner[k := h]) ml B = tracks want L cs inner ml B"
  by (induction want L cs inner ml B rule: tracks.induct) auto

lemma tracks_below: "tracks want L cs inner ml B \<Longrightarrow> ml < int L \<Longrightarrow> ml' < int L \<Longrightarrow> tracks want L cs inner ml' B'"
  by (induction want L cs inner ml B rule: tracks.induct) auto

lemma tracks_nowant: "tracks False L cs inner ml B \<Longrightarrow> tracks False L cs inner ml' B'"
  by (induction False L cs inner ml B rule: tracks.induct) auto

definition counter_mut :: "subtree option list \<Rightarrow> bool" where
  "counter_mut cs \<longleftrightarrow> list_ex (\<lambda>x. case x of None \<Rightarrow> False | Some nd \<Rightarrow> nd_mut nd) cs"

lemma counter_mut_simps [simp]:
  "counter_mut [] = False" "counter_mut (None # cs) = counter_mut cs"
  "counter_mut (Some nd # cs) = (nd_mut nd \<or> counter_mut cs)"
  by (simp_all add: counter_mut_def)

lemma div_exp_Suc: "(x::nat) div 2 ^ Suc L = x div 2 ^ L div 2"
  by (simp add: power_Suc2 div_mult2_eq del: power_Suc)

lemma bit_count:
  assumes "unat (count :: u32) div 2 ^ L = m" "0 < m"
  shows "L < 32" "bit count L = odd m"
proof -
  show "L < 32"
  proof (rule ccontr)
    assume "\<not> L < 32"
    then have "(2::nat) ^ 32 \<le> 2 ^ L" by (intro power_increasing) auto
    moreover have "unat count < 2 ^ 32" by (rule order_less_le_trans [OF unsigned_less]) simp
    ultimately have "unat count < 2 ^ L" by linarith
    then show False using assms by simp
  qed
  show "bit count L = odd m" using assms(1) by (simp add: bit_unat bit_iff_odd)
qed

lemma merkle_combine_stop:
  "bit count L \<Longrightarrow> merkle_combine check want count L h matchh st = (L, h, matchh, st)"
  by (subst merkle_combine.simps) simp

text \<open>The current subtree \<open>nd\<close> is held in \<open>h\<close>, \<open>matchh\<close> and the branch of the state.\<close>

definition current :: "bool \<Rightarrow> subtree \<Rightarrow> nat \<Rightarrow> uint256 \<Rightarrow> bool \<Rightarrow> merkle_state \<Rightarrow> bool" where
  "current want nd L h matchh st \<longleftrightarrow> nd_hash nd = h \<and>
    (want \<longrightarrow> nd_branch nd = (if matchh then Some (mk_branch st) else None) \<and> (matchh \<longrightarrow> mk_matchlevel st < int L))"

lemma merkle_combine_step:
  assumes "\<not> bit count L" "L < 32" "current want nd L h matchh st"
    and "tracks want L (Some a # cs) (mk_inner st) (mk_matchlevel st) (mk_branch st)"
  obtains matchh' st' where
    "merkle_combine check want count L h matchh st =
      merkle_combine check want count (Suc L) (Hash2 (nd_hash a) h) matchh' st'"
    "current want (join a nd) (Suc L) (Hash2 (nd_hash a) h) matchh' st'"
    "mk_inner st' = mk_inner st" "mk_matchlevel st' = mk_matchlevel st"
    "mk_mutated st' = (mk_mutated st \<or> check \<and> nd_hash a = h)" "matchh \<Longrightarrow> matchh'"
    "want \<Longrightarrow> \<not> matchh' \<Longrightarrow> mk_matchlevel st \<noteq> int L \<and> mk_branch st' = mk_branch st"
    "want \<Longrightarrow> mk_matchlevel st < 0 \<Longrightarrow> \<not> matchh \<Longrightarrow> \<not> matchh' \<and> mk_branch st' = mk_branch st"
    "tracks want (Suc L) cs (mk_inner st') (mk_matchlevel st') (mk_branch st')"
proof -
  let ?m = "matchh \<or> want \<and> mk_matchlevel st = int L"
  let ?st1 = "if want
      then if matchh then st\<lparr>mk_branch := mk_branch st @ [nd_hash a]\<rparr>
        else if mk_matchlevel st = int L then st\<lparr>mk_branch := mk_branch st @ [h]\<rparr> else st
      else st"
  let ?st = "if check then ?st1\<lparr>mk_mutated := mk_mutated ?st1 \<or> nd_hash a = h\<rparr> else ?st1"
  have a: "mk_inner st ! L = nd_hash a" and br: "want \<Longrightarrow> nd_branch a = (if mk_matchlevel st = int L then Some (mk_branch st) else None)"
    and cs: "tracks want (Suc L) cs (mk_inner st) (mk_matchlevel st) (mk_branch st)" using assms(4) by auto
  show ?thesis
  proof (rule that [of ?m ?st])
    show "merkle_combine check want count L h matchh st =
        merkle_combine check want count (Suc L) (Hash2 (nd_hash a) h) ?m ?st"
      using assms(1,2) by (subst merkle_combine.simps) (simp add: a Let_def)
    show "current want (join a nd) (Suc L) (Hash2 (nd_hash a) h) ?m ?st"
      using assms(3) br by (auto simp: current_def join_def)
    show "tracks want (Suc L) cs (mk_inner ?st) (mk_matchlevel ?st) (mk_branch ?st)"
      using cs assms(3) tracks_below [OF cs, of "mk_matchlevel st"] by (auto simp: current_def)
  qed auto
qed

definition merkle_store :: "nat \<times> uint256 \<times> bool \<times> merkle_state \<Rightarrow> merkle_state" where
  "merkle_store r = (case r of (level, h, matchh, st) \<Rightarrow>
    st\<lparr>mk_inner := (mk_inner st)[level := h], mk_matchlevel := (if matchh then int level else mk_matchlevel st)\<rparr>)"

lemma merkle_combine_counter:
  assumes "counter_shape n cs" "unat count div 2 ^ L = Suc n" "current want nd L h matchh st" "length (mk_inner st) = 32"
    and "tracks want L cs (mk_inner st) (mk_matchlevel st) (mk_branch st)"
    and "mk_mutated st \<longleftrightarrow> nd_mut nd \<or> counter_mut cs"
    and "st' = merkle_store (merkle_combine True want count L h matchh st)"
  shows "tracks want L (counter_add join nd cs) (mk_inner st') (mk_matchlevel st') (mk_branch st') \<and>
    length (mk_inner st') = 32 \<and> (mk_mutated st' \<longleftrightarrow> counter_mut (counter_add join nd cs)) \<and>
    (want \<longrightarrow> matchh \<longrightarrow> int L \<le> mk_matchlevel st') \<and>
    (want \<longrightarrow> mk_matchlevel st' \<noteq> mk_matchlevel st \<longrightarrow> int L \<le> mk_matchlevel st') \<and>
    (want \<longrightarrow> mk_matchlevel st < 0 \<longrightarrow> \<not> matchh \<longrightarrow>
      mk_matchlevel st' = mk_matchlevel st \<and> mk_branch st' = mk_branch st)"
  using assms
proof (induction join nd cs arbitrary: n L h matchh st rule: counter_add.induct)
  case (1 nd)
  then have "bit count L" "L < 32" using bit_count [OF 1(2)] by auto
  with 1 show ?case by (auto simp: merkle_combine_stop merkle_store_def current_def)
next
  case (2 nd cs)
  then have b: "bit count L" "L < 32" using bit_count [OF 2(2)] by auto
  have t: "tracks want (Suc L) cs (mk_inner st) (mk_matchlevel st) (mk_branch st)" using 2(5) by simp
  have "tracks want (Suc L) cs (mk_inner st) (if matchh then int L else mk_matchlevel st) (mk_branch st)"
    using t tracks_below [OF t, of "int L" "mk_branch st"] 2(3) by (cases want) (auto simp: current_def elim: tracks_nowant)
  with 2 b show ?case by (auto simp: merkle_combine_stop merkle_store_def current_def tracks_update)
next
  case (3 nd a cs)
  then have n: "odd n" "counter_shape (n div 2) cs" by auto
  then have n': "unat count div 2 ^ Suc L = Suc (n div 2)" using 3(3) by (simp only: div_exp_Suc) (auto elim: oddE)
  have b: "\<not> bit count L" "L < 32" using bit_count [OF 3(3)] n(1) by auto
  obtain matchh' st1 where s:
    "merkle_combine True want count L h matchh st =
      merkle_combine True want count (Suc L) (Hash2 (nd_hash a) h) matchh' st1"
    "current want (join a nd) (Suc L) (Hash2 (nd_hash a) h) matchh' st1"
    "mk_inner st1 = mk_inner st" "mk_matchlevel st1 = mk_matchlevel st"
    "mk_mutated st1 = (mk_mutated st \<or> True \<and> nd_hash a = h)" "matchh \<Longrightarrow> matchh'"
    "want \<Longrightarrow> \<not> matchh' \<Longrightarrow> mk_matchlevel st \<noteq> int L \<and> mk_branch st1 = mk_branch st"
    "want \<Longrightarrow> mk_matchlevel st < 0 \<Longrightarrow> \<not> matchh \<Longrightarrow> \<not> matchh' \<and> mk_branch st1 = mk_branch st"
    "tracks want (Suc L) cs (mk_inner st1) (mk_matchlevel st1) (mk_branch st1)"
    using merkle_combine_step [OF b 3(4,6)] by metis
  have "nd_mut (join a nd) = (nd_mut a \<or> nd_mut nd \<or> nd_hash a = h)" using 3(4) by (simp add: join_def current_def)
  then have mut: "mk_mutated st1 \<longleftrightarrow> nd_mut (join a nd) \<or> counter_mut cs" using 3(7) s(5) by auto
  have len: "length (mk_inner st1) = 32" and st': "st' = merkle_store (merkle_combine True want count (Suc L) (Hash2 (nd_hash a) h) matchh' st1)"
    using 3(5,8) s(1,3) by simp_all
  note IH = 3(1) [OF n(2) n' s(2) len s(9) mut st']
  have "want \<longrightarrow> mk_matchlevel st' \<noteq> int L" using IH s(4,7) by (cases matchh') auto
  then have "tracks want L (counter_add join nd (Some a # cs)) (mk_inner st') (mk_matchlevel st') (mk_branch st')"
    using IH by simp
  moreover have "want \<longrightarrow> matchh \<longrightarrow> int L \<le> mk_matchlevel st'" using IH s(6) by auto
  moreover have "want \<longrightarrow> mk_matchlevel st' \<noteq> mk_matchlevel st \<longrightarrow> int L \<le> mk_matchlevel st'" using IH s(4) by auto
  moreover have "want \<longrightarrow> mk_matchlevel st < 0 \<longrightarrow> \<not> matchh \<longrightarrow>
      mk_matchlevel st' = mk_matchlevel st \<and> mk_branch st' = mk_branch st"
    using IH s(4,8) by auto
  ultimately show ?case using IH by simp
qed

definition leaf_node :: "nat \<Rightarrow> nat \<Rightarrow> uint256 \<Rightarrow> subtree" where
  "leaf_node pos i h = \<lparr>nd_hash = h, nd_branch = (if i = pos then Some [] else None), nd_mut = False\<rparr>"

definition leaf_nodes :: "nat \<Rightarrow> nat \<Rightarrow> uint256 list \<Rightarrow> subtree list" where
  "leaf_nodes pos k leaves = map2 (leaf_node pos) [k..<k + length leaves] leaves"

lemma leaf_nodes_simps [simp]:
  "leaf_nodes pos k [] = []" "leaf_nodes pos k (h # hs) = leaf_node pos k h # leaf_nodes pos (Suc k) hs"
  by (simp_all add: leaf_nodes_def upt_rec)

text \<open>The state of the loop over the leaves when \<open>k\<close> leaves have been added.\<close>

definition leaves_inv :: "bool \<Rightarrow> nat \<Rightarrow> nat \<Rightarrow> subtree option list \<Rightarrow> merkle_state \<Rightarrow> bool" where
  "leaves_inv want pos k cs st \<longleftrightarrow> counter_shape k cs \<and> length (mk_inner st) = 32 \<and>
    tracks want 0 cs (mk_inner st) (mk_matchlevel st) (mk_branch st) \<and> (mk_mutated st \<longleftrightarrow> counter_mut cs) \<and>
    (want \<longrightarrow> k \<le> pos \<longrightarrow> mk_matchlevel st < 0 \<and> mk_branch st = [])"

lemma merkle_leaf_inv:
  assumes "leaves_inv want (unat pos) k cs st" "k < 2 ^ 31"
  shows "leaves_inv want (unat pos) (Suc k) (counter_add join (leaf_node (unat pos) k leaf) cs)
    (merkle_leaf want pos (of_nat k) leaf st)"
proof -
  let ?m = "of_nat k = pos" and ?nd = "leaf_node (unat pos) k leaf"
  have k: "unat (of_nat k :: u32) = k" "unat (of_nat k + 1 :: u32) div 2 ^ 0 = Suc k"
    using assms(2) by (simp_all add: unat_of_nat unat_word_ariths)
  then have m: "?m \<longleftrightarrow> k = unat pos" by (auto simp: word_unat_eq_iff)
  note inv = assms(1) [unfolded leaves_inv_def]
  have cur: "current want ?nd 0 leaf ?m st"
    using inv m by (auto simp: current_def leaf_node_def)
  have st': "merkle_leaf want pos (of_nat k) leaf st =
      merkle_store (merkle_combine True want (of_nat k + 1) 0 leaf ?m st)"
    by (simp add: merkle_leaf_def merkle_store_def)
  have mut: "mk_mutated st \<longleftrightarrow> nd_mut ?nd \<or> counter_mut cs" using inv by (simp add: leaf_node_def)
  have sh: "counter_shape k cs" and len: "length (mk_inner st) = 32"
    and tr: "tracks want 0 cs (mk_inner st) (mk_matchlevel st) (mk_branch st)"
    and bef: "want \<longrightarrow> k \<le> unat pos \<longrightarrow> mk_matchlevel st < 0 \<and> mk_branch st = []" using inv by simp_all
  note r = merkle_combine_counter [OF sh k(2) cur len tr mut st']
  have "want \<longrightarrow> Suc k \<le> unat pos \<longrightarrow> mk_matchlevel (merkle_leaf want pos (of_nat k) leaf st) < 0 \<and>
      mk_branch (merkle_leaf want pos (of_nat k) leaf st) = []"
    using r bef m by simp
  with r counter_shape_add [OF sh] show ?thesis unfolding leaves_inv_def by simp
qed

lemma merkle_leaves_inv:
  "leaves_inv want (unat pos) k cs st \<Longrightarrow> k + length leaves \<le> 2 ^ 31 \<Longrightarrow>
    leaves_inv want (unat pos) (k + length leaves) (fold (counter_add join) (leaf_nodes (unat pos) k leaves) cs)
      (merkle_leaves want pos (of_nat k) leaves st)"
proof (induction leaves arbitrary: k cs st)
  case (Cons leaf leaves)
  then have "leaves_inv want (unat pos) (Suc k) (counter_add join (leaf_node (unat pos) k leaf) cs)
      (merkle_leaf want pos (of_nat k) leaf st)"
    by (intro merkle_leaf_inv) auto
  from Cons.IH [OF this] Cons.prems(2) show ?case by (simp add: add.commute)
qed simp

subsection \<open>The final sweep\<close>

definition sweep_from :: "bool \<Rightarrow> u32 \<Rightarrow> nat \<Rightarrow> uint256 \<Rightarrow> bool \<Rightarrow> merkle_state \<Rightarrow> uint256 \<times> merkle_state" where
  "sweep_from want count L h matchh st =
    (case merkle_combine False want count L h matchh st of (L', h', matchh', st') \<Rightarrow>
       merkle_sweep want count L' h' matchh' st')"

lemma exp_unat: "L < 32 \<Longrightarrow> unat (push_bit L 1 :: u32) = 2 ^ L"
  by (simp only: unsigned_push_bit_eq) (simp add: take_bit_nat_eq_self)

text \<open>The result of the code is the subtree \<open>nd\<close>.\<close>

definition result_is :: "bool \<Rightarrow> subtree option \<Rightarrow> uint256 \<times> merkle_state \<Rightarrow> bool" where
  "result_is want r res \<longleftrightarrow> (\<exists>nd. r = Some nd \<and> nd_hash nd = fst res \<and>
    (want \<longrightarrow> nd_branch nd \<noteq> None \<longrightarrow> nd_branch nd = Some (mk_branch (snd res))))"

lemma merkle_sweep_dup:
  assumes "L < 32" "count \<noteq> push_bit L 1"
  shows "merkle_sweep want count L h matchh st =
    sweep_from want (count + push_bit L 1) (Suc L) (Hash2 h h) matchh
      (if want \<and> matchh then st\<lparr>mk_branch := mk_branch st @ [h]\<rparr> else st)"
  using assms by (subst merkle_sweep.simps) (simp add: sweep_from_def Let_def)

lemma merkle_sweep_end: "merkle_sweep want (push_bit L 1) L h matchh st = (h, st)"
  by (subst merkle_sweep.simps) simp

lemma current_dup:
  assumes "current want nd (Suc L) h matchh st" "tracks want (Suc L) cs (mk_inner st) (mk_matchlevel st) (mk_branch st)"
  defines "st' \<equiv> if want \<and> matchh then st\<lparr>mk_branch := mk_branch st @ [h]\<rparr> else st"
  shows "current want (join nd nd) (Suc L) (Hash2 h h) matchh st'"
    "tracks want (Suc L) cs (mk_inner st') (mk_matchlevel st') (mk_branch st')"
  using assms tracks_below [OF assms(2), of "mk_matchlevel st"] by (auto simp: current_def join_def)

lemma count_next:
  assumes "unat (count :: u32) div 2 ^ L = Suc m" "unat count mod 2 ^ L = 0" "unat count \<le> 2 ^ 31" "0 < m" "even m"
  shows "unat (count + push_bit L 1) = unat count + 2 ^ L"
    "unat (count + push_bit L 1) div 2 ^ Suc L = Suc (m div 2)" "unat (count + push_bit L 1) mod 2 ^ Suc L = 0"
    "unat (count + push_bit L 1) \<le> 2 ^ 31" "count \<noteq> push_bit L 1"
proof -
  have L: "L < 32" using bit_count(1) [OF assms(1)] by simp
  have c: "unat count = Suc m * 2 ^ L" using assms(1,2) div_mult_mod_eq [of "unat count" "2 ^ L"] by simp
  have "L < 31"
  proof (rule ccontr)
    assume "\<not> L < 31"
    then have "L = 31" using L by simp
    then show False using c assms(3,4) by simp
  qed
  obtain k where k: "m = 2 * k" "0 < k" using assms(4,5) by (auto elim: evenE)
  then have c2: "unat count + 2 ^ L = Suc k * 2 ^ Suc L" using c by (simp add: algebra_simps)
  have le: "unat count + 2 ^ L \<le> 2 ^ 31"
  proof -
    have e: "(2::nat) ^ 31 = 2 ^ (31 - L) * 2 ^ L" using \<open>L < 31\<close> by (simp flip: power_add)
    have "even ((2::nat) ^ (31 - L))" "odd (Suc m)" using k \<open>L < 31\<close> by simp_all
    then have "Suc m \<noteq> 2 ^ (31 - L)" by metis
    then have "Suc m * 2 ^ L \<noteq> 2 ^ (31 - L) * 2 ^ L" by (simp only: mult_cancel2) simp
    then have "Suc m * 2 ^ L < 2 ^ (31 - L) * 2 ^ L" using c assms(3) e by linarith
    then have "Suc m < 2 ^ (31 - L)" by (simp only: mult_less_cancel2)
    then have "Suc (Suc m) * 2 ^ L \<le> 2 ^ (31 - L) * 2 ^ L" by (intro mult_le_mono1) simp
    then show ?thesis using c e by simp
  qed
  show u: "unat (count + push_bit L 1) = unat count + 2 ^ L"
    using le L by (simp add: unat_word_ariths exp_unat del: push_bit_of_1)
  show "unat (count + push_bit L 1) div 2 ^ Suc L = Suc (m div 2)" "unat (count + push_bit L 1) mod 2 ^ Suc L = 0"
    unfolding u c2 using k by simp_all
  show "unat (count + push_bit L 1) \<le> 2 ^ 31" unfolding u by (rule le)
  show "count \<noteq> push_bit L 1" using c k exp_unat [OF L] by (auto simp del: push_bit_of_1)
qed

lemma count_next_odd:
  assumes "unat (count :: u32) div 2 ^ L = Suc m" "unat count mod 2 ^ L = 0" "odd m"
  shows "unat count div 2 ^ Suc L = Suc (m div 2)" "unat count mod 2 ^ Suc L = 0"
proof -
  obtain k where k: "m = 2 * k + 1" using assms(3) by (auto elim: oddE)
  then have "unat count = Suc k * 2 ^ Suc L"
    using assms(1,2) div_mult_mod_eq [of "unat count" "2 ^ L"] by (simp add: algebra_simps)
  then show "unat count div 2 ^ Suc L = Suc (m div 2)" "unat count mod 2 ^ Suc L = 0" using k by simp_all
qed

lemma sweep_from_counter:
  assumes "counter_shape m cs" "unat count div 2 ^ L = Suc m" "unat count mod 2 ^ L = 0" "unat count \<le> 2 ^ 31"
    and "current want nd L h matchh st" "tracks want L cs (mk_inner st) (mk_matchlevel st) (mk_branch st)"
  shows "result_is want (counter_sweep join (Some nd) cs) (sweep_from want count L h matchh st)"
  using assms
proof (induction cs arbitrary: m count L nd h matchh st)
  case Nil
  then have m: "m = 0" by simp
  with Nil have b: "L < 32" "bit count L" using bit_count [OF Nil(2)] by simp_all
  have "unat count = 2 ^ L" using Nil(2,3) m div_mult_mod_eq [of "unat count" "2 ^ L"] by simp
  then have "count = push_bit L 1" using exp_unat [OF b(1)] by (simp add: word_unat_eq_iff del: push_bit_of_1)
  with b Nil(5) show ?case
    by (auto simp: sweep_from_def merkle_combine_stop merkle_sweep_end result_is_def current_def simp del: push_bit_of_1)
next
  case (Cons x cs)
  have m: "0 < m" "x \<noteq> None \<longleftrightarrow> odd m" "counter_shape (m div 2) cs" using Cons.prems(1) by simp_all
  have b: "L < 32" "bit count L = even m" using bit_count [OF Cons.prems(2)] by simp_all
  show ?case
  proof (cases x)
    case None
    then have e: "even m" using m(2) by simp
    note n = count_next [OF Cons.prems(2-4) m(1) e]
    have t: "tracks want (Suc L) cs (mk_inner st) (mk_matchlevel st) (mk_branch st)"
      using Cons.prems(6) None by simp
    have "current want nd (Suc L) h matchh st" using Cons.prems(5) by (auto simp: current_def)
    note d = current_dup [OF this t]
    have "sweep_from want count L h matchh st = merkle_sweep want count L h matchh st"
      using b e by (simp add: sweep_from_def merkle_combine_stop)
    then show ?thesis
      using Cons.IH [OF m(3) n(2-4) d] None merkle_sweep_dup [OF b(1) n(5)] by simp
  next
    case (Some a)
    then have o: "odd m" using m(2) by simp
    have t: "tracks want L (Some a # cs) (mk_inner st) (mk_matchlevel st) (mk_branch st)" using Cons.prems(6) Some by simp
    have nb: "\<not> bit count L" using b o by simp
    obtain matchh' st1 where s:
      "merkle_combine False want count L h matchh st =
        merkle_combine False want count (Suc L) (Hash2 (nd_hash a) h) matchh' st1"
      "current want (join a nd) (Suc L) (Hash2 (nd_hash a) h) matchh' st1"
      "tracks want (Suc L) cs (mk_inner st1) (mk_matchlevel st1) (mk_branch st1)"
      using merkle_combine_step [OF nb b(1) Cons.prems(5) t, of False] by metis
    have "sweep_from want count L h matchh st = sweep_from want count (Suc L) (Hash2 (nd_hash a) h) matchh' st1"
      using s(1) by (simp add: sweep_from_def)
    then show ?thesis
      using Cons.IH [OF m(3) count_next_odd [OF Cons.prems(2,3) o] Cons.prems(4) s(2,3)] Some by simp
  qed
qed

lemma merkle_sweep_counter:
  assumes "counter_shape m cs" "0 < m" "unat count div 2 ^ L = m" "unat count mod 2 ^ L = 0" "unat count \<le> 2 ^ 31"
    and "tracks want L cs (mk_inner st) (mk_matchlevel st) (mk_branch st)"
  shows "result_is want (counter_sweep join None cs)
    (merkle_sweep want count (merkle_lowest count L) (mk_inner st ! merkle_lowest count L)
      (mk_matchlevel st = int (merkle_lowest count L)) st)"
  using assms
proof (induction cs arbitrary: m L)
  case (Cons x cs)
  have m: "x \<noteq> None \<longleftrightarrow> odd m" "counter_shape (m div 2) cs" using Cons.prems(1) by simp_all
  have b: "L < 32" "bit count L = odd m" using bit_count [OF Cons.prems(3,2)] by simp_all
  have c: "unat count = m * 2 ^ L" using Cons.prems(3,4) div_mult_mod_eq [of "unat count" "2 ^ L"] by simp
  show ?case
  proof (cases x)
    case None
    then obtain k where k: "m = 2 * k" using m(1) by (auto elim: evenE)
    then have "unat count = k * 2 ^ Suc L" using c by simp
    then have "unat count div 2 ^ Suc L = m div 2" "unat count mod 2 ^ Suc L = 0" using k by simp_all
    moreover have "merkle_lowest count L = merkle_lowest count (Suc L)"
      using b k by (subst merkle_lowest.simps) simp
    ultimately show ?thesis using Cons.IH [OF m(2), of "Suc L"] Cons.prems k None by simp
  next
    case (Some f)
    then have o: "odd m" using m(1) by simp
    then have low: "merkle_lowest count L = L" using b by (subst merkle_lowest.simps) simp
    have cur: "current want f (Suc L) (mk_inner st ! L) (mk_matchlevel st = int L) st"
      using Cons.prems(6) Some by (auto simp: current_def)
    show ?thesis
    proof (cases "cs = []")
      case True
      then have "m = 1" using m(2) o by (auto elim: oddE)
      then have "count = push_bit L 1" using c exp_unat [OF b(1)] by (simp add: word_unat_eq_iff del: push_bit_of_1)
      then show ?thesis using True Some cur low
        by (auto simp: merkle_sweep_end result_is_def current_def simp del: push_bit_of_1)
    next
      case False
      then have "0 < m div 2" using m(2) by (cases cs) auto
      then have "m - 1 > 0" "even (m - 1)" "unat count div 2 ^ L = Suc (m - 1)" using o Cons.prems(3) by (auto elim: oddE)
      note n = count_next [OF this(3) Cons.prems(4,5) this(1,2)]
      have m2: "(m - 1) div 2 = m div 2" using o by (auto elim: oddE)
      have t: "tracks want (Suc L) cs (mk_inner st) (mk_matchlevel st) (mk_branch st)" using Cons.prems(6) Some by simp
      have sh: "counter_shape ((m - 1) div 2) cs" using m(2) m2 by simp
      show ?thesis
        using sweep_from_counter [OF sh n(2-4) current_dup [OF cur t]] merkle_sweep_dup [OF b(1) n(5)] low Some False
        by simp
    qed
  qed
qed simp

subsection \<open>The counter computes the textbook tree\<close>

abbreviation nodes :: "'n list \<Rightarrow> 'n option \<Rightarrow> 'n list" where
  "nodes fs p \<equiv> fs @ (case p of None \<Rightarrow> [] | Some q \<Rightarrow> [q])"

lemma merkle_root_single [simp]: "merkle_root [h] = h"
  by (subst merkle_root.simps) simp

lemma merkle_root_step: "2 \<le> length hs \<Longrightarrow> merkle_root hs = merkle_root (merkle_level hs)"
  by (subst merkle_root.simps) (auto split: list.split)

lemma merkle_level_nodes:
  "merkle_level (map nd_hash (nodes fs p)) = map nd_hash (nodes (pair_up join fs) (carry_up join fs p))"
proof (induction join fs rule: pair_up.induct)
  case (1 a b xs)
  have "carry_up join (a # b # xs) p = carry_up join xs p"
    by (cases "xs = []") (auto simp: carry_up_def split: option.split)
  with 1 show ?case by simp
qed (auto simp: carry_up_def split: option.split)

lemma level_tree_root:
  "fs \<noteq> [] \<or> p \<noteq> None \<Longrightarrow> map_option nd_hash (level_tree join join fs p) = Some (merkle_root (map nd_hash (nodes fs p)))"
proof (induction "length fs" arbitrary: fs p rule: less_induct)
  case less
  show ?case
  proof (cases "fs = [] \<or> length fs = 1 \<and> p = None")
    case True
    then show ?thesis using less.prems by (subst level_tree.simps) (auto simp: length_Suc_conv)
  next
    case False
    have "length (pair_up join fs) < length fs" using False by simp
    moreover have "pair_up join fs \<noteq> [] \<or> carry_up join fs p \<noteq> None"
      using False by (cases fs rule: remdups_adj.cases) (auto simp: carry_up_def)
    moreover have "2 \<le> length (map nd_hash (nodes fs p))"
      using False by (cases fs; cases p) (auto simp: Suc_le_eq)
    ultimately show ?thesis
      using less.hyps [of "pair_up join fs" "carry_up join fs p"] False
      by (subst level_tree.simps) (auto simp: merkle_root_step merkle_level_nodes simp del: map_append)
  qed
qed

lemma pair_up_mut:
  "(\<exists>x\<in>set (pair_up join fs). nd_mut x) \<or> odd (length fs) \<and> nd_mut (last fs) \<longleftrightarrow>
    (\<exists>x\<in>set fs. nd_mut x) \<or> equal_pair (map nd_hash fs)"
  by (induction join fs rule: pair_up.induct) (auto simp: join_def split: if_splits)

lemma map_pair_up: "map nd_hash (pair_up join fs) = pair_up Hash2 (map nd_hash fs)"
  by (induction join fs rule: pair_up.induct) auto

lemma counter_mut_fold:
  "counter_mut (fold (counter_add join) fs []) \<longleftrightarrow> (\<exists>x\<in>set fs. nd_mut x) \<or> merkle_mutated (map nd_hash fs)"
proof (induction "length fs" arbitrary: fs rule: less_induct)
  case less
  show ?case
  proof (cases "fs = []")
    case False
    then have "counter_mut (fold (counter_add join) fs []) \<longleftrightarrow>
        odd (length fs) \<and> nd_mut (last fs) \<or> counter_mut (fold (counter_add join) (pair_up join fs) [])"
      by (simp add: fold_counter_add_Nil)
    also have "\<dots> \<longleftrightarrow> odd (length fs) \<and> nd_mut (last fs) \<or> (\<exists>x\<in>set (pair_up join fs). nd_mut x) \<or>
        merkle_mutated (pair_up Hash2 (map nd_hash fs))"
      using less.hyps [of "pair_up join fs"] False by (simp add: map_pair_up)
    also have "\<dots> \<longleftrightarrow> (\<exists>x\<in>set fs. nd_mut x) \<or> merkle_mutated (map nd_hash fs)"
      using pair_up_mut [of fs] False by (subst (2) merkle_mutated.simps) auto
    finally show ?thesis .
  qed (simp add: merkle_mutated.simps)
qed

lemma leaf_nodes_hash: "map nd_hash (leaf_nodes pos k hs) = hs"
  by (induction hs arbitrary: k) (simp_all add: leaf_node_def)

lemma leaf_nodes_mut: "x \<in> set (leaf_nodes pos k hs) \<Longrightarrow> \<not> nd_mut x"
  by (induction hs arbitrary: k) (auto simp: leaf_node_def)

text \<open>What the three results of the computation are.\<close>

lemma MerkleComputation_spec:
  assumes "hs \<noteq> []" "length hs \<le> 2 ^ 31" "MerkleComputation want hs pos = (root, mutated, branch)"
  shows "root = merkle_root hs \<and> mutated = merkle_mutated hs \<and>
    (\<exists>nd. level_tree join join (leaf_nodes (unat pos) 0 hs) None = Some nd \<and> nd_hash nd = root \<and>
      (want \<longrightarrow> nd_branch nd \<noteq> None \<longrightarrow> nd_branch nd = Some branch))"
proof -
  let ?fs = "leaf_nodes (unat pos) 0 hs" and ?cs = "fold (counter_add join) (leaf_nodes (unat pos) 0 hs) []"
  let ?init = "\<lparr>mk_inner = replicate 32 uint256_null, mk_matchlevel = - 1, mk_mutated = False, mk_branch = []\<rparr>"
  let ?st = "merkle_leaves want pos 0 hs ?init" and ?count = "of_nat (length hs) :: u32"
  have "leaves_inv want (unat pos) 0 [] ?init" by (simp add: leaves_inv_def)
  from merkle_leaves_inv [OF this] assms(2)
  have inv: "leaves_inv want (unat pos) (length hs) ?cs ?st" by simp
  have c: "unat ?count = length hs" using assms(2) by (simp add: unat_of_nat)
  have "result_is want (counter_sweep join None ?cs)
      (merkle_sweep want ?count (merkle_lowest ?count 0) (mk_inner ?st ! merkle_lowest ?count 0)
        (mk_matchlevel ?st = int (merkle_lowest ?count 0)) ?st)"
    using inv assms(1,2) by (intro merkle_sweep_counter [of "length hs"]) (auto simp: leaves_inv_def c)
  then have "\<exists>nd. level_tree join join ?fs None = Some nd \<and> nd_hash nd = root \<and>
      (want \<longrightarrow> nd_branch nd \<noteq> None \<longrightarrow> nd_branch nd = Some branch)"
    using assms(1,3) unfolding counter_sweep_level_tree result_is_def
    by (auto simp: MerkleComputation_def Let_def split: prod.splits)
  moreover have "map_option nd_hash (level_tree join join ?fs None) = Some (merkle_root hs)"
    using level_tree_root [of ?fs None] assms(1) by (cases hs) (auto simp: leaf_nodes_hash leaf_node_def)
  moreover have "mutated = merkle_mutated hs"
    using assms(1,3) inv counter_mut_fold [of ?fs] leaf_nodes_mut
    by (auto simp: MerkleComputation_def Let_def leaves_inv_def leaf_nodes_hash split: prod.splits)
  ultimately show ?thesis by auto
qed

subsection \<open>Branches\<close>

lemma ComputeMerkleRootFromBranch_snoc:
  "ComputeMerkleRootFromBranch leaf (br @ [x]) n =
    (if bit n (length br) then Hash2 x (ComputeMerkleRootFromBranch leaf br n)
     else Hash2 (ComputeMerkleRootFromBranch leaf br n) x)"
proof (induction br arbitrary: leaf n)
  case Nil
  have "n AND 1 \<noteq> 0 \<longleftrightarrow> bit n 0" by (simp add: and_one_eq odd_iff_mod_2_eq_one bit_0)
  then show ?case by simp
qed (simp add: bit_drop_bit_eq)

text \<open>Node \<open>i\<close> of level \<open>k\<close> holds a branch exactly when it lies on the path from the leaf \<open>pos\<close>.\<close>

definition path_ok :: "uint256 \<Rightarrow> nat \<Rightarrow> nat \<Rightarrow> nat \<Rightarrow> subtree \<Rightarrow> bool" where
  "path_ok leaf pos k i nd \<longleftrightarrow>
    (if i = pos div 2 ^ k
     then \<exists>br. nd_branch nd = Some br \<and> length br = k \<and> ComputeMerkleRootFromBranch leaf br (of_nat pos) = nd_hash nd
     else nd_branch nd = None)"

lemma path_ok_join:
  assumes "pos < 2 ^ 32" "path_ok leaf pos k (2 * i) a" "path_ok leaf pos k (2 * i + 1) b"
  shows "path_ok leaf pos (Suc k) i (join a b)"
proof -
  have bit: "bit (of_nat pos :: u32) k = odd (pos div 2 ^ k)"
    using assms(1) by (simp add: bit_unat unat_of_nat bit_iff_odd)
  consider "pos div 2 ^ k = 2 * i" | "pos div 2 ^ k = 2 * i + 1" | "pos div 2 ^ k div 2 \<noteq> i" by linarith
  then show ?thesis
    using assms(2,3) bit unfolding path_ok_def div_exp_Suc
    by cases (auto simp: join_def ComputeMerkleRootFromBranch_snoc)
qed

lemma path_ok_dup:
  assumes "pos < 2 ^ 32" "path_ok leaf pos k (2 * i) a" "pos div 2 ^ k \<noteq> 2 * i + 1"
  shows "path_ok leaf pos (Suc k) i (join a a)"
proof -
  have bit: "bit (of_nat pos :: u32) k = odd (pos div 2 ^ k)"
    using assms(1) by (simp add: bit_unat unat_of_nat bit_iff_odd)
  consider "pos div 2 ^ k = 2 * i" | "pos div 2 ^ k div 2 \<noteq> i" using assms(3) by linarith
  then show ?thesis
    using assms(2) bit unfolding path_ok_def div_exp_Suc
    by cases (auto simp: join_def ComputeMerkleRootFromBranch_snoc)
qed

lemma nth_pair_up: "i < length xs div 2 \<Longrightarrow> pair_up c xs ! i = c (xs ! (2 * i)) (xs ! (2 * i + 1))"
proof (induction c xs arbitrary: i rule: pair_up.induct)
  case (1 c a b xs)
  then show ?case by (cases i) auto
qed auto

definition nodes_ok :: "uint256 \<Rightarrow> nat \<Rightarrow> nat \<Rightarrow> subtree list \<Rightarrow> subtree option \<Rightarrow> bool" where
  "nodes_ok leaf pos k fs p \<longleftrightarrow> pos div 2 ^ k < length (nodes fs p) \<and>
    (\<forall>i < length (nodes fs p). path_ok leaf pos k i (nodes fs p ! i))"

lemma nodes_ok_up:
  assumes "pos < 2 ^ 32" "nodes_ok leaf pos k fs p"
  shows "nodes_ok leaf pos (Suc k) (pair_up join fs) (carry_up join fs p)"
proof -
  have ok: "pos div 2 ^ k < length (nodes fs p)" "\<And>i. i < length (nodes fs p) \<Longrightarrow> path_ok leaf pos k i (nodes fs p ! i)"
    using assms(2) by (simp_all add: nodes_ok_def)
  have full: "path_ok leaf pos k i (fs ! i)" if "i < length fs" for i
    using ok(2) [of i] that by (simp add: nth_append)
  have part: "path_ok leaf pos k (length fs) q" if "p = Some q" for q
    using ok(2) [of "length fs"] that by simp
  have "path_ok leaf pos (Suc k) i (pair_up join fs ! i)" if "i < length fs div 2" for i
    using that by (simp only: nth_pair_up) (intro path_ok_join full assms(1); simp)
  moreover have "path_ok leaf pos (Suc k) (length fs div 2) r" if r: "carry_up join fs p = Some r" for r
  proof (cases "even (length fs)")
    case True
    then obtain q where q: "p = Some q" "r = join q q" using r by (auto simp: carry_up_def)
    then have "path_ok leaf pos k (2 * (length fs div 2)) q" "pos div 2 ^ k \<noteq> 2 * (length fs div 2) + 1"
      using part ok(1) True by simp_all
    then show ?thesis using path_ok_dup assms(1) q(2) by blast
  next
    case False
    then have "fs \<noteq> []" "2 * (length fs div 2) = length fs - 1" by auto
    then have l: "path_ok leaf pos k (2 * (length fs div 2)) (last fs)"
      using full [of "length fs - 1"] by (simp add: last_conv_nth)
    show ?thesis
    proof (cases p)
      case None
      then have "pos div 2 ^ k \<noteq> 2 * (length fs div 2) + 1" using ok(1) False by simp
      then show ?thesis using path_ok_dup [OF assms(1) l] r None False by (simp add: carry_up_def)
    next
      case (Some q)
      then have "path_ok leaf pos k (2 * (length fs div 2) + 1) q" using part False by simp
      then show ?thesis using path_ok_join [OF assms(1) l] r Some False by (auto simp: carry_up_def)
    qed
  qed
  moreover have "pos div 2 ^ Suc k < length (nodes (pair_up join fs) (carry_up join fs p))"
    using ok(1) unfolding div_exp_Suc by (cases p) (auto simp: carry_up_def)
  ultimately show ?thesis
    by (auto simp: nodes_ok_def nth_append less_Suc_eq split: option.splits)
qed

lemma level_tree_branch:
  assumes "pos < 2 ^ 32"
  shows "nodes_ok leaf pos k fs p \<Longrightarrow> \<exists>nd br. level_tree join join fs p = Some nd \<and> nd_branch nd = Some br \<and>
    ComputeMerkleRootFromBranch leaf br (of_nat pos) = nd_hash nd"
proof (induction "length fs" arbitrary: fs p k rule: less_induct)
  case less
  have one: "\<exists>br. nd_branch nd = Some br \<and> ComputeMerkleRootFromBranch leaf br (of_nat pos) = nd_hash nd"
    if "nodes fs p = [nd]" for nd
    using less.prems that by (auto simp: nodes_ok_def path_ok_def)
  consider "fs = []" | "length fs = 1" "p = None" | "fs \<noteq> []" "\<not> (length fs = 1 \<and> p = None)" by blast
  then show ?case
  proof cases
    case 1
    then obtain q where "p = Some q" using less.prems by (cases p) (auto simp: nodes_ok_def)
    then show ?thesis using 1 one by (subst level_tree.simps) auto
  next
    case 2
    then show ?thesis using one by (subst level_tree.simps) (auto simp: length_Suc_conv)
  next
    case 3
    then show ?thesis
      using less.hyps [of "pair_up join fs" "Suc k" "carry_up join fs p"] nodes_ok_up [OF assms less.prems]
      by (subst level_tree.simps) auto
  qed
qed

lemma leaf_nodes_ok:
  assumes "pos < length hs"
  shows "nodes_ok (hs ! pos) pos 0 (leaf_nodes pos 0 hs) None"
  using assms by (auto simp: nodes_ok_def path_ok_def leaf_nodes_def leaf_node_def)

subsection \<open>The root binds the leaves\<close>

fun level_pairs :: "uint256 list \<Rightarrow> (uint256 \<times> uint256) list" where
  "level_pairs [] = []"
| "level_pairs [a] = [(a, a)]"
| "level_pairs (a # b # hs) = (a, b) # level_pairs hs"

lemma merkle_level_pairs: "merkle_level hs = map (case_prod Hash2) (level_pairs hs)"
  by (induction hs rule: level_pairs.induct) auto

lemma length_level_pairs [simp]: "length (level_pairs hs) = (length hs + 1) div 2"
  by (induction hs rule: level_pairs.induct) auto

lemma nth_level_pairs:
  "2 * i < length hs \<Longrightarrow>
    level_pairs hs ! i = (hs ! (2 * i), if 2 * i + 1 < length hs then hs ! (2 * i + 1) else hs ! (2 * i))"
proof (induction hs arbitrary: i rule: level_pairs.induct)
  case (3 a b hs)
  then show ?case by (cases i) auto
qed auto

lemma equal_pair_iff: "equal_pair xs \<longleftrightarrow> (\<exists>i. 2 * i + 1 < length xs \<and> xs ! (2 * i) = xs ! (2 * i + 1))"
proof (induction xs rule: equal_pair.induct)
  case (1 a b xs)
  show ?case
  proof
    assume "equal_pair (a # b # xs)"
    then consider "a = b" | i where "2 * i + 1 < length xs" "xs ! (2 * i) = xs ! (2 * i + 1)" using 1 by auto
    then show "\<exists>i. 2 * i + 1 < length (a # b # xs) \<and> (a # b # xs) ! (2 * i) = (a # b # xs) ! (2 * i + 1)"
    proof cases
      case 2
      then show ?thesis by (intro exI [of _ "Suc i"]) simp
    qed (intro exI [of _ 0], simp)
  next
    assume "\<exists>i. 2 * i + 1 < length (a # b # xs) \<and> (a # b # xs) ! (2 * i) = (a # b # xs) ! (2 * i + 1)"
    then obtain i where i: "2 * i + 1 < length (a # b # xs)" "(a # b # xs) ! (2 * i) = (a # b # xs) ! (2 * i + 1)" by auto
    show "equal_pair (a # b # xs)"
    proof (cases i)
      case (Suc j)
      then have "2 * j + 1 < length xs" "xs ! (2 * j) = xs ! (2 * j + 1)" using i by auto
      then show ?thesis using 1 by auto
    qed (use i in simp)
  qed
qed auto

text \<open>The pairs hashed anywhere in the tree, and the height of a tree by its number of leaves.\<close>

function merkle_pairs :: "uint256 list \<Rightarrow> (uint256 \<times> uint256) set" where
  "merkle_pairs hs = (if length hs \<le> 1 then {} else set (level_pairs hs) \<union> merkle_pairs (merkle_level hs))"
  by pat_completeness auto
termination by (relation "measure length") (auto simp: length_merkle_level)

function merkle_height :: "nat \<Rightarrow> nat" where
  "merkle_height n = (if n \<le> 1 then 0 else Suc (merkle_height ((n + 1) div 2)))"
  by pat_completeness auto
termination by (relation "measure (\<lambda>n. n)") auto

declare merkle_pairs.simps [simp del] merkle_height.simps [simp del]

text \<open>All of the first \<open>m\<close> nodes of a level are complete, and an incomplete last one differs from them.\<close>

definition apart :: "uint256 list \<Rightarrow> nat \<Rightarrow> bool" where
  "apart hs m \<longleftrightarrow> m = length hs \<or> Suc m = length hs \<and> last hs \<notin> set (take m hs)"

lemma take_merkle_level: "m \<le> length hs \<Longrightarrow> take (m div 2) (merkle_level hs) = pair_up Hash2 (take m hs)"
proof (rule nth_equalityI)
  assume m: "m \<le> length hs"
  then show len: "length (take (m div 2) (merkle_level hs)) = length (pair_up Hash2 (take m hs))"
    by (simp add: length_merkle_level min_def) linarith
  fix i
  assume "i < length (take (m div 2) (merkle_level hs))"
  then have "i < m div 2" using len m by simp
  then have "2 * i + 1 < m" by linarith
  then show "take (m div 2) (merkle_level hs) ! i = pair_up Hash2 (take m hs) ! i"
    using m by (simp add: merkle_level_pairs nth_level_pairs nth_pair_up)
qed

lemma not_mutatedD:
  assumes "\<not> merkle_mutated hs"
  shows "\<not> equal_pair hs" "\<not> merkle_mutated (pair_up Hash2 hs)"
  using assms by (cases "hs = []"; subst (asm) merkle_mutated.simps; simp add: merkle_mutated.simps)+

lemma apart_level:
  assumes inj: "inj_on (case_prod Hash2) (set (level_pairs hs))" and ap: "apart hs m" and hs: "hs \<noteq> []"
    and mut: "\<not> merkle_mutated (take m hs)"
  shows "apart (merkle_level hs) (m div 2)" "\<not> merkle_mutated (take (m div 2) (merkle_level hs))"
proof -
  have m: "m \<le> length hs" "length hs \<le> Suc m" using ap by (auto simp: apart_def)
  show "\<not> merkle_mutated (take (m div 2) (merkle_level hs))"
    unfolding take_merkle_level [OF m(1)] by (rule not_mutatedD(2) [OF mut])
  show "apart (merkle_level hs) (m div 2)"
  proof (cases "even (length hs) \<and> m = length hs")
    case True
    then show ?thesis by (auto simp: apart_def length_merkle_level)
  next
    case False
    let ?l = "m div 2"
    have l: "length (merkle_level hs) = Suc ?l" "2 * ?l < length hs"
      using False ap hs by (auto simp: length_merkle_level apart_def elim!: oddE evenE) 
    have "merkle_level hs ! ?l \<noteq> merkle_level hs ! i" if "i < ?l" for i
    proof
      assume e: "merkle_level hs ! ?l = merkle_level hs ! i"
      have i: "2 * i + 1 < m" using that by linarith
      have "level_pairs hs ! ?l = level_pairs hs ! i"
        using e inj that l by (auto simp: merkle_level_pairs inj_on_def length_merkle_level)
      then have p: "hs ! (2 * ?l) = hs ! (2 * i)"
          "(if 2 * ?l + 1 < length hs then hs ! (2 * ?l + 1) else hs ! (2 * ?l)) = hs ! (2 * i + 1)"
        using l i m by (auto simp: nth_level_pairs)
      have full: "hs ! j \<in> set (take m hs)" if "j < m" for j using that m by (auto simp: in_set_conv_nth intro!: exI [of _ j])
      show False
      proof (cases "m = length hs")
        case True
        then have "equal_pair hs" using p i False l unfolding equal_pair_iff by (auto elim!: oddE)
        then show False using not_mutatedD(1) [OF mut] True by simp
      next
        case False
        then have len: "length hs = Suc m" and "last hs \<notin> set (take m hs)" using ap by (auto simp: apart_def)
        moreover from len have "last hs = hs ! m" using hs by (simp add: last_conv_nth)
        moreover have "last hs = hs ! (2 * i) \<or> last hs = hs ! (2 * i + 1)"
          using p \<open>last hs = hs ! m\<close> len by (cases "even m") (auto elim!: oddE evenE)
        ultimately show False using full [of "2 * i"] full [of "2 * i + 1"] i by auto
      qed
    qed
    moreover have "last (merkle_level hs) = merkle_level hs ! ?l"
      using l(1) last_conv_nth [of "merkle_level hs"] by (cases "merkle_level hs") auto
    ultimately have "last (merkle_level hs) \<notin> set (take ?l (merkle_level hs))"
      by (fastforce simp: in_set_conv_nth)
    then show ?thesis using l(1) by (simp add: apart_def)
  qed
qed

lemma level_pairs_inject:
  assumes eq: "level_pairs xs = level_pairs ys" and len: "length ys \<le> length xs"
    and ap: "apart xs m" and mut: "\<not> merkle_mutated (take m xs)"
  shows "xs = ys"
proof -
  have l: "(length xs + 1) div 2 = (length ys + 1) div 2" using arg_cong [OF eq, of length] by simp
  have p: "xs ! (2 * i) = ys ! (2 * i)"
    "(if 2 * i + 1 < length xs then xs ! (2 * i + 1) else xs ! (2 * i)) =
     (if 2 * i + 1 < length ys then ys ! (2 * i + 1) else ys ! (2 * i))" if "2 * i < length ys" for i
    using arg_cong [OF eq, of "\<lambda>l. l ! i"] that len by (auto simp: nth_level_pairs)
  have "length xs = length ys"
  proof (rule ccontr)
    assume "length xs \<noteq> length ys"
    then have n: "length xs = Suc (length ys)" "odd (length ys)" using l len by presburger+
    then obtain k where k: "length ys = 2 * k + 1" by (auto elim: oddE)
    then have e: "xs ! (2 * k) = xs ! (2 * k + 1)" using p [of k] n by auto
    show False
    proof (cases "m = length xs")
      case True
      then show False using e k n not_mutatedD(1) [OF mut] by (auto simp: equal_pair_iff)
    next
      case False
      then have "m = 2 * k + 1" "xs \<noteq> []" "last xs \<notin> set (take m xs)" using ap n k by (auto simp: apart_def)
      moreover from this have "xs ! (2 * k) \<in> set (take m xs)"
        using n k by (auto simp: in_set_conv_nth intro!: exI [of _ "2 * k"])
      ultimately show False using e n k by (simp add: last_conv_nth)
    qed
  qed
  then show ?thesis
  proof (rule nth_equalityI)
    fix j
    assume j: "j < length xs"
    show "xs ! j = ys ! j"
      using p [of "j div 2"] j \<open>length xs = length ys\<close> by (cases "even j") (auto elim!: oddE evenE)
  qed
qed

lemma merkle_root_inject:
  assumes "inj_on (case_prod Hash2) S" "merkle_pairs xs \<union> merkle_pairs ys \<subseteq> S" "xs \<noteq> []" "ys \<noteq> []"
    and "apart xs m" "apart ys n" "\<not> merkle_mutated (take m xs)" "\<not> merkle_mutated (take n ys)"
    and "merkle_height (length xs) = merkle_height (length ys)" "merkle_root xs = merkle_root ys"
  shows "xs = ys"
  using assms(2-)
proof (induction "length xs" arbitrary: xs ys m n rule: less_induct)
  case less
  show ?case
  proof (cases "length xs \<le> 1 \<or> length ys \<le> 1")
    case True
    then have "merkle_height (length xs) = 0" using less.prems(8) by (auto simp: merkle_height.simps split: if_splits)
    then have "length xs \<le> 1" "length ys \<le> 1"
      using less.prems(8) by (auto simp: merkle_height.simps [of "length _"] split: if_splits)
    then have "length xs = 1" "length ys = 1" using less.prems(2,3) by (cases xs; cases ys; simp)+
    then show ?thesis using less.prems(9) by (auto simp: length_Suc_conv)
  next
    case False
    then have big: "2 \<le> length xs" "2 \<le> length ys" by auto
    have S: "set (level_pairs xs) \<subseteq> S" "set (level_pairs ys) \<subseteq> S"
      "merkle_pairs (merkle_level xs) \<union> merkle_pairs (merkle_level ys) \<subseteq> S"
      using less.prems(1) big by (auto simp: merkle_pairs.simps [of xs] merkle_pairs.simps [of ys])
    note ix = inj_on_subset [OF assms(1) S(1)] and iy = inj_on_subset [OF assms(1) S(2)]
    note ax = apart_level [OF ix less.prems(4,2,6)] and ay = apart_level [OF iy less.prems(5,3,7)]
    have h: "merkle_height (length (merkle_level xs)) = merkle_height (length (merkle_level ys))"
      using less.prems(8) big by (simp add: length_merkle_level merkle_height.simps [of "length xs"] merkle_height.simps [of "length ys"])
    have r: "merkle_root (merkle_level xs) = merkle_root (merkle_level ys)"
      using less.prems(9) big by (simp add: merkle_root_step)
    have "merkle_level xs \<noteq> []" "merkle_level ys \<noteq> []" "length (merkle_level xs) < length xs"
      using big length_merkle_level [of xs] length_merkle_level [of ys] by auto
    then have "merkle_level xs = merkle_level ys"
      using less.hyps S(3) ax ay h r by blast
    then have "map (case_prod Hash2) (level_pairs xs) = map (case_prod Hash2) (level_pairs ys)"
      by (simp add: merkle_level_pairs)
    then have "level_pairs xs = level_pairs ys"
      using inj_on_map_eq_map [of "case_prod Hash2" "level_pairs xs" "level_pairs ys"]
        inj_on_subset [OF assms(1)] S(1,2) by simp
    then show ?thesis
      using level_pairs_inject [of xs ys m] level_pairs_inject [of ys xs n] less.prems(4-7)
      by (cases "length ys \<le> length xs") auto
  qed
qed

subsection \<open>Properties\<close>

lemma ComputeMerkleRoot_eq:
  "length hs \<le> 2 ^ 31 \<Longrightarrow> ComputeMerkleRoot hs = (merkle_root hs, merkle_mutated hs)"
proof (cases "hs = []")
  case True
  then show ?thesis
    by (simp add: ComputeMerkleRoot_def MerkleComputation_def merkle_root.simps merkle_mutated.simps)
next
  case False
  assume "length hs \<le> 2 ^ 31"
  moreover obtain root mutated branch where "MerkleComputation False hs (- 1) = (root, mutated, branch)"
    by (metis surj_pair)
  ultimately show ?thesis
    using MerkleComputation_spec [OF False] by (simp add: ComputeMerkleRoot_def)
qed

text \<open>
  C11: the constant-space computation of a Merkle root gives the root of the tree built level by level, with
  the last node of an odd level doubled, and its mutation flag is set exactly when two neighbouring
  complete subtrees have the same hash. It does so for at most \<open>2\<^sup>3\<^sup>1\<close> leaves.
\<close>

theorem ComputeMerkleRoot_correct:
  assumes "length leaves \<le> 2 ^ 31"
  shows "ComputeMerkleRoot leaves = (merkle_root leaves, merkle_mutated leaves)"
  using assms by (rule ComputeMerkleRoot_eq)

theorem ComputeMerkleRoot_correct_witness:
  "fst (ComputeMerkleRoot [replicate 32 1, replicate 32 2, replicate 32 3]) =
   Hash2 (Hash2 (replicate 32 1) (replicate 32 2)) (Hash2 (replicate 32 3) (replicate 32 3))"
  using ComputeMerkleRoot_correct [of "[replicate 32 1, replicate 32 2, replicate 32 3]"]
  by (simp add: merkle_root_step)

text \<open>
  The branch computed for a leaf leads from that leaf to the root: folding it with the position of the
  leaf gives the root of the whole list.
\<close>

theorem ComputeMerkleBranch_correct:
  assumes "unat position < length leaves" "length leaves \<le> 2 ^ 31"
  shows "ComputeMerkleRootFromBranch (leaves ! unat position) (ComputeMerkleBranch leaves position) position =
    fst (ComputeMerkleRoot leaves)"
proof -
  obtain root mutated branch where c: "MerkleComputation True leaves position = (root, mutated, branch)"
    by (metis surj_pair)
  have "leaves \<noteq> []" using assms(1) by auto
  note spec = MerkleComputation_spec [OF this assms(2) c]
  have "unat position < 2 ^ 32" using assms by simp
  from level_tree_branch [OF this leaf_nodes_ok [OF assms(1)]] spec
  have "ComputeMerkleRootFromBranch (leaves ! unat position) branch position = merkle_root leaves" by auto
  then show ?thesis using c assms(2) by (simp add: ComputeMerkleBranch_def ComputeMerkleRoot_eq)
qed

theorem ComputeMerkleBranch_correct_witness:
  "ComputeMerkleRootFromBranch (replicate 32 3)
    (ComputeMerkleBranch [replicate 32 1, replicate 32 2, replicate 32 3] 2) 2 =
   fst (ComputeMerkleRoot [replicate 32 1, replicate 32 2, replicate 32 3])"
  using ComputeMerkleBranch_correct [of 2 "[replicate 32 1, replicate 32 2, replicate 32 3]"] by simp

text \<open>
  C28: two lists of leaves whose trees have the same height and the same root are equal, provided that the
  mutation flag of neither is set and that the pairs hashed in the two trees do not collide. Without the
  flag this fails: repeating the last leaves can keep the root.
\<close>

theorem ComputeMerkleRoot_binding:
  assumes "xs \<noteq> []" "ys \<noteq> []" "length xs \<le> 2 ^ 31" "length ys \<le> 2 ^ 31"
    and "merkle_height (length xs) = merkle_height (length ys)"
    and "ComputeMerkleRoot xs = (root, False)" "ComputeMerkleRoot ys = (root, False)"
    and "inj_on (case_prod Hash2) (merkle_pairs xs \<union> merkle_pairs ys)"
  shows "xs = ys"
  using merkle_root_inject [OF assms(8) order_refl assms(1,2), of "length xs" "length ys"] assms
  by (simp add: ComputeMerkleRoot_eq apart_def)

theorem ComputeMerkleRoot_binding_witness:
  "let xs = [replicate 32 1, replicate 32 2]; ys = rev [replicate 32 2, replicate 32 1] in
    ComputeMerkleRoot xs = ComputeMerkleRoot ys \<and>
    inj_on (case_prod Hash2) (merkle_pairs xs \<union> merkle_pairs ys) \<and> xs = ys"
proof -
  let ?xs = "[replicate 32 1, replicate 32 2] :: uint256 list"
  have "merkle_mutated ?xs = False"
    by (simp add: merkle_mutated.simps numeral_eq_Suc)
  then have c: "ComputeMerkleRoot ?xs = (Hash2 (replicate 32 1) (replicate 32 2), False)"
    by (simp add: ComputeMerkleRoot_eq merkle_root_step)
  then have c': "ComputeMerkleRoot (rev [replicate 32 2, replicate 32 1]) = (Hash2 (replicate 32 1) (replicate 32 2), False)"
    by simp
  have "merkle_pairs ?xs = {(replicate 32 1, replicate 32 2)}"
    by (simp add: merkle_pairs.simps)
  then have i: "inj_on (case_prod Hash2) (merkle_pairs ?xs \<union> merkle_pairs (rev [replicate 32 2, replicate 32 1]))" by simp
  show ?thesis
    using ComputeMerkleRoot_binding [OF _ _ _ _ _ c c' i] c c' i unfolding Let_def by simp
qed

end
