(* ===== verification/SC_MerkleBlock.thy ===== *)
theory SC_MerkleBlock
  imports SC_Merkle
begin

text \<open>
  Partial Merkle trees (\<^verbatim>\<open>merkleblock.h\<close>, \<^verbatim>\<open>merkleblock.cpp\<close>): the proof that some transactions are in a block.
  The tree is built by a depth-first traversal that records one bit per node and the hashes of the
  subtrees that are not entered, and read by the same traversal. A built tree, sent over the wire, yields
  the root and exactly the selected transactions; and a tree that yields the root of a list of
  transactions, whoever made it, names only transactions of that list.
\<close>

subsection \<open>The tree\<close>

record CPartialMerkleTree =
  nTransactions :: nat
  vBits :: "bool list"
  vHash :: "uint256 list"
  fBad :: bool

definition CalcTreeWidth :: "nat \<Rightarrow> nat \<Rightarrow> nat" where
  "CalcTreeWidth n height = (n + 2 ^ height - 1) div 2 ^ height"

primrec CalcHash :: "nat \<Rightarrow> nat \<Rightarrow> nat \<Rightarrow> uint256 list \<Rightarrow> uint256" where
  "CalcHash n 0 pos vTxid = vTxid ! pos"
| "CalcHash n (Suc height) pos vTxid =
    (let left = CalcHash n height (pos * 2) vTxid;
         right = (if pos * 2 + 1 < CalcTreeWidth n height then CalcHash n height (pos * 2 + 1) vTxid else left) in
     Hash2 left right)"

definition parent_of_match :: "nat \<Rightarrow> nat \<Rightarrow> nat \<Rightarrow> bool list \<Rightarrow> bool" where
  "parent_of_match n height pos vMatch = list_ex (\<lambda>p. vMatch ! p) [pos * 2 ^ height..<min ((pos + 1) * 2 ^ height) n]"

fun TraverseAndBuild ::
  "nat \<Rightarrow> nat \<Rightarrow> nat \<Rightarrow> uint256 list \<Rightarrow> bool list \<Rightarrow> bool list \<times> uint256 list \<Rightarrow> bool list \<times> uint256 list" where
  "TraverseAndBuild n 0 pos vTxid vMatch (bits, hashes) =
    (bits @ [parent_of_match n 0 pos vMatch], hashes @ [CalcHash n 0 pos vTxid])"
| "TraverseAndBuild n (Suc height) pos vTxid vMatch (bits, hashes) =
    (let fParentOfMatch = parent_of_match n (Suc height) pos vMatch;
         bits = bits @ [fParentOfMatch] in
     if \<not> fParentOfMatch then (bits, hashes @ [CalcHash n (Suc height) pos vTxid])
     else let s = TraverseAndBuild n height (pos * 2) vTxid vMatch (bits, hashes) in
       if pos * 2 + 1 < CalcTreeWidth n height then TraverseAndBuild n height (pos * 2 + 1) vTxid vMatch s else s)"

lemma CalcTreeWidth_Suc: "CalcTreeWidth n (Suc h) = (CalcTreeWidth n h + 1) div 2"
proof -
  have "n + 2 ^ Suc h - 1 = (n + 2 ^ h - 1) + 1 * 2 ^ h" by simp
  then have "CalcTreeWidth n (Suc h) = ((n + 2 ^ h - 1) + 1 * 2 ^ h) div 2 ^ h div 2"
    unfolding CalcTreeWidth_def div_exp_Suc by simp
  also have "((n + 2 ^ h - 1) + 1 * 2 ^ h) div 2 ^ h = 1 + (n + 2 ^ h - 1) div 2 ^ h" by (rule div_mult_self1) simp
  finally show ?thesis by (simp add: CalcTreeWidth_def)
qed

lemma CalcTreeWidth_0 [simp]: "CalcTreeWidth n 0 = n"
  by (simp add: CalcTreeWidth_def)

function tree_height :: "nat \<Rightarrow> nat \<Rightarrow> nat" where
  "tree_height n nHeight = (if CalcTreeWidth n nHeight > 1 then tree_height n (nHeight + 1) else nHeight)"
  by pat_completeness auto
termination by (relation "measure (\<lambda>(n, h). CalcTreeWidth n h)") (auto simp: CalcTreeWidth_Suc)

declare tree_height.simps [simp del]

definition CPartialMerkleTree_new :: "uint256 list \<Rightarrow> bool list \<Rightarrow> CPartialMerkleTree" where
  "CPartialMerkleTree_new vTxid vMatch =
    (case TraverseAndBuild (length vTxid) (tree_height (length vTxid) 0) 0 vTxid vMatch ([], []) of (bits, hashes) \<Rightarrow>
       \<lparr>nTransactions = length vTxid, vBits = bits, vHash = hashes, fBad = False\<rparr>)"

definition CPartialMerkleTree_default :: CPartialMerkleTree where
  "CPartialMerkleTree_default = \<lparr>nTransactions = 0, vBits = [], vHash = [], fBad = True\<rparr>"

record extract_state =
  xs_bad :: bool
  nBitsUsed :: nat
  nHashUsed :: nat
  xs_vMatch :: "uint256 list"
  xs_vnIndex :: "nat list"

text \<open>The part of a visit that takes a stored hash.\<close>

definition extract_hash :: "CPartialMerkleTree \<Rightarrow> bool \<Rightarrow> nat \<Rightarrow> extract_state \<Rightarrow> uint256 \<times> extract_state" where
  "extract_hash t matched pos s =
    (if nHashUsed s \<ge> length (vHash t) then (uint256_null, s\<lparr>xs_bad := True\<rparr>)
     else let hash = vHash t ! nHashUsed s; s = s\<lparr>nHashUsed := nHashUsed s + 1\<rparr> in
       (hash, if matched then s\<lparr>xs_vMatch := xs_vMatch s @ [hash], xs_vnIndex := xs_vnIndex s @ [pos]\<rparr> else s))"

primrec TraverseAndExtract :: "CPartialMerkleTree \<Rightarrow> nat \<Rightarrow> nat \<Rightarrow> extract_state \<Rightarrow> uint256 \<times> extract_state" where
  "TraverseAndExtract t 0 pos s =
    (if nBitsUsed s \<ge> length (vBits t) then (uint256_null, s\<lparr>xs_bad := True\<rparr>)
     else extract_hash t (vBits t ! nBitsUsed s) pos (s\<lparr>nBitsUsed := nBitsUsed s + 1\<rparr>))"
| "TraverseAndExtract t (Suc height) pos s =
    (if nBitsUsed s \<ge> length (vBits t) then (uint256_null, s\<lparr>xs_bad := True\<rparr>)
     else let fParentOfMatch = vBits t ! nBitsUsed s; s = s\<lparr>nBitsUsed := nBitsUsed s + 1\<rparr> in
       if \<not> fParentOfMatch then extract_hash t False pos s
       else case TraverseAndExtract t height (pos * 2) s of (left, s) \<Rightarrow>
         if pos * 2 + 1 < CalcTreeWidth (nTransactions t) height
         then case TraverseAndExtract t height (pos * 2 + 1) s of (right, s) \<Rightarrow>
           (Hash2 left right, if right = left then s\<lparr>xs_bad := True\<rparr> else s)
         else (Hash2 left left, s))"

definition ExtractMatches :: "CPartialMerkleTree \<Rightarrow> nat list \<Rightarrow> uint256 \<times> uint256 list \<times> nat list" where
  "ExtractMatches t vnIndex =
    (if nTransactions t = 0 then (uint256_null, [], vnIndex)
     else if nTransactions t > MAX_BLOCK_WEIGHT div MIN_TRANSACTION_WEIGHT then (uint256_null, [], vnIndex)
     else if length (vHash t) > nTransactions t then (uint256_null, [], vnIndex)
     else if length (vBits t) < length (vHash t) then (uint256_null, [], vnIndex)
     else case TraverseAndExtract t (tree_height (nTransactions t) 0) 0
                 \<lparr>xs_bad = fBad t, nBitsUsed = 0, nHashUsed = 0, xs_vMatch = [], xs_vnIndex = vnIndex\<rparr> of
       (root, s) \<Rightarrow>
         (if xs_bad s then uint256_null
          else if (nBitsUsed s + 7) div 8 \<noteq> (length (vBits t) + 7) div 8 then uint256_null
          else if nHashUsed s \<noteq> length (vHash t) then uint256_null
          else root, xs_vMatch s, xs_vnIndex s))"

subsection \<open>The wire format\<close>

definition bits_byte :: "bool list \<Rightarrow> byte" where
  "bits_byte bs = fold (\<lambda>p b. b OR (if bs ! p then push_bit p 1 else 0)) [0..<min 8 (length bs)] 0"

definition pack_bits :: "bool list \<Rightarrow> bytes" where
  "pack_bits bits = map (\<lambda>k. bits_byte (drop (8 * k) bits)) [0..<(length bits + 7) div 8]"

definition unpack_bits :: "bytes \<Rightarrow> bool list" where
  "unpack_bits bs = map (\<lambda>p. bs ! (p div 8) AND push_bit (p mod 8) 1 \<noteq> 0) [0..<length bs * 8]"

definition Serialize_CPartialMerkleTree :: "CPartialMerkleTree \<Rightarrow> bytes" where
  "Serialize_CPartialMerkleTree t =
    ser_writedata32 (of_nat (nTransactions t)) @ Serialize_vector (\<lambda>h. h) (vHash t) @ Serialize_bytes (pack_bits (vBits t))"

definition Unserialize_CPartialMerkleTree :: "CPartialMerkleTree reader" where
  "Unserialize_CPartialMerkleTree =
    reader_bind ser_readdata32 (\<lambda>n.
    reader_bind (Unserialize_vector (stream_read 32)) (\<lambda>hashes.
    reader_bind Unserialize_bytes (\<lambda>vBytes.
    reader_return \<lparr>nTransactions = unat n, vBits = unpack_bits vBytes, vHash = hashes, fBad = False\<rparr>)))"

subsection \<open>The levels of the tree\<close>

primrec tree_level :: "nat \<Rightarrow> uint256 list \<Rightarrow> uint256 list" where
  "tree_level 0 ids = ids"
| "tree_level (Suc h) ids = merkle_level (tree_level h ids)"

lemma length_tree_level: "length (tree_level h ids) = CalcTreeWidth (length ids) h"
  by (induction h) (simp_all add: length_merkle_level CalcTreeWidth_Suc)

lemma CalcHash_level:
  "pos < CalcTreeWidth (length ids) h \<Longrightarrow> CalcHash (length ids) h pos ids = tree_level h ids ! pos"
proof (induction h arbitrary: pos)
  case (Suc h)
  then have "2 * pos < length (tree_level h ids)" by (simp add: CalcTreeWidth_Suc length_tree_level)
  moreover from this have "tree_level (Suc h) ids ! pos = case_prod Hash2 (level_pairs (tree_level h ids) ! pos)"
    by (simp add: merkle_level_pairs)
  ultimately show ?case using Suc.IH
    by (simp add: nth_level_pairs length_tree_level Let_def mult.commute)
qed simp

lemma CalcTreeWidth_pos: "0 < n \<Longrightarrow> 0 < CalcTreeWidth n h"
  by (induction h) (simp_all add: CalcTreeWidth_Suc)

lemma tree_height_spec:
  "0 < n \<Longrightarrow> CalcTreeWidth n (tree_height n h) = 1 \<and> h \<le> tree_height n h \<and>
    (\<forall>k. h \<le> k \<and> k < tree_height n h \<longrightarrow> 1 < CalcTreeWidth n k)"
proof (induction n h rule: tree_height.induct)
  case (1 n h)
  show ?case
  proof (cases "1 < CalcTreeWidth n h")
    case True
    then have IH: "CalcTreeWidth n (tree_height n (h + 1)) = 1 \<and> h + 1 \<le> tree_height n (h + 1) \<and>
        (\<forall>k. h + 1 \<le> k \<and> k < tree_height n (h + 1) \<longrightarrow> 1 < CalcTreeWidth n k)" using 1 by blast
    moreover have "tree_height n h = tree_height n (h + 1)" using True by (subst tree_height.simps) simp
    ultimately show ?thesis using True by (auto simp: le_eq_less_or_eq [of h])
  next
    case False
    then show ?thesis using 1(2) CalcTreeWidth_pos [of n h] by (subst (1 2 3) tree_height.simps) auto
  qed
qed

lemma merkle_root_tree_level:
  "(\<forall>k < h. 1 < CalcTreeWidth (length ids) k) \<Longrightarrow> merkle_root (tree_level h ids) = merkle_root ids"
proof (induction h)
  case (Suc h)
  then have "1 < length (tree_level h ids)" by (simp add: length_tree_level)
  then have "merkle_root (tree_level (Suc h) ids) = merkle_root (tree_level h ids)" by (simp add: merkle_root_step)
  then show ?case using Suc by simp
qed simp

lemma CalcHash_root:
  assumes "ids \<noteq> []"
  shows "CalcHash (length ids) (tree_height (length ids) 0) 0 ids = merkle_root ids"
proof -
  let ?H = "tree_height (length ids) 0"
  have s: "CalcTreeWidth (length ids) ?H = 1" "\<forall>k < ?H. 1 < CalcTreeWidth (length ids) k"
    using tree_height_spec [of "length ids" 0] assms by auto
  then have "length (tree_level ?H ids) = 1" by (simp add: length_tree_level)
  then have "tree_level ?H ids ! 0 = merkle_root (tree_level ?H ids)" by (auto simp: length_Suc_conv)
  then show ?thesis using s CalcHash_level [of 0 ids ?H] by (simp add: merkle_root_tree_level)
qed


subsection \<open>Reading back a built tree\<close>

definition selected :: "nat \<Rightarrow> nat \<Rightarrow> nat \<Rightarrow> bool list \<Rightarrow> nat list" where
  "selected n height pos vMatch = filter ((!) vMatch) [pos * 2 ^ height..<min ((pos + 1) * 2 ^ height) n]"

lemma parent_of_match_iff: "parent_of_match n h pos m \<longleftrightarrow> selected n h pos m \<noteq> []"
  by (simp add: parent_of_match_def selected_def list_ex_iff filter_empty_conv)

lemma selected_Suc: "selected n (Suc h) pos m = selected n h (pos * 2) m @ selected n h (pos * 2 + 1) m"
proof -
  let ?a = "pos * 2 * 2 ^ h" and ?b = "(pos * 2 + 1) * 2 ^ h" and ?c = "(pos * 2 + 1 + 1) * 2 ^ h"
  have le: "?a \<le> ?b" "?b \<le> ?c" by (intro mult_le_mono1; simp)+
  have A: "[?a..<min ?c n] = [?a..<min ?b n] @ [?b..<min ?c n]"
  proof (cases "n \<le> ?b")
    case True
    then have "min ?b n = n" "min ?c n = n" using le by auto
    then show ?thesis using True by simp
  next
    case False
    then have "min ?b n = ?b" "?b \<le> min ?c n" using le by auto
    then show ?thesis using upt_add_eq_append [OF le(1), of "min ?c n - ?b"] by simp
  qed
  have E: "pos * 2 ^ Suc h = ?a" "(pos + 1) * 2 ^ Suc h = ?c" by simp_all
  show ?thesis unfolding selected_def E A filter_append by (rule refl)
qed

lemma selected_beyond: "CalcTreeWidth n h \<le> pos \<Longrightarrow> selected n h pos m = []"
proof -
  assume "CalcTreeWidth n h \<le> pos"
  then have "n + 2 ^ h - 1 < (pos + 1) * 2 ^ h"
    unfolding CalcTreeWidth_def using div_less_iff_less_mult [of "2 ^ h" "n + 2 ^ h - 1" "pos + 1"] by simp
  then have "n \<le> pos * 2 ^ h" by simp
  then show ?thesis by (simp add: selected_def)
qed

abbreviation built :: "nat \<Rightarrow> nat \<Rightarrow> nat \<Rightarrow> uint256 list \<Rightarrow> bool list \<Rightarrow> bool list \<times> uint256 list" where
  "built n h pos ids m \<equiv> TraverseAndBuild n h pos ids m ([], [])"

lemma TraverseAndBuild_acc:
  "TraverseAndBuild n h pos ids m (b, hs) = (b @ fst (built n h pos ids m), hs @ snd (built n h pos ids m))"
proof (induction h arbitrary: pos b hs)
  case (Suc h)
  let ?l = "built n h (pos * 2) ids m" and ?r = "built n h (pos * 2 + 1) ids m"
  note l = Suc.IH [of "pos * 2"] and r = Suc.IH [of "Suc (pos * 2)"]
  show ?case by (simp add: Let_def l [of "_ @ _"] l [of "[_]"] r [of "_ @ _" "_ @ _"] r [of "_ # _"])
qed simp

lemma built_Suc:
  "built n (Suc h) pos ids m =
    (if \<not> parent_of_match n (Suc h) pos m then ([False], [CalcHash n (Suc h) pos ids])
     else if pos * 2 + 1 < CalcTreeWidth n h
     then (True # fst (built n h (pos * 2) ids m) @ fst (built n h (pos * 2 + 1) ids m),
           snd (built n h (pos * 2) ids m) @ snd (built n h (pos * 2 + 1) ids m))
     else (True # fst (built n h (pos * 2) ids m), snd (built n h (pos * 2) ids m)))"
  by (simp add: Let_def TraverseAndBuild_acc [of n h "pos * 2" ids m "[_]"] TraverseAndBuild_acc [of n h "Suc (pos * 2)" ids m "_ # _"])

definition siblings_differ :: "uint256 list \<Rightarrow> bool" where
  "siblings_differ ids \<longleftrightarrow> (\<forall>h pos. pos * 2 + 1 < CalcTreeWidth (length ids) h \<longrightarrow>
    CalcHash (length ids) h (pos * 2) ids \<noteq> CalcHash (length ids) h (pos * 2 + 1) ids)"

lemma TraverseAndExtract_built:
  assumes "siblings_differ ids" "nTransactions t = length ids"
    and "vBits t = b @ fst (built (length ids) h pos ids m) @ b'" "vHash t = hs @ snd (built (length ids) h pos ids m) @ hs'"
    and "nBitsUsed s = length b" "nHashUsed s = length hs" "pos < CalcTreeWidth (length ids) h"
  shows "TraverseAndExtract t h pos s = (CalcHash (length ids) h pos ids,
    s\<lparr>nBitsUsed := length b + length (fst (built (length ids) h pos ids m)),
      nHashUsed := length hs + length (snd (built (length ids) h pos ids m)),
      xs_vMatch := xs_vMatch s @ map ((!) ids) (selected (length ids) h pos m),
      xs_vnIndex := xs_vnIndex s @ selected (length ids) h pos m\<rparr>)"
  using assms(3-)
proof (induction h arbitrary: pos s b b' hs hs')
  case 0
  have "selected (length ids) 0 pos m = (if m ! pos then [pos] else [])"
    using 0(5) by (simp add: selected_def)
  with 0 show ?case
    by (auto simp: extract_hash_def Let_def nth_append parent_of_match_iff)
next
  case (Suc h)
  let ?n = "length ids"
  let ?l = "built ?n h (pos * 2) ids m" and ?r = "built ?n h (pos * 2 + 1) ids m"
  show ?case
  proof (cases "parent_of_match ?n (Suc h) pos m")
    case False
    then have "selected ?n (Suc h) pos m = []" by (simp add: parent_of_match_iff)
    with False Suc.prems show ?thesis
      by (simp add: extract_hash_def Let_def nth_append built_Suc del: TraverseAndBuild.simps)
  next
    case True
    have wl: "pos * 2 < CalcTreeWidth ?n h" using Suc.prems(5) by (simp add: CalcTreeWidth_Suc)
    let ?s = "s\<lparr>nBitsUsed := nBitsUsed s + 1\<rparr>"
    have bit: "nBitsUsed s < length (vBits t)" "vBits t ! nBitsUsed s"
      using True Suc.prems(1,3) by (simp_all add: built_Suc nth_append del: TraverseAndBuild.simps split: if_splits)
    show ?thesis
    proof (cases "pos * 2 + 1 < CalcTreeWidth ?n h")
      case w: True
      have B: "built ?n (Suc h) pos ids m = (True # fst ?l @ fst ?r, snd ?l @ snd ?r)"
        using True w by (simp add: built_Suc del: TraverseAndBuild.simps)
      let ?s1 = "?s\<lparr>nBitsUsed := length (b @ [True]) + length (fst ?l), nHashUsed := length hs + length (snd ?l),
          xs_vMatch := xs_vMatch s @ map ((!) ids) (selected ?n h (pos * 2) m),
          xs_vnIndex := xs_vnIndex s @ selected ?n h (pos * 2) m\<rparr>"
      have l: "TraverseAndExtract t h (pos * 2) ?s = (CalcHash ?n h (pos * 2) ids, ?s1)"
        using Suc.IH [of "b @ [True]" "pos * 2" "fst ?r @ b'" hs "snd ?r @ hs'" ?s] Suc.prems wl B by (simp del: TraverseAndBuild.simps)
      have r: "TraverseAndExtract t h (pos * 2 + 1) ?s1 = (CalcHash ?n h (pos * 2 + 1) ids,
          ?s1\<lparr>nBitsUsed := length (b @ [True] @ fst ?l) + length (fst ?r), nHashUsed := length (hs @ snd ?l) + length (snd ?r),
            xs_vMatch := xs_vMatch ?s1 @ map ((!) ids) (selected ?n h (pos * 2 + 1) m),
            xs_vnIndex := xs_vnIndex ?s1 @ selected ?n h (pos * 2 + 1) m\<rparr>)"
        using Suc.IH [of "b @ [True] @ fst ?l" "pos * 2 + 1" b' "hs @ snd ?l" hs' ?s1] Suc.prems w B by (simp del: TraverseAndBuild.simps)
      have "CalcHash ?n h (pos * 2 + 1) ids \<noteq> CalcHash ?n h (pos * 2) ids"
        using assms(1) w by (metis siblings_differ_def)
      then show ?thesis
        using bit l r w B assms(2) by (simp add: Let_def selected_Suc del: TraverseAndBuild.simps)
    next
      case w: False
      have B: "built ?n (Suc h) pos ids m = (True # fst ?l, snd ?l)"
        using True w by (simp add: built_Suc del: TraverseAndBuild.simps)
      have "selected ?n h (pos * 2 + 1) m = []" using w by (intro selected_beyond) simp
      then show ?thesis
        using Suc.IH [of "b @ [True]" "pos * 2" b' hs hs' ?s] Suc.prems wl B bit w assms(2)
        by (simp add: Let_def selected_Suc del: TraverseAndBuild.simps)
    qed
  qed
qed

text \<open>A built tree has at most one hash per transaction and at least one bit per hash.\<close>

lemma built_sizes:
  "pos < CalcTreeWidth n h \<Longrightarrow>
    length (snd (built n h pos ids m)) \<le> length [pos * 2 ^ h..<min ((pos + 1) * 2 ^ h) n] \<and>
    length (snd (built n h pos ids m)) \<le> length (fst (built n h pos ids m))"
proof (induction h arbitrary: pos)
  case (Suc h)
  have w: "pos * 2 < CalcTreeWidth n h" using Suc.prems by (simp add: CalcTreeWidth_Suc)
  have one: "1 \<le> length [pos * 2 ^ h..<min ((pos + 1) * 2 ^ h) n]" if "pos < CalcTreeWidth n h" for pos h
  proof -
    have "(pos + 1) * 2 ^ h \<le> n + 2 ^ h - 1"
      using that unfolding CalcTreeWidth_def by (metis Suc_eq_plus1 Suc_leI div_le_mono div_times_less_eq_dividend le_trans mult_le_mono1)
    moreover have "1 \<le> (2::nat) ^ h" "(pos + 1) * 2 ^ h = pos * 2 ^ h + 2 ^ h" by simp_all
    ultimately have "pos * 2 ^ h < n" "pos * 2 ^ h < (pos + 1) * 2 ^ h" by linarith+
    then have "pos * 2 ^ h < min ((pos + 1) * 2 ^ h) n" by (simp only: min_less_iff_conj)
    then show ?thesis by (simp only: length_upt)
  qed
  let ?a = "pos * 2 * 2 ^ h" and ?b = "(pos * 2 + 1) * 2 ^ h" and ?c = "(pos * 2 + 1 + 1) * 2 ^ h"
  have E: "pos * 2 ^ Suc h = ?a" "(pos + 1) * 2 ^ Suc h = ?c" by simp_all
  have le: "?a \<le> ?b" "?b \<le> ?c" by (intro mult_le_mono1; simp)+
  have "length [?a..<min ?b n] + length [?b..<min ?c n] \<le> length [?a..<min ?c n]" using le by auto
  then show ?case
    using Suc.IH [OF w] Suc.IH [of "pos * 2 + 1"] one [OF Suc.prems]
    unfolding built_Suc E by (auto simp del: upt_conv_Nil length_upt)
qed (simp add: Let_def)

subsection \<open>The wire format keeps the tree\<close>

lemma bit_flag: "bit (if b then push_bit p 1 else 0 :: byte) k \<longleftrightarrow> b \<and> k = p \<and> k < 8"
  by (simp add: bit_exp_iff) auto

lemma bit_fold_flags:
  "bit (fold (\<lambda>p b. b OR (if bs ! p then push_bit p 1 else 0)) ps (c :: byte)) k \<longleftrightarrow>
    bit c k \<or> k < 8 \<and> k \<in> set ps \<and> bs ! k"
proof (induction ps arbitrary: c)
  case (Cons p ps)
  have "bit (c OR (if bs ! p then push_bit p 1 else 0)) k \<longleftrightarrow> bit c k \<or> bs ! p \<and> k = p \<and> k < 8"
    unfolding bit_or_iff bit_flag by (rule refl)
  then show ?case unfolding fold.simps comp_apply Cons.IH by auto
qed simp

lemma bit_bits_byte: "bit (bits_byte bs) k \<longleftrightarrow> k < 8 \<and> k < length bs \<and> bs ! k"
  unfolding bits_byte_def bit_fold_flags by auto

lemma unpack_pack_bits:
  "unpack_bits (pack_bits bits) = bits @ replicate (8 * ((length bits + 7) div 8) - length bits) False"
proof (rule nth_equalityI)
  fix p
  assume "p < length (unpack_bits (pack_bits bits))"
  then have p: "p < 8 * ((length bits + 7) div 8)" by (simp add: unpack_bits_def pack_bits_def mult.commute)
  then have k: "p div 8 < (length bits + 7) div 8" by (simp add: div_less_iff_less_mult mult.commute)
  have "unpack_bits (pack_bits bits) ! p = bit (bits_byte (drop (8 * (p div 8)) bits)) (p mod 8)"
    using p k and_exp_eq_0_iff_not_bit [of "bits_byte (drop (8 * (p div 8)) bits)" "p mod 8"]
    by (simp add: unpack_bits_def pack_bits_def mult.commute)
  also have "\<dots> \<longleftrightarrow> p < length bits \<and> bits ! p"
    unfolding bit_bits_byte using div_mult_mod_eq [of p 8] by (auto simp: mult.commute less_diff_conv)
  finally show "unpack_bits (pack_bits bits) ! p =
      (bits @ replicate (8 * ((length bits + 7) div 8) - length bits) False) ! p"
    using p by (simp add: nth_append)
qed (simp add: unpack_bits_def pack_bits_def)

interpretation hashes_codec: canonical_codec "Serialize_vector (\<lambda>h. h)" "Unserialize_vector (stream_read 32)"
  "\<lambda>v. size_ok v \<and> list_all (\<lambda>h. length h = 32) v"
  by (rule blob_codec.vector_codec)

lemma CPartialMerkleTree_wire:
  assumes "nTransactions t < 2 ^ 32" "size_ok (vHash t)" "list_all (\<lambda>h. length h = 32) (vHash t)" "size_ok (pack_bits (vBits t))"
  shows "Unserialize_CPartialMerkleTree (Serialize_CPartialMerkleTree t @ r) =
    Inr (t\<lparr>vBits := vBits t @ replicate (8 * ((length (vBits t) + 7) div 8) - length (vBits t)) False, fBad := False\<rparr>, r)"
  using assms
  by (cases t) (simp add: Serialize_CPartialMerkleTree_def Unserialize_CPartialMerkleTree_def u32_codec.roundtrip
      hashes_codec.roundtrip vch_codec.roundtrip unpack_pack_bits unat_of_nat)

subsection \<open>Soundness of extraction\<close>






subsection \<open>Properties\<close>

lemma max_transactions: "MAX_BLOCK_WEIGHT div MIN_TRANSACTION_WEIGHT = 16666"
  by (simp add: consts_defs)

lemma built_bits_bound: "length (fst (built n h pos ids m)) < 2 ^ Suc h"
proof (induction h arbitrary: pos)
  case (Suc h)
  show ?case using Suc.IH [of "pos * 2"] Suc.IH [of "pos * 2 + 1"] unfolding built_Suc by auto
qed simp

lemma tree_height_bound: "0 < n \<Longrightarrow> n \<le> 16666 \<Longrightarrow> tree_height n 0 \<le> 15"
proof (rule ccontr)
  assume "0 < n" "n \<le> 16666" "\<not> tree_height n 0 \<le> 15"
  then have "1 < CalcTreeWidth n 15" using tree_height_spec [of n 0] by simp
  with \<open>n \<le> 16666\<close> show False by (simp add: CalcTreeWidth_def)
qed

lemma length_CalcHash: "list_all (\<lambda>x. length x = 32) ids \<Longrightarrow> pos < CalcTreeWidth (length ids) h \<Longrightarrow>
    length (CalcHash (length ids) h pos ids) = 32"
  by (cases h) (simp_all add: list_all_length Let_def)

lemma built_hashes: "list_all (\<lambda>x. length x = 32) ids \<Longrightarrow> pos < CalcTreeWidth (length ids) h \<Longrightarrow>
    list_all (\<lambda>x. length x = 32) (snd (built (length ids) h pos ids m))"
proof (induction h arbitrary: pos)
  case (Suc h)
  have "pos * 2 < CalcTreeWidth (length ids) h" using Suc.prems(2) by (simp add: CalcTreeWidth_Suc)
  then show ?case
    using Suc.IH [of "pos * 2"] Suc.IH [of "pos * 2 + 1"] Suc.prems(1) length_CalcHash [OF Suc.prems]
    unfolding built_Suc by (simp del: CalcHash.simps)
qed (simp add: list_all_length)

text \<open>
  C30: a partial tree built for a block of at most as many transactions as fit a block, sent and received,
  yields the Merkle root of the block and exactly the selected transactions with their positions, as long
  as no two sibling nodes of the tree have the same hash.
\<close>

theorem partial_tree_roundtrip:
  assumes "ids \<noteq> []" "length ids \<le> MAX_BLOCK_WEIGHT div MIN_TRANSACTION_WEIGHT"
    and "list_all (\<lambda>h. length h = 32) ids" "siblings_differ ids"
  shows "\<exists>t. Unserialize_CPartialMerkleTree (Serialize_CPartialMerkleTree (CPartialMerkleTree_new ids vMatch) @ r) = Inr (t, r) \<and>
    ExtractMatches t [] = (fst (ComputeMerkleRoot ids),
      map ((!) ids) (filter ((!) vMatch) [0..<length ids]), filter ((!) vMatch) [0..<length ids])"
proof -
  let ?n = "length ids" and ?H = "tree_height (length ids) 0"
  let ?B = "built ?n ?H 0 ids vMatch"
  let ?t = "CPartialMerkleTree_new ids vMatch"
  have n: "0 < ?n" "?n \<le> 16666" using assms(1,2) unfolding max_transactions by simp_all
  have w: "0 < CalcTreeWidth ?n ?H" using n(1) by (rule CalcTreeWidth_pos)
  have t: "?t = \<lparr>nTransactions = ?n, vBits = fst ?B, vHash = snd ?B, fBad = False\<rparr>"
    by (simp add: CPartialMerkleTree_new_def split: prod.split)
  have sel: "selected ?n ?H 0 vMatch = filter ((!) vMatch) [0..<?n]"
  proof -
    have "(?n + 2 ^ ?H - 1) div 2 ^ ?H < 2"
      using tree_height_spec [OF n(1), of 0] unfolding CalcTreeWidth_def by linarith
    then have "?n + 2 ^ ?H - 1 < 2 * 2 ^ ?H" by (simp only: div_less_iff_less_mult zero_less_power zero_less_numeral)
    then have "?n \<le> 2 ^ ?H" by linarith
    then show ?thesis by (simp add: selected_def min_def)
  qed
  have sz: "length (snd ?B) \<le> ?n" "length (snd ?B) \<le> length (fst ?B)" using built_sizes [OF w] by auto
  have "(2::nat) ^ Suc ?H \<le> 2 ^ 16" using tree_height_bound [OF n] by (intro power_increasing) auto
  then have bits: "length (fst ?B) < 65536" using built_bits_bound [of ?n ?H 0 ids vMatch] by simp
  have ok: "nTransactions ?t < 2 ^ 32" "size_ok (vHash ?t)" "size_ok (pack_bits (vBits ?t))"
    using n sz bits unfolding t by (simp_all add: size_ok_def pack_bits_def)
  have len: "list_all (\<lambda>h. length h = 32) (vHash ?t)" using built_hashes [OF assms(3) w] by (simp add: t)
  let ?p = "replicate (8 * ((length (fst ?B) + 7) div 8) - length (fst ?B)) False"
  let ?u = "\<lparr>nTransactions = ?n, vBits = fst ?B @ ?p, vHash = snd ?B, fBad = False\<rparr>"
  have wire: "Unserialize_CPartialMerkleTree (Serialize_CPartialMerkleTree ?t @ r) = Inr (?u, r)"
    using CPartialMerkleTree_wire [OF ok(1,2) len ok(3)] by (simp add: t)
  let ?s = "\<lparr>xs_bad = False, nBitsUsed = 0, nHashUsed = 0, xs_vMatch = [], xs_vnIndex = []\<rparr>"
  have "TraverseAndExtract ?u ?H 0 ?s = (CalcHash ?n ?H 0 ids,
      ?s\<lparr>nBitsUsed := length (fst ?B), nHashUsed := length (snd ?B),
        xs_vMatch := map ((!) ids) (selected ?n ?H 0 vMatch), xs_vnIndex := selected ?n ?H 0 vMatch\<rparr>)"
    using TraverseAndExtract_built [OF assms(4), of ?u "[]" ?H 0 vMatch ?p "[]" "[]" ?s] w by simp
  moreover have "CalcHash ?n ?H 0 ids = fst (ComputeMerkleRoot ids)"
    using n(2) by (simp add: CalcHash_root [OF assms(1)] ComputeMerkleRoot_eq)
  moreover have "length (snd ?B) \<le> 8 * ((length (fst ?B) + 7) div 8)" using sz(2) by linarith
  ultimately have "ExtractMatches ?u [] = (fst (ComputeMerkleRoot ids),
      map ((!) ids) (filter ((!) vMatch) [0..<?n]), filter ((!) vMatch) [0..<?n])"
    using n sz assms(1) unfolding ExtractMatches_def max_transactions by (simp add: sel)
  with wire show ?thesis by blast
qed

theorem partial_tree_roundtrip_witness:
  "\<exists>t. Unserialize_CPartialMerkleTree
      (Serialize_CPartialMerkleTree (CPartialMerkleTree_new [replicate 32 1, replicate 32 2] [False, True]) @ []) = Inr (t, []) \<and>
    ExtractMatches t [] = (fst (ComputeMerkleRoot [replicate 32 1, replicate 32 2]), [replicate 32 2], [1])"
proof -
  let ?ids = "[replicate 32 1, replicate 32 2] :: uint256 list"
  have w: "CalcTreeWidth 2 (Suc h) = 1" for h
    by (induction h) (simp_all add: CalcTreeWidth_Suc)
  have "siblings_differ ?ids"
    unfolding siblings_differ_def
  proof (intro allI impI)
    fix h pos :: nat
    assume "pos * 2 + 1 < CalcTreeWidth (length ?ids) h"
    then have "h = 0 \<and> pos = 0" using w by (cases h) (auto simp: numeral_2_eq_2 [symmetric])
    then show "CalcHash (length ?ids) h (pos * 2) ?ids \<noteq> CalcHash (length ?ids) h (pos * 2 + 1) ?ids"
      by (simp add: numeral_eq_Suc)
  qed
  then show ?thesis
    using partial_tree_roundtrip [of ?ids "[False, True]" "[]"] by (simp add: max_transactions)
qed



end
