(* ===== verification/SC_Cash.thy ===== *)
theory SC_Cash
  imports SC_Transaction "HOL-Library.AList"
begin

text \<open>
  The set of unspent outputs (\<^verbatim>\<open>cash.h\<close>, \<^verbatim>\<open>cash.cpp\<close>): the entry \<open>Cash\<close>, the abstract view \<open>CCashView\<close> as a
  table of its virtual functions, and the cache \<open>CCashViewCache\<close> on top of any other view. A map of the
  cache is an association list with distinct keys, in the order in which it is iterated. A thrown
  \<open>std::logic_error\<close> and a failed assertion are errors. Memory accounting is left out.
\<close>

subsection \<open>Entries\<close>

record Cash =
  cash_out :: CTxOut
  cash_fCashBase :: bool
  cash_nHeight :: nat

definition Cash_new :: "CTxOut \<Rightarrow> int \<Rightarrow> bool \<Rightarrow> Cash" where
  "Cash_new outIn nHeightIn fCashBaseIn =
    \<lparr>cash_out = outIn, cash_fCashBase = fCashBaseIn, cash_nHeight = nat (nHeightIn mod 2 ^ 31)\<rparr>"

definition cashEmpty :: Cash where
  "cashEmpty = \<lparr>cash_out = CTxOut_null, cash_fCashBase = False, cash_nHeight = 0\<rparr>"

definition Cash_Clear :: "Cash \<Rightarrow> Cash" where
  "Cash_Clear c = c\<lparr>cash_out := CTxOut_null, cash_fCashBase := False, cash_nHeight := 0\<rparr>"

definition Cash_IsSpent :: "Cash \<Rightarrow> bool" where
  "Cash_IsSpent c = CTxOut_IsNull (cash_out c)"

record CCashCacheEntry =
  ce_cash :: Cash
  ce_DIRTY :: bool
  ce_FRESH :: bool

definition CCashCacheEntry_new :: "Cash \<Rightarrow> CCashCacheEntry" where
  "CCashCacheEntry_new c = \<lparr>ce_cash = c, ce_DIRTY = False, ce_FRESH = False\<rparr>"

type_synonym CCashMap = "(COutPoint \<times> CCashCacheEntry) list"

datatype cash_error = CashLogicError | CashAssertFails

text \<open>
  The virtual functions of a view with state \<open>'v\<close>. Reading may change the state, as a cache fills itself;
  \<open>None\<close> stands for the answer \<open>false\<close>.
\<close>

record 'v CCashView =
  vw_GetCash :: "'v \<Rightarrow> COutPoint \<Rightarrow> Cash option \<times> 'v"
  vw_GetBestBlock :: "'v \<Rightarrow> uint256 \<times> 'v"
  vw_BatchWrite :: "'v \<Rightarrow> CCashMap \<Rightarrow> uint256 \<Rightarrow> cash_error + bool \<times> 'v"

subsection \<open>The cache\<close>

record 'v CCashViewCache =
  cv_base :: 'v
  cv_hashBlock :: uint256
  cv_cacheCash :: CCashMap

definition CCashViewCache_new :: "'v \<Rightarrow> 'v CCashViewCache" where
  "CCashViewCache_new baseIn = \<lparr>cv_base = baseIn, cv_hashBlock = uint256_null, cv_cacheCash = []\<rparr>"

definition FetchCash ::
  "'v CCashView \<Rightarrow> COutPoint \<Rightarrow> 'v CCashViewCache \<Rightarrow> CCashCacheEntry option \<times> 'v CCashViewCache" where
  "FetchCash V outpoint c =
    (case map_of (cv_cacheCash c) outpoint of
       Some it \<Rightarrow> (Some it, c)
     | None \<Rightarrow>
         (case vw_GetCash V (cv_base c) outpoint of
            (None, b) \<Rightarrow> (None, c\<lparr>cv_base := b\<rparr>)
          | (Some tmp, b) \<Rightarrow>
              let ret = (CCashCacheEntry_new tmp)\<lparr>ce_FRESH := Cash_IsSpent tmp\<rparr> in
              (Some ret, c\<lparr>cv_base := b, cv_cacheCash := (outpoint, ret) # cv_cacheCash c\<rparr>)))"

definition CCashViewCache_GetCash ::
  "'v CCashView \<Rightarrow> 'v CCashViewCache \<Rightarrow> COutPoint \<Rightarrow> Cash option \<times> 'v CCashViewCache" where
  "CCashViewCache_GetCash V c outpoint =
    (case FetchCash V outpoint c of
       (Some it, c) \<Rightarrow> (if \<not> Cash_IsSpent (ce_cash it) then Some (ce_cash it) else None, c)
     | (None, c) \<Rightarrow> (None, c))"

definition AddCash ::
  "COutPoint \<Rightarrow> Cash \<Rightarrow> bool \<Rightarrow> 'v CCashViewCache \<Rightarrow> cash_error + 'v CCashViewCache" where
  "AddCash outpoint cash possible_overwrite c =
    (if Cash_IsSpent cash then Inl CashAssertFails
     else if IsUnspendable (scriptPubKey (cash_out cash)) then Inr c
     else let it = (case map_of (cv_cacheCash c) outpoint of
                      Some e \<Rightarrow> e | None \<Rightarrow> CCashCacheEntry_new cashEmpty) in
       if \<not> possible_overwrite \<and> \<not> Cash_IsSpent (ce_cash it) then Inl CashLogicError
       else let fresh = (\<not> possible_overwrite \<and> \<not> ce_DIRTY it);
                e = \<lparr>ce_cash = cash, ce_DIRTY = True, ce_FRESH = ce_FRESH it \<or> fresh\<rparr> in
         Inr (c\<lparr>cv_cacheCash := AList.update outpoint e (cv_cacheCash c)\<rparr>))"

definition SpendCash ::
  "'v CCashView \<Rightarrow> COutPoint \<Rightarrow> 'v CCashViewCache \<Rightarrow> Cash option \<times> 'v CCashViewCache" where
  "SpendCash V outpoint c =
    (case FetchCash V outpoint c of
       (None, c) \<Rightarrow> (None, c)
     | (Some it, c) \<Rightarrow>
         (Some (ce_cash it),
          if ce_FRESH it then c\<lparr>cv_cacheCash := AList.delete outpoint (cv_cacheCash c)\<rparr>
          else c\<lparr>cv_cacheCash := AList.update outpoint
                 (it\<lparr>ce_DIRTY := True, ce_cash := Cash_Clear (ce_cash it)\<rparr>) (cv_cacheCash c)\<rparr>))"

definition AccessCash :: "'v CCashView \<Rightarrow> COutPoint \<Rightarrow> 'v CCashViewCache \<Rightarrow> Cash \<times> 'v CCashViewCache" where
  "AccessCash V outpoint c =
    (case FetchCash V outpoint c of (None, c) \<Rightarrow> (cashEmpty, c) | (Some it, c) \<Rightarrow> (ce_cash it, c))"

definition HaveCash :: "'v CCashView \<Rightarrow> COutPoint \<Rightarrow> 'v CCashViewCache \<Rightarrow> bool \<times> 'v CCashViewCache" where
  "HaveCash V outpoint c =
    (case FetchCash V outpoint c of (None, c) \<Rightarrow> (False, c) | (Some it, c) \<Rightarrow> (\<not> Cash_IsSpent (ce_cash it), c))"

definition HaveCashInCache :: "COutPoint \<Rightarrow> 'v CCashViewCache \<Rightarrow> bool" where
  "HaveCashInCache outpoint c =
    (case map_of (cv_cacheCash c) outpoint of None \<Rightarrow> False | Some it \<Rightarrow> \<not> Cash_IsSpent (ce_cash it))"

definition CCashViewCache_GetBestBlock :: "'v CCashView \<Rightarrow> 'v CCashViewCache \<Rightarrow> uint256 \<times> 'v CCashViewCache" where
  "CCashViewCache_GetBestBlock V c =
    (if cv_hashBlock c = uint256_null
     then (case vw_GetBestBlock V (cv_base c) of
             (h, b) \<Rightarrow> (h, c\<lparr>cv_base := b, cv_hashBlock := h\<rparr>))
     else (cv_hashBlock c, c))"

definition SetBestBlock :: "uint256 \<Rightarrow> 'v CCashViewCache \<Rightarrow> 'v CCashViewCache" where
  "SetBestBlock hashBlockIn c = c\<lparr>cv_hashBlock := hashBlockIn\<rparr>"

definition BatchWrite_entry :: "COutPoint \<Rightarrow> CCashCacheEntry \<Rightarrow> CCashMap \<Rightarrow> cash_error + CCashMap" where
  "BatchWrite_entry p it us =
    (case map_of us p of
       None \<Rightarrow>
         if \<not> (ce_FRESH it \<and> Cash_IsSpent (ce_cash it))
         then Inr (AList.update p \<lparr>ce_cash = ce_cash it, ce_DIRTY = True, ce_FRESH = ce_FRESH it\<rparr> us)
         else Inr us
     | Some itUs \<Rightarrow>
         if ce_FRESH it \<and> \<not> Cash_IsSpent (ce_cash itUs) then Inl CashLogicError
         else if ce_FRESH itUs \<and> Cash_IsSpent (ce_cash it) then Inr (AList.delete p us)
         else Inr (AList.update p (itUs\<lparr>ce_cash := ce_cash it, ce_DIRTY := True\<rparr>) us))"

fun BatchWrite_entries :: "CCashMap \<Rightarrow> CCashMap \<Rightarrow> cash_error + CCashMap" where
  "BatchWrite_entries [] us = Inr us"
| "BatchWrite_entries ((p, it) # mapCash) us =
    (if \<not> ce_DIRTY it then BatchWrite_entries mapCash us
     else err_bind (BatchWrite_entry p it us) (BatchWrite_entries mapCash))"

definition CCashViewCache_BatchWrite ::
  "'v CCashViewCache \<Rightarrow> CCashMap \<Rightarrow> uint256 \<Rightarrow> cash_error + bool \<times> 'v CCashViewCache" where
  "CCashViewCache_BatchWrite c mapCash hashBlockIn =
    err_bind (BatchWrite_entries mapCash (cv_cacheCash c)) (\<lambda>us.
      Inr (True, c\<lparr>cv_cacheCash := us, cv_hashBlock := hashBlockIn\<rparr>))"

definition Flush :: "'v CCashView \<Rightarrow> 'v CCashViewCache \<Rightarrow> cash_error + bool \<times> 'v CCashViewCache" where
  "Flush V c =
    err_bind (vw_BatchWrite V (cv_base c) (cv_cacheCash c) (cv_hashBlock c)) (\<lambda>(fOk, b).
      Inr (fOk, c\<lparr>cv_base := b, cv_cacheCash := []\<rparr>))"

definition Uncache :: "COutPoint \<Rightarrow> 'v CCashViewCache \<Rightarrow> 'v CCashViewCache" where
  "Uncache hash c =
    (case map_of (cv_cacheCash c) hash of
       Some it \<Rightarrow> if \<not> ce_DIRTY it \<and> \<not> ce_FRESH it
         then c\<lparr>cv_cacheCash := AList.delete hash (cv_cacheCash c)\<rparr> else c
     | None \<Rightarrow> c)"

definition GetCacheSize :: "'v CCashViewCache \<Rightarrow> nat" where
  "GetCacheSize c = length (cv_cacheCash c)"

text \<open>The cache as a view.\<close>

definition CCashViewCache_view :: "'v CCashView \<Rightarrow> 'v CCashViewCache CCashView" where
  "CCashViewCache_view V =
    \<lparr>vw_GetCash = CCashViewCache_GetCash V, vw_GetBestBlock = CCashViewCache_GetBestBlock V,
     vw_BatchWrite = CCashViewCache_BatchWrite\<rparr>"

subsection \<open>Operations on transactions\<close>

fun AddCash_outputs ::
  "'v CCashView \<Rightarrow> uint256 \<Rightarrow> bool \<Rightarrow> int \<Rightarrow> bool \<Rightarrow> nat \<Rightarrow> CTxOut list \<Rightarrow> 'v CCashViewCache \<Rightarrow>
    cash_error + 'v CCashViewCache" where
  "AddCash_outputs V txid fCashBase nHeight check i [] c = Inr c"
| "AddCash_outputs V txid fCashBase nHeight check i (txout # txouts) c =
    (let p = \<lparr>op_hash = txid, op_n = of_nat i\<rparr>;
         (overwrite, c) = (if check then HaveCash V p c else (fCashBase, c)) in
     err_bind (AddCash p (Cash_new txout nHeight fCashBase) overwrite c)
       (AddCash_outputs V txid fCashBase nHeight check (Suc i) txouts))"

definition AddCash_tx ::
  "'v CCashView \<Rightarrow> CTransaction \<Rightarrow> int \<Rightarrow> bool \<Rightarrow> 'v CCashViewCache \<Rightarrow> cash_error + 'v CCashViewCache" where
  "AddCash_tx V tx nHeight check c =
    AddCash_outputs V (tx_hash tx) (IsCashBase tx) nHeight check 0 (vout tx) c"

fun value_in :: "'v CCashView \<Rightarrow> CTxIn list \<Rightarrow> CAmount \<Rightarrow> 'v CCashViewCache \<Rightarrow> CAmount \<times> 'v CCashViewCache" where
  "value_in V [] nResult c = (nResult, c)"
| "value_in V (txin # txins) nResult c =
    (let (cash, c) = AccessCash V (prevout txin) c in
     value_in V txins (s64 (nResult + nValue (cash_out cash))) c)"

definition GetValueIn :: "'v CCashView \<Rightarrow> ('a) CMutableTransaction_scheme \<Rightarrow> 'v CCashViewCache \<Rightarrow> CAmount \<times> 'v CCashViewCache" where
  "GetValueIn V tx c = (if IsCashBase tx then (0, c) else value_in V (vin tx) 0 c)"

fun have_inputs :: "'v CCashView \<Rightarrow> CTxIn list \<Rightarrow> 'v CCashViewCache \<Rightarrow> bool \<times> 'v CCashViewCache" where
  "have_inputs V [] c = (True, c)"
| "have_inputs V (txin # txins) c =
    (let (have_it, c) = HaveCash V (prevout txin) c in
     if \<not> have_it then (False, c) else have_inputs V txins c)"

definition HaveInputs :: "'v CCashView \<Rightarrow> ('a) CMutableTransaction_scheme \<Rightarrow> 'v CCashViewCache \<Rightarrow> bool \<times> 'v CCashViewCache" where
  "HaveInputs V tx c = (if IsCashBase tx then (True, c) else have_inputs V (vin tx) c)"

subsection \<open>The set of unspent outputs a view stands for\<close>

definition live :: "Cash \<Rightarrow> Cash option" where
  "live c = (if Cash_IsSpent c then None else Some c)"

type_synonym utxo = "COutPoint \<Rightarrow> Cash option"

definition overlay :: "CCashMap \<Rightarrow> utxo \<Rightarrow> utxo" where
  "overlay m u p = (case map_of m p of Some e \<Rightarrow> live (ce_cash e) | None \<Rightarrow> u p)"

definition cache_utxo :: "('v \<Rightarrow> utxo) \<Rightarrow> 'v CCashViewCache \<Rightarrow> utxo" where
  "cache_utxo U c = overlay (cv_cacheCash c) (U (cv_base c))"

text \<open>
  An entry that is not dirty agrees with the base, and a fresh one is not in the base. Writing a map
  means taking over its dirty entries; it is compatible when no dirty fresh entry is in the target.
\<close>

definition entry_ok :: "Cash option \<Rightarrow> CCashCacheEntry \<Rightarrow> bool" where
  "entry_ok b e \<longleftrightarrow> (\<not> ce_DIRTY e \<longrightarrow> live (ce_cash e) = b) \<and> (ce_FRESH e \<longrightarrow> b = None)"

definition map_ok :: "utxo \<Rightarrow> CCashMap \<Rightarrow> bool" where
  "map_ok u m \<longleftrightarrow> distinct (map fst m) \<and> (\<forall>p e. map_of m p = Some e \<longrightarrow> entry_ok (u p) e)"

definition cache_inv :: "('v \<Rightarrow> bool) \<Rightarrow> ('v \<Rightarrow> utxo) \<Rightarrow> 'v CCashViewCache \<Rightarrow> bool" where
  "cache_inv I U c \<longleftrightarrow> I (cv_base c) \<and> map_ok (U (cv_base c)) (cv_cacheCash c)"

definition compatible :: "utxo \<Rightarrow> CCashMap \<Rightarrow> bool" where
  "compatible u m \<longleftrightarrow> distinct (map fst m) \<and>
    (\<forall>p e. map_of m p = Some e \<longrightarrow> ce_DIRTY e \<longrightarrow> ce_FRESH e \<longrightarrow> u p = None)"

definition written :: "CCashMap \<Rightarrow> utxo \<Rightarrow> utxo" where
  "written m u p =
    (case map_of m p of Some e \<Rightarrow> if ce_DIRTY e then live (ce_cash e) else u p | None \<Rightarrow> u p)"

locale cash_view =
  fixes V :: "'v CCashView"
    and I :: "'v \<Rightarrow> bool"
    and U :: "'v \<Rightarrow> utxo"
  assumes get_law: "I v \<Longrightarrow> vw_GetCash V v p = (r, v') \<Longrightarrow> r = U v p \<and> I v' \<and> U v' = U v"
    and unspent_law: "I v \<Longrightarrow> U v p = Some c \<Longrightarrow> \<not> Cash_IsSpent c"
    and best_law: "I v \<Longrightarrow> vw_GetBestBlock V v = (h, v') \<Longrightarrow> I v' \<and> U v' = U v"
    and write_law: "I v \<Longrightarrow> compatible (U v) m \<Longrightarrow> h \<noteq> uint256_null \<Longrightarrow>
      \<exists>v'. vw_BatchWrite V v m h = Inr (True, v') \<and> I v' \<and> U v' = written m (U v)"

lemma live_simps [simp]: "live cashEmpty = None" "live (Cash_Clear c) = None"
  by (simp_all add: live_def cashEmpty_def Cash_Clear_def Cash_IsSpent_def CTxOut_null_def CTxOut_IsNull_def)

lemma live_None: "live c = None \<longleftrightarrow> Cash_IsSpent c"
  by (simp add: live_def)

lemma live_Some [simp]: "\<not> Cash_IsSpent c \<Longrightarrow> live c = Some c"
  by (simp add: live_def)

lemma map_ok_update: "map_ok u m \<Longrightarrow> entry_ok (u p) e \<Longrightarrow> map_ok u (AList.update p e m)"
  by (auto simp: map_ok_def distinct_update update_conv split: if_splits)

lemma map_ok_delete: "map_ok u m \<Longrightarrow> map_ok u (AList.delete p m)"
  by (auto simp: map_ok_def distinct_delete delete_conv split: if_splits)

lemma map_ok_compatible: "map_ok u m \<Longrightarrow> compatible u m"
  by (auto simp: map_ok_def compatible_def entry_ok_def)

lemma overlay_simps [simp]:
  "overlay [] u = u"
  "overlay ((p, e) # m) u = (overlay m u)(p := live (ce_cash e))"
  "overlay (AList.update p e m) u = (overlay m u)(p := live (ce_cash e))"
  "overlay (AList.delete p m) u = (overlay m u)(p := u p)"
  by (auto simp: overlay_def fun_eq_iff update_conv delete_conv)

lemma overlay_at: "map_of m p = Some e \<Longrightarrow> overlay m u p = live (ce_cash e)" "map_of m p = None \<Longrightarrow> overlay m u p = u p"
  by (simp_all add: overlay_def)

lemma written_own: "map_ok u m \<Longrightarrow> written m u = overlay m u"
  by (auto simp: map_ok_def written_def overlay_def entry_ok_def fun_eq_iff split: option.splits)

lemma map_ok_at: "map_ok u m \<Longrightarrow> map_of m p = Some e \<Longrightarrow> entry_ok (u p) e"
  by (simp add: map_ok_def)

text \<open>One entry written into a map of our own, and then a whole map.\<close>

lemma BatchWrite_entry_ok:
  assumes m: "map_ok u us" and d: "ce_DIRTY e" and fresh: "ce_FRESH e \<Longrightarrow> overlay us u p = None"
  shows "\<exists>us'. BatchWrite_entry p e us = Inr us' \<and> map_ok u us' \<and> overlay us' u = (overlay us u)(p := live (ce_cash e))"
proof (cases "map_of us p")
  case None
  show ?thesis
  proof (cases "ce_FRESH e \<and> Cash_IsSpent (ce_cash e)")
    case True
    then have "overlay us u p = None" "live (ce_cash e) = None" using fresh by (simp_all add: live_def)
    with True None m show ?thesis by (auto simp: BatchWrite_entry_def)
  next
    case False
    let ?e = "\<lparr>ce_cash = ce_cash e, ce_DIRTY = True, ce_FRESH = ce_FRESH e\<rparr>"
    have "map_ok u (AList.update p ?e us)"
      using m fresh None by (intro map_ok_update) (auto simp: entry_ok_def overlay_at)
    with None False show ?thesis by (auto simp: BatchWrite_entry_def)
  qed
next
  case (Some e')
  have ok: "entry_ok (u p) e'" using m Some by (rule map_ok_at)
  have nf: "\<not> (ce_FRESH e \<and> \<not> Cash_IsSpent (ce_cash e'))"
    using fresh Some by (auto simp: overlay_at live_def split: if_splits)
  show ?thesis
  proof (cases "ce_FRESH e' \<and> Cash_IsSpent (ce_cash e)")
    case True
    with ok have "u p = live (ce_cash e)" by (simp add: entry_ok_def live_def)
    with Some m nf True show ?thesis by (auto simp: BatchWrite_entry_def map_ok_delete)
  next
    case False
    let ?e = "e'\<lparr>ce_cash := ce_cash e, ce_DIRTY := True\<rparr>"
    have "map_ok u (AList.update p ?e us)" using m ok by (intro map_ok_update) (auto simp: entry_ok_def)
    with Some False nf show ?thesis by (auto simp: BatchWrite_entry_def)
  qed
qed

lemma compatible_Cons:
  assumes "compatible u ((p, e) # m)"
  shows "map_of m p = None" "compatible u m" "ce_DIRTY e \<Longrightarrow> ce_FRESH e \<Longrightarrow> u p = None"
proof -
  show none: "map_of m p = None" and "ce_DIRTY e \<Longrightarrow> ce_FRESH e \<Longrightarrow> u p = None"
    using assms by (auto simp: compatible_def map_of_eq_None_iff)
  show "compatible u m"
    unfolding compatible_def
  proof (intro conjI allI impI)
    show "distinct (map fst m)" using assms by (simp add: compatible_def)
    fix q e'
    assume q: "map_of m q = Some e'" "ce_DIRTY e'" "ce_FRESH e'"
    with none have "map_of ((p, e) # m) q = Some e'" by auto
    with q(2,3) show "u q = None" using assms unfolding compatible_def by blast
  qed
qed

lemma compatible_upd: "compatible u m \<Longrightarrow> map_of m p = None \<Longrightarrow> compatible (u(p := x)) m"
  by (auto simp: compatible_def)

lemma written_Cons:
  "map_of m p = None \<Longrightarrow> written ((p, e) # m) u = (if ce_DIRTY e then written m (u(p := live (ce_cash e))) else written m u)"
  by (auto simp: written_def fun_eq_iff split: option.splits)

lemma BatchWrite_entries_ok:
  assumes "map_ok u us" "compatible (overlay us u) m"
  shows "\<exists>us'. BatchWrite_entries m us = Inr us' \<and> map_ok u us' \<and> overlay us' u = written m (overlay us u)"
  using assms
proof (induction m arbitrary: us)
  case Nil
  then show ?case by (auto simp: written_def)
next
  case (Cons pe m)
  obtain p e where pe: "pe = (p, e)" by force
  note c = compatible_Cons [OF Cons.prems(2) [unfolded pe]]
  show ?case
  proof (cases "ce_DIRTY e")
    case False
    then show ?thesis using Cons.IH [OF Cons.prems(1) c(2)] by (simp add: pe written_Cons [OF c(1)])
  next
    case True
    then obtain us1 where us1: "BatchWrite_entry p e us = Inr us1" "map_ok u us1"
      "overlay us1 u = (overlay us u)(p := live (ce_cash e))"
      using BatchWrite_entry_ok [OF Cons.prems(1) True c(3) [OF True]] by blast
    have "compatible (overlay us1 u) m" unfolding us1(3) by (rule compatible_upd [OF c(2,1)])
    from Cons.IH [OF us1(2) this] show ?thesis
      unfolding us1(3) by (simp add: pe us1(1) True written_Cons [OF c(1)] fun_upd_def)
  qed
qed

context cash_view
begin

abbreviation "cinv \<equiv> cache_inv I U"
abbreviation "cutxo \<equiv> cache_utxo U"

lemma cache_unspent: "cinv c \<Longrightarrow> cutxo c p = Some x \<Longrightarrow> \<not> Cash_IsSpent x"
  using unspent_law by (auto simp: cache_inv_def cache_utxo_def overlay_def live_def split: option.splits if_splits)

lemma FetchCash_spec:
  assumes "cinv c" "FetchCash V p c = (r, c')"
  shows "cinv c' \<and> cutxo c' = cutxo c \<and> r = map_of (cv_cacheCash c') p \<and>
    cutxo c p = (case r of Some e \<Rightarrow> live (ce_cash e) | None \<Rightarrow> None) \<and> cv_hashBlock c' = cv_hashBlock c"
proof (cases "map_of (cv_cacheCash c) p")
  case (Some e)
  then have "r = Some e" "c' = c" using assms(2) by (auto simp: FetchCash_def)
  with Some assms(1) show ?thesis by (simp add: cache_utxo_def overlay_at)
next
  case none: None
  obtain r1 b where g: "vw_GetCash V (cv_base c) p = (r1, b)" by force
  have law: "r1 = U (cv_base c) p" "I b" "U b = U (cv_base c)"
    using get_law [OF _ g] assms(1) by (simp_all add: cache_inv_def)
  show ?thesis
  proof (cases r1)
    case None
    then have "r = None" "c' = c\<lparr>cv_base := b\<rparr>" using assms(2) none g by (auto simp: FetchCash_def)
    with none None law assms(1) show ?thesis by (simp add: cache_utxo_def cache_inv_def overlay_at)
  next
    case (Some tmp)
    then have live: "\<not> Cash_IsSpent tmp" using unspent_law [of "cv_base c" p tmp] law(1) assms(1) by (simp add: cache_inv_def)
    let ?e = "CCashCacheEntry_new tmp"
    have e: "?e\<lparr>ce_FRESH := Cash_IsSpent tmp\<rparr> = ?e" using live by (simp add: CCashCacheEntry_new_def)
    have c': "c' = c\<lparr>cv_base := b, cv_cacheCash := (p, ?e) # cv_cacheCash c\<rparr>" "r = Some ?e"
      using assms(2) g Some none e by (auto simp: FetchCash_def Let_def)
    have "map_ok (U b) ((p, ?e) # cv_cacheCash c)"
      using assms(1) law none live Some
      by (auto simp: map_ok_def cache_inv_def map_of_eq_None_iff entry_ok_def CCashCacheEntry_new_def)
    moreover have "overlay ((p, ?e) # cv_cacheCash c) (U b) = overlay (cv_cacheCash c) (U b)"
      using none Some live law by (simp add: fun_eq_iff overlay_at CCashCacheEntry_new_def)
    moreover have "overlay (cv_cacheCash c) (U (cv_base c)) p = Some tmp" using none Some law by (simp add: overlay_at)
    ultimately show ?thesis
      using law live by (simp add: c' cache_inv_def cache_utxo_def) (simp add: CCashCacheEntry_new_def)
  qed
qed

lemma GetCash_spec:
  assumes "cinv c" "CCashViewCache_GetCash V c p = (r, c')"
  shows "cinv c' \<and> cutxo c' = cutxo c \<and> r = cutxo c p"
  using assms FetchCash_spec [OF assms(1), of p]
  by (auto simp: CCashViewCache_GetCash_def live_def split: prod.splits option.splits)

lemma HaveCash_spec:
  assumes "cinv c" "HaveCash V p c = (r, c')"
  shows "cinv c' \<and> cutxo c' = cutxo c \<and> r = (cutxo c p \<noteq> None) \<and> cv_hashBlock c' = cv_hashBlock c"
  using assms FetchCash_spec [OF assms(1), of p]
  by (auto simp: HaveCash_def live_def split: prod.splits option.splits)

lemma AccessCash_spec:
  assumes "cinv c" "AccessCash V p c = (r, c')"
  shows "cinv c' \<and> cutxo c' = cutxo c \<and> live r = cutxo c p \<and> cv_hashBlock c' = cv_hashBlock c"
  using assms FetchCash_spec [OF assms(1), of p]
  by (auto simp: AccessCash_def split: prod.splits option.splits)

lemma SpendCash_spec:
  assumes "cinv c" "SpendCash V p c = (r, c')"
  shows "cinv c' \<and> cutxo c' = (cutxo c)(p := None) \<and>
    cutxo c p = (case r of Some x \<Rightarrow> live x | None \<Rightarrow> None) \<and> cv_hashBlock c' = cv_hashBlock c"
proof -
  obtain it c1 where f: "FetchCash V p c = (it, c1)" by force
  note spec = FetchCash_spec [OF assms(1) f]
  show ?thesis
  proof (cases it)
    case None
    with assms(2) f spec show ?thesis by (auto simp: SpendCash_def fun_eq_iff)
  next
    case (Some e)
    then have e: "map_of (cv_cacheCash c1) p = Some e" using spec by simp
    have ok: "entry_ok (U (cv_base c1) p) e" "map_ok (U (cv_base c1)) (cv_cacheCash c1)" "I (cv_base c1)"
      using spec e by (auto simp: cache_inv_def map_ok_def)
    have u: "cutxo c = cutxo c1" "cutxo c p = live (ce_cash e)" "cv_hashBlock c1 = cv_hashBlock c"
      using spec Some by auto
    show ?thesis
    proof (cases "ce_FRESH e")
      case True
      then have "c' = c1\<lparr>cv_cacheCash := AList.delete p (cv_cacheCash c1)\<rparr>" "r = Some (ce_cash e)"
        using assms(2) f Some by (auto simp: SpendCash_def)
      moreover from this have "cutxo c' = (cutxo c1)(p := None)"
        using ok True by (simp add: cache_utxo_def entry_ok_def)
      ultimately show ?thesis using ok u by (simp add: cache_inv_def map_ok_delete)
    next
      case False
      let ?e = "e\<lparr>ce_DIRTY := True, ce_cash := Cash_Clear (ce_cash e)\<rparr>"
      have "c' = c1\<lparr>cv_cacheCash := AList.update p ?e (cv_cacheCash c1)\<rparr>" "r = Some (ce_cash e)"
        using assms(2) f Some False by (auto simp: SpendCash_def)
      moreover have "map_ok (U (cv_base c1)) (AList.update p ?e (cv_cacheCash c1))"
        using ok False by (intro map_ok_update) (auto simp: entry_ok_def)
      moreover have "cutxo (c1\<lparr>cv_cacheCash := AList.update p ?e (cv_cacheCash c1)\<rparr>) = (cutxo c1)(p := None)"
        by (simp add: cache_utxo_def)
      ultimately show ?thesis using ok u by (simp add: cache_inv_def)
    qed
  qed
qed

lemma AddCash_spec:
  assumes "cinv c" "\<not> Cash_IsSpent x" "possible_overwrite \<or> cutxo c p = None"
  shows "\<exists>c'. AddCash p x possible_overwrite c = Inr c' \<and> cinv c' \<and> cv_hashBlock c' = cv_hashBlock c \<and>
    cutxo c' = (if IsUnspendable (scriptPubKey (cash_out x)) then cutxo c else (cutxo c)(p \<mapsto> x))"
proof (cases "IsUnspendable (scriptPubKey (cash_out x))")
  case True
  with assms show ?thesis by (simp add: AddCash_def)
next
  case False
  define it where "it = (case map_of (cv_cacheCash c) p of Some e \<Rightarrow> e | None \<Rightarrow> CCashCacheEntry_new cashEmpty)"
  let ?e = "\<lparr>ce_cash = x, ce_DIRTY = True, ce_FRESH = ce_FRESH it \<or> \<not> possible_overwrite \<and> \<not> ce_DIRTY it\<rparr>"
  have ok: "entry_ok (U (cv_base c) p) it \<and> cutxo c p = live (ce_cash it) \<or>
      map_of (cv_cacheCash c) p = None \<and> it = CCashCacheEntry_new cashEmpty"
    using assms(1) map_ok_at [of "U (cv_base c)" "cv_cacheCash c" p]
    by (cases "map_of (cv_cacheCash c) p") (auto simp: it_def cache_utxo_def overlay_at cache_inv_def)
  have fresh: "ce_FRESH it \<Longrightarrow> U (cv_base c) p = None"
    using ok by (auto simp: entry_ok_def CCashCacheEntry_new_def)
  have spent: "\<not> possible_overwrite \<Longrightarrow> Cash_IsSpent (ce_cash it)"
    and clean: "\<not> possible_overwrite \<Longrightarrow> \<not> ce_DIRTY it \<Longrightarrow> U (cv_base c) p = None"
    using ok assms(3)
    by (auto simp: entry_ok_def CCashCacheEntry_new_def cache_utxo_def overlay_at simp flip: live_None)
  have "map_ok (U (cv_base c)) (AList.update p ?e (cv_cacheCash c))"
    using assms(1) fresh clean by (intro map_ok_update) (auto simp: cache_inv_def entry_ok_def)
  moreover have "AddCash p x possible_overwrite c = Inr (c\<lparr>cv_cacheCash := AList.update p ?e (cv_cacheCash c)\<rparr>)"
    using False assms(2) spent by (auto simp: AddCash_def it_def [symmetric] Let_def)
  ultimately show ?thesis
    using False assms(1,2) by (simp add: cache_inv_def cache_utxo_def)
qed

lemma Uncache_spec: "cinv c \<Longrightarrow> cinv (Uncache p c) \<and> cutxo (Uncache p c) = cutxo c"
proof (cases "map_of (cv_cacheCash c) p")
  case (Some e)
  assume "cinv c"
  then have "map_ok (U (cv_base c)) (cv_cacheCash c)" "entry_ok (U (cv_base c) p) e"
    using map_ok_at [OF _ Some] by (simp_all add: cache_inv_def)
  with Some \<open>cinv c\<close> show ?thesis
    by (simp add: Uncache_def cache_inv_def map_ok_delete cache_utxo_def entry_ok_def fun_eq_iff overlay_at)
qed (simp add: Uncache_def)

lemma Flush_spec:
  assumes "cinv c" "cv_hashBlock c \<noteq> uint256_null"
  shows "\<exists>c'. Flush V c = Inr (True, c') \<and> cinv c' \<and> cutxo c' = cutxo c \<and>
    cv_cacheCash c' = [] \<and> U (cv_base c') = cutxo c"
proof -
  have m: "map_ok (U (cv_base c)) (cv_cacheCash c)" "I (cv_base c)" using assms(1) by (auto simp: cache_inv_def)
  obtain b where b: "vw_BatchWrite V (cv_base c) (cv_cacheCash c) (cv_hashBlock c) = Inr (True, b)" "I b"
    "U b = written (cv_cacheCash c) (U (cv_base c))"
    using write_law [OF m(2) map_ok_compatible [OF m(1)] assms(2)] by blast
  have "U b = cutxo c" using b(3) written_own [OF m(1)] by (simp add: cache_utxo_def)
  with b show ?thesis by (auto simp: Flush_def cache_inv_def map_ok_def cache_utxo_def)
qed

lemma cache_view: "cash_view (CCashViewCache_view V) cinv cutxo"
proof
  fix c p r c'
  assume "cinv c" "vw_GetCash (CCashViewCache_view V) c p = (r, c')"
  then show "r = cutxo c p \<and> cinv c' \<and> cutxo c' = cutxo c"
    using GetCash_spec [of c p r c'] by (simp add: CCashViewCache_view_def)
next
  fix c p x
  assume "cinv c" "cutxo c p = Some x"
  then show "\<not> Cash_IsSpent x" by (rule cache_unspent)
next
  fix c h c'
  assume c: "cinv c" "vw_GetBestBlock (CCashViewCache_view V) c = (h, c')"
  obtain h1 b where b: "vw_GetBestBlock V (cv_base c) = (h1, b)" by force
  have "I b \<and> U b = U (cv_base c)" using best_law [OF _ b] c(1) by (simp add: cache_inv_def)
  then show "cinv c' \<and> cutxo c' = cutxo c"
    using c b by (auto simp: CCashViewCache_view_def CCashViewCache_GetBestBlock_def cache_inv_def cache_utxo_def
        split: if_splits)
next
  fix c m h
  assume c: "cinv c" "compatible (cutxo c) m" "h \<noteq> uint256_null"
  then obtain us where "BatchWrite_entries m (cv_cacheCash c) = Inr us" "map_ok (U (cv_base c)) us"
    "overlay us (U (cv_base c)) = written m (cutxo c)"
    using BatchWrite_entries_ok [of "U (cv_base c)" "cv_cacheCash c" m] by (auto simp: cache_inv_def cache_utxo_def)
  with c(1) show "\<exists>v'. vw_BatchWrite (CCashViewCache_view V) c m h = Inr (True, v') \<and> cinv v' \<and>
      cutxo v' = written m (cutxo c)"
    by (simp add: CCashViewCache_view_def CCashViewCache_BatchWrite_def cache_inv_def cache_utxo_def)
qed

end

subsection \<open>What the operations on transactions do to the set\<close>

definition out_at :: "uint256 \<Rightarrow> nat \<Rightarrow> COutPoint" where
  "out_at txid i = \<lparr>op_hash = txid, op_n = of_nat i\<rparr>"

fun utxo_add :: "uint256 \<Rightarrow> bool \<Rightarrow> int \<Rightarrow> nat \<Rightarrow> CTxOut list \<Rightarrow> utxo \<Rightarrow> utxo" where
  "utxo_add txid cb h i [] u = u"
| "utxo_add txid cb h i (txout # txouts) u =
    utxo_add txid cb h (Suc i) txouts
      (if IsUnspendable (scriptPubKey txout) then u else u(out_at txid i \<mapsto> Cash_new txout h cb))"

definition value_at :: "utxo \<Rightarrow> COutPoint \<Rightarrow> CAmount" where
  "value_at u p = (case u p of Some x \<Rightarrow> nValue (cash_out x) | None \<Rightarrow> -1)"

lemma out_at_inject: "i < 2 ^ 32 \<Longrightarrow> j < 2 ^ 32 \<Longrightarrow> out_at txid i = out_at txid j \<longleftrightarrow> i = j"
  by (simp add: out_at_def word_of_nat_eq_iff take_bit_nat_eq_self)

lemma cash_out_new [simp]: "cash_out (Cash_new txout h cb) = txout"
  by (simp add: Cash_new_def)

lemma Cash_new_IsSpent [simp]: "Cash_IsSpent (Cash_new txout h cb) \<longleftrightarrow> nValue txout = -1"
  by (simp add: Cash_IsSpent_def CTxOut_IsNull_def)

lemma live_value: "live r = u p \<Longrightarrow> nValue (cash_out r) = value_at u p"
  by (cases "u p") (auto simp: live_def value_at_def Cash_IsSpent_def CTxOut_IsNull_def split: if_splits)

context cash_view
begin

lemma AddCash_outputs_spec:
  assumes "cinv c" "list_all (\<lambda>t. nValue t \<noteq> -1) txouts" "i + length txouts \<le> 2 ^ 32"
    and "check \<or> cb \<or> (\<forall>j. i \<le> j \<and> j < i + length txouts \<longrightarrow> cutxo c (out_at txid j) = None)"
  shows "\<exists>c'. AddCash_outputs V txid cb h check i txouts c = Inr c' \<and> cinv c' \<and>
    cutxo c' = utxo_add txid cb h i txouts (cutxo c) \<and> cv_hashBlock c' = cv_hashBlock c"
  using assms
proof (induction txouts arbitrary: i c)
  case Nil
  then show ?case by simp
next
  case (Cons t ts)
  let ?p = "out_at txid i" and ?x = "Cash_new t h cb"
  obtain ow c1 where c1: "(if check then HaveCash V ?p c else (cb, c)) = (ow, c1)" by force
  then have "cinv c1" "cutxo c1 = cutxo c" "cv_hashBlock c1 = cv_hashBlock c" and ow: "check \<Longrightarrow> ow = (cutxo c ?p \<noteq> None)" "\<not> check \<Longrightarrow> ow = cb"
    using HaveCash_spec [OF Cons.prems(1), of ?p ow c1] Cons.prems(1) by (auto split: if_splits)
  moreover have "ow \<or> cutxo c1 ?p = None"
    using ow Cons.prems(4) \<open>cutxo c1 = cutxo c\<close> by auto
  ultimately obtain c2 where c2: "AddCash ?p ?x ow c1 = Inr c2" "cinv c2" "cv_hashBlock c2 = cv_hashBlock c"
    "cutxo c2 = (if IsUnspendable (scriptPubKey t) then cutxo c else (cutxo c)(?p \<mapsto> ?x))"
    using AddCash_spec [of c1 ?x ow ?p] Cons.prems(2) by auto
  have "check \<or> cb \<or> (\<forall>j. Suc i \<le> j \<and> j < Suc i + length ts \<longrightarrow> cutxo c2 (out_at txid j) = None)"
  proof -
    have "out_at txid j \<noteq> ?p" if "Suc i \<le> j" "j < Suc i + length ts" for j
      using that Cons.prems(3) out_at_inject [of i j txid] by auto
    then show ?thesis using Cons.prems(4) c2(4) by auto
  qed
  with Cons.prems(2,3) obtain c3 where "AddCash_outputs V txid cb h check (Suc i) ts c2 = Inr c3" "cinv c3"
    "cutxo c3 = utxo_add txid cb h (Suc i) ts (cutxo c2)" "cv_hashBlock c3 = cv_hashBlock c2"
    using Cons.IH [OF c2(2), of "Suc i"] by auto
  then show ?case using c1 c2 by (simp add: Let_def out_at_def [symmetric])
qed

lemma have_inputs_spec:
  assumes "cinv c" "have_inputs V txins c = (r, c')"
  shows "cinv c' \<and> cutxo c' = cutxo c \<and> r = list_all (\<lambda>txin. cutxo c (prevout txin) \<noteq> None) txins \<and>
    cv_hashBlock c' = cv_hashBlock c"
  using assms
proof (induction txins arbitrary: c)
  case (Cons t ts)
  obtain h c1 where "HaveCash V (prevout t) c = (h, c1)" by force
  then show ?case
    using Cons.IH [of c1] Cons.prems HaveCash_spec [OF Cons.prems(1), of "prevout t" h c1]
    by (auto simp: Let_def split: if_splits)
qed simp

lemma value_in_spec:
  assumes "cinv c" "value_in V txins n c = (r, c')"
  shows "cinv c' \<and> cutxo c' = cutxo c \<and> cv_hashBlock c' = cv_hashBlock c \<and>
    r = foldl (\<lambda>n txin. s64 (n + value_at (cutxo c) (prevout txin))) n txins"
  using assms
proof (induction txins arbitrary: c n)
  case (Cons t ts)
  obtain x c1 where x: "AccessCash V (prevout t) c = (x, c1)" by force
  note spec = AccessCash_spec [OF Cons.prems(1) x]
  have "nValue (cash_out x) = value_at (cutxo c) (prevout t)" using spec by (intro live_value) simp
  then show ?case
    using Cons.IH [of c1 "s64 (n + nValue (cash_out x))"] Cons.prems(2) spec by (simp add: x)
qed simp

end

end
