(* ===== verification/SC_CashDB.thy ===== *)
theory SC_CashDB
  imports SC_Cash
begin

text \<open>
  The view of the unspent outputs on disk, \<open>CCashViewDB\<close> (\<^verbatim>\<open>txdb.cpp\<close>), and the stack of views the node
  uses: the database, the cache of the tip on it, and the cache of a block on that. The database is a
  key-value store that applies a batch of changes atomically; whether a batch has outgrown the
  configured size, \<open>batch.SizeEstimate() > batch_size\<close>, is the argument \<open>full\<close>.
\<close>

subsection \<open>The database\<close>

record cash_db =
  db_cash :: utxo
  db_best :: "uint256 option"
  db_heads :: "uint256 list option"

datatype db_op =
    EraseBest
  | WriteBest uint256
  | EraseHeads
  | WriteHeads "uint256 list"
  | EraseCash COutPoint
  | WriteCash COutPoint Cash

fun db_apply :: "db_op \<Rightarrow> cash_db \<Rightarrow> cash_db" where
  "db_apply EraseBest db = db\<lparr>db_best := None\<rparr>"
| "db_apply (WriteBest h) db = db\<lparr>db_best := Some h\<rparr>"
| "db_apply EraseHeads db = db\<lparr>db_heads := None\<rparr>"
| "db_apply (WriteHeads hs) db = db\<lparr>db_heads := Some hs\<rparr>"
| "db_apply (EraseCash p) db = db\<lparr>db_cash := (db_cash db)(p := None)\<rparr>"
| "db_apply (WriteCash p c) db = db\<lparr>db_cash := (db_cash db)(p := Some c)\<rparr>"

definition WriteBatch :: "db_op list \<Rightarrow> cash_db \<Rightarrow> cash_db" where
  "WriteBatch batch db = fold db_apply batch db"

definition CCashViewDB_GetCash :: "cash_db \<Rightarrow> COutPoint \<Rightarrow> Cash option \<times> cash_db" where
  "CCashViewDB_GetCash db outpoint = (db_cash db outpoint, db)"

definition CCashViewDB_HaveCash :: "cash_db \<Rightarrow> COutPoint \<Rightarrow> bool" where
  "CCashViewDB_HaveCash db outpoint = (db_cash db outpoint \<noteq> None)"

definition CCashViewDB_GetBestBlock :: "cash_db \<Rightarrow> uint256 \<times> cash_db" where
  "CCashViewDB_GetBestBlock db = (case db_best db of None \<Rightarrow> uint256_null | Some h \<Rightarrow> h, db)"

definition CCashViewDB_GetHeadBlocks :: "cash_db \<Rightarrow> uint256 list" where
  "CCashViewDB_GetHeadBlocks db = (case db_heads db of None \<Rightarrow> [] | Some hs \<Rightarrow> hs)"

text \<open>The loop of \<open>BatchWrite\<close>, as the list of the batches it writes; \<open>last_ops\<close> close the last one.\<close>

fun db_batches :: "(db_op list \<Rightarrow> bool) \<Rightarrow> db_op list \<Rightarrow> CCashMap \<Rightarrow> db_op list \<Rightarrow> db_op list list" where
  "db_batches full last_ops [] batch = [batch @ last_ops]"
| "db_batches full last_ops ((p, it) # mapCash) batch0 =
    (let batch = (if ce_DIRTY it
                  then batch0 @ [if Cash_IsSpent (ce_cash it) then EraseCash p else WriteCash p (ce_cash it)]
                  else batch0) in
     if full batch then batch # db_batches full last_ops mapCash []
     else db_batches full last_ops mapCash batch)"

definition db_transition :: "(db_op list \<Rightarrow> bool) \<Rightarrow> CCashMap \<Rightarrow> uint256 \<Rightarrow> uint256 \<Rightarrow> db_op list list" where
  "db_transition full mapCash hashBlock old_tip =
    db_batches full [EraseHeads, WriteBest hashBlock] mapCash [EraseBest, WriteHeads [hashBlock, old_tip]]"

definition db_old_tip :: "uint256 \<Rightarrow> cash_db \<Rightarrow> cash_error + uint256" where
  "db_old_tip hashBlock db =
    (let old_tip = fst (CCashViewDB_GetBestBlock db) in
     if old_tip = uint256_null
     then let old_heads = CCashViewDB_GetHeadBlocks db in
       if length old_heads = 2
       then if old_heads ! 0 \<noteq> hashBlock then Inl CashAssertFails else Inr (old_heads ! 1)
       else Inr old_tip
     else Inr old_tip)"

definition CCashViewDB_BatchWrite ::
  "(db_op list \<Rightarrow> bool) \<Rightarrow> cash_db \<Rightarrow> CCashMap \<Rightarrow> uint256 \<Rightarrow> cash_error + bool \<times> cash_db" where
  "CCashViewDB_BatchWrite full db mapCash hashBlock =
    (if hashBlock = uint256_null then Inl CashAssertFails
     else err_bind (db_old_tip hashBlock db) (\<lambda>old_tip.
       Inr (True, fold WriteBatch (db_transition full mapCash hashBlock old_tip) db)))"

definition CCashViewDB_view :: "(db_op list \<Rightarrow> bool) \<Rightarrow> cash_db CCashView" where
  "CCashViewDB_view full =
    \<lparr>vw_GetCash = CCashViewDB_GetCash, vw_GetBestBlock = CCashViewDB_GetBestBlock,
     vw_BatchWrite = CCashViewDB_BatchWrite full\<rparr>"

subsection \<open>What a transition writes\<close>

definition db_inv :: "cash_db \<Rightarrow> bool" where
  "db_inv db \<longleftrightarrow> db_heads db = None \<and> (\<forall>p c. db_cash db p = Some c \<longrightarrow> \<not> Cash_IsSpent c)"

text \<open>The change of one entry, and the batch that is still open together with the entries to come.\<close>

definition entry_ops :: "COutPoint \<times> CCashCacheEntry \<Rightarrow> db_op list" where
  "entry_ops pe = (case pe of (p, it) \<Rightarrow>
    if ce_DIRTY it then [if Cash_IsSpent (ce_cash it) then EraseCash p else WriteCash p (ce_cash it)] else [])"

lemma WriteBatch_simps [simp]: "WriteBatch [] db = db" "WriteBatch (x # xs) db = WriteBatch xs (db_apply x db)"
  by (simp_all add: WriteBatch_def)

lemma WriteBatch_append: "WriteBatch (xs @ ys) db = WriteBatch ys (WriteBatch xs db)"
  by (simp add: WriteBatch_def)

lemma concat_db_batches: "concat (db_batches full last_ops m batch) = batch @ concat (map entry_ops m) @ last_ops"
  by (induction full last_ops m batch rule: db_batches.induct) (auto simp: entry_ops_def Let_def)

lemma fold_WriteBatch: "fold WriteBatch bs db = WriteBatch (concat bs) db"
  by (induction bs arbitrary: db) (simp_all add: WriteBatch_append)

lemma entry_ops_cash:
  "distinct (map fst m) \<Longrightarrow> WriteBatch (concat (map entry_ops m)) db = db\<lparr>db_cash := written m (db_cash db)\<rparr>"
proof (induction m arbitrary: db)
  case Nil
  then show ?case by (simp add: written_def)
next
  case (Cons pe m)
  obtain p e where pe: "pe = (p, e)" by force
  with Cons.prems have "map_of m p = None" by (simp add: map_of_eq_None_iff)
  with Cons show ?case
    by (simp add: pe entry_ops_def WriteBatch_append written_Cons live_def)
qed

lemma db_transition_final:
  assumes "distinct (map fst m)"
  shows "fold WriteBatch (db_transition full m h old) db =
    \<lparr>db_cash = written m (db_cash db), db_best = Some h, db_heads = None\<rparr>"
  by (simp add: fold_WriteBatch db_transition_def concat_db_batches WriteBatch_append entry_ops_cash [OF assms])

lemma CCashViewDB_is_view: "cash_view (CCashViewDB_view full) db_inv db_cash"
proof
  fix v m h
  assume v: "db_inv v" "compatible (db_cash v) m" "h \<noteq> uint256_null"
  then have "distinct (map fst m)" by (simp add: compatible_def)
  moreover have "\<exists>old. db_old_tip h v = Inr old"
    using v(1) by (simp add: db_old_tip_def CCashViewDB_GetHeadBlocks_def db_inv_def Let_def)
  moreover have "db_inv \<lparr>db_cash = written m (db_cash v), db_best = Some h, db_heads = None\<rparr>"
    using v(1) by (auto simp: db_inv_def written_def live_def split: option.splits if_splits)
  ultimately show "\<exists>v'. vw_BatchWrite (CCashViewDB_view full) v m h = Inr (True, v') \<and> db_inv v' \<and>
      db_cash v' = written m (db_cash v)"
    using v(3) by (auto simp: CCashViewDB_view_def CCashViewDB_BatchWrite_def db_transition_final)
qed (auto simp: CCashViewDB_view_def CCashViewDB_GetCash_def CCashViewDB_GetBestBlock_def db_inv_def)

subsection \<open>The stack of views\<close>

interpretation db: cash_view "CCashViewDB_view full" db_inv db_cash for full
  by (rule CCashViewDB_is_view)

abbreviation tip_view :: "(db_op list \<Rightarrow> bool) \<Rightarrow> cash_db CCashViewCache CCashView" where
  "tip_view full \<equiv> CCashViewCache_view (CCashViewDB_view full)"

abbreviation tip_inv :: "cash_db CCashViewCache \<Rightarrow> bool" where
  "tip_inv \<equiv> cache_inv db_inv db_cash"

abbreviation tip_utxo :: "cash_db CCashViewCache \<Rightarrow> utxo" where
  "tip_utxo \<equiv> cache_utxo db_cash"

interpretation tip: cash_view "tip_view full" tip_inv tip_utxo for full
  by (rule db.cache_view)

abbreviation block_inv :: "cash_db CCashViewCache CCashViewCache \<Rightarrow> bool" where
  "block_inv \<equiv> cache_inv tip_inv tip_utxo"

abbreviation block_utxo :: "cash_db CCashViewCache CCashViewCache \<Rightarrow> utxo" where
  "block_utxo \<equiv> cache_utxo tip_utxo"

text \<open>
  C3: the cache implements the set of unspent outputs it stands for. In any state with the invariant,
  looking an output up answers what the set holds and changes nothing, spending removes it, adding an
  output that may overwrite or is not there yet inserts it unless its script is unspendable, dropping a
  clean entry changes nothing, and flushing leaves exactly the set in the database; the invariant is kept.
\<close>

theorem cache_refines_utxo:
  assumes "tip_inv c"
  shows "fst (CCashViewCache_GetCash (CCashViewDB_view full) c p) = tip_utxo c p \<and>
    tip_utxo (snd (CCashViewCache_GetCash (CCashViewDB_view full) c p)) = tip_utxo c \<and>
    tip_inv (snd (CCashViewCache_GetCash (CCashViewDB_view full) c p)) \<and>
    tip_utxo (snd (SpendCash (CCashViewDB_view full) p c)) = (tip_utxo c)(p := None) \<and>
    tip_inv (snd (SpendCash (CCashViewDB_view full) p c)) \<and>
    (\<not> Cash_IsSpent x \<and> (possible_overwrite \<or> tip_utxo c p = None) \<longrightarrow>
      (\<exists>c'. AddCash p x possible_overwrite c = Inr c' \<and> tip_inv c' \<and>
        tip_utxo c' = (if IsUnspendable (scriptPubKey (cash_out x)) then tip_utxo c else (tip_utxo c)(p \<mapsto> x)))) \<and>
    tip_utxo (Uncache p c) = tip_utxo c \<and> tip_inv (Uncache p c) \<and>
    (cv_hashBlock c \<noteq> uint256_null \<longrightarrow>
      (\<exists>c'. Flush (CCashViewDB_view full) c = Inr (True, c') \<and> tip_inv c' \<and> tip_utxo c' = tip_utxo c \<and>
        db_cash (cv_base c') = tip_utxo c))"
proof -
  note get = db.GetCash_spec [OF assms, of full p] and spend = db.SpendCash_spec [OF assms, of full p]
  show ?thesis
    using get [OF prod.collapse [symmetric]] spend [OF prod.collapse [symmetric]]
      db.AddCash_spec [OF assms, of x possible_overwrite p] db.Uncache_spec [OF assms, of p]
      db.Flush_spec [OF assms, of full] by blast
qed

definition example_cash :: Cash where
  "example_cash = Cash_new \<lparr>nValue = 7, scriptPubKey = [OP_1]\<rparr> 3 False"

definition example_db :: cash_db where
  "example_db = \<lparr>db_cash = [out_at uint256_null 1 \<mapsto> example_cash], db_best = None, db_heads = None\<rparr>"

lemma example_db_inv: "db_inv example_db"
  by (simp add: db_inv_def example_db_def example_cash_def)

theorem cache_refines_utxo_witness:
  "tip_inv (CCashViewCache_new example_db) \<and>
   fst (CCashViewCache_GetCash (CCashViewDB_view (\<lambda>_. False)) (CCashViewCache_new example_db) (out_at uint256_null 1)) =
     Some example_cash"
proof -
  have inv: "tip_inv (CCashViewCache_new example_db)"
    using example_db_inv by (simp add: cache_inv_def CCashViewCache_new_def map_ok_def)
  moreover have "tip_utxo (CCashViewCache_new example_db) (out_at uint256_null 1) = Some example_cash"
    by (simp add: cache_utxo_def CCashViewCache_new_def example_db_def)
  ultimately show ?thesis using cache_refines_utxo [OF inv, of "\<lambda>_. False" "out_at uint256_null 1"] by simp
qed

text \<open>
  C9: flushing the cache of a block into the cache of the tip and that into the database leaves in the
  database exactly the set the cache of the block stood for, with the block's hash as the best block.
  Neither flush can raise the error of a misapplied \<open>FRESH\<close> flag.
\<close>

theorem nested_flush:
  assumes "block_inv c" "cv_hashBlock c \<noteq> uint256_null"
  shows "\<exists>c' t. Flush (tip_view full) c = Inr (True, c') \<and> Flush (CCashViewDB_view full) (cv_base c') = Inr (True, t) \<and>
    db_cash (cv_base t) = block_utxo c \<and> db_best (cv_base t) = Some (cv_hashBlock c) \<and> tip_inv t"
proof -
  obtain c' where c': "Flush (tip_view full) c = Inr (True, c')" "block_inv c'" "tip_utxo (cv_base c') = block_utxo c"
    using tip.Flush_spec [OF assms, of full] by blast
  have h: "cv_hashBlock (cv_base c') = cv_hashBlock c"
    using c'(1) by (auto simp: Flush_def CCashViewCache_view_def CCashViewCache_BatchWrite_def err_bind_Inr)
      (cases c; cases "cv_base c"; simp)
  have inv: "tip_inv (cv_base c')" using c'(2) by (simp add: cache_inv_def)
  obtain t where t: "Flush (CCashViewDB_view full) (cv_base c') = Inr (True, t)" "tip_inv t"
    "db_cash (cv_base t) = tip_utxo (cv_base c')"
    using db.Flush_spec [OF inv, of full] assms(2) h by auto
  have "distinct (map fst (cv_cacheCash (cv_base c')))" using inv by (simp add: cache_inv_def map_ok_def)
  then have "db_best (cv_base t) = Some (cv_hashBlock c)"
    using t(1) h by (auto simp: Flush_def CCashViewDB_view_def CCashViewDB_BatchWrite_def err_bind_Inr
        db_transition_final split: if_splits)
  with c' t show ?thesis by metis
qed

theorem nested_flush_witness:
  "\<exists>c' t. block_inv (SetBestBlock (replicate 32 1) (CCashViewCache_new (CCashViewCache_new example_db))) \<and>
    Flush (tip_view (\<lambda>_. False)) (SetBestBlock (replicate 32 1) (CCashViewCache_new (CCashViewCache_new example_db))) =
      Inr (True, c') \<and>
    Flush (CCashViewDB_view (\<lambda>_. False)) (cv_base c') = Inr (True, t) \<and>
    db_cash (cv_base t) (out_at uint256_null 1) = Some example_cash"
proof -
  let ?c = "SetBestBlock (replicate 32 1) (CCashViewCache_new (CCashViewCache_new example_db))"
  have inv: "block_inv (SetBestBlock h (CCashViewCache_new (CCashViewCache_new example_db)))" for h
    using example_db_inv by (simp add: cache_inv_def CCashViewCache_new_def SetBestBlock_def map_ok_def)
  have "cv_hashBlock ?c \<noteq> uint256_null"
    by (simp add: SetBestBlock_def uint256_null_def numeral_eq_Suc)
  moreover have "block_utxo ?c (out_at uint256_null 1) = Some example_cash"
    by (simp add: cache_utxo_def CCashViewCache_new_def SetBestBlock_def example_db_def)
  ultimately show ?thesis using nested_flush [OF inv [of "replicate 32 1"], of "\<lambda>_. False"] inv by metis
qed

subsection \<open>Interrupted writes\<close>

text \<open>
  A crash between two batches leaves the database in a state from which the node can tell the two
  blocks it was between.
\<close>

lemma db_batches_prefix:
  assumes "distinct (map fst m)" "k < length (db_batches full last_ops m batch)"
  shows "\<exists>n. concat (take k (db_batches full last_ops m batch)) =
    (if k = 0 then [] else batch @ concat (map entry_ops (take n m)))"
  using assms
proof (induction full last_ops m batch arbitrary: k rule: db_batches.induct)
  case (1 full last_ops batch)
  then show ?case by simp
next
  case (2 full last_ops p it m batch)
  let ?b = "batch @ entry_ops (p, it)"
  have b: "(if ce_DIRTY it then batch @ [if Cash_IsSpent (ce_cash it) then EraseCash p else WriteCash p (ce_cash it)]
      else batch) = ?b" by (simp add: entry_ops_def)
  show ?case
  proof (cases "full ?b")
    case True
    show ?thesis
    proof (cases k)
      case (Suc j)
      then obtain n where "concat (take j (db_batches full last_ops m [])) =
          (if j = 0 then [] else [] @ concat (map entry_ops (take n m)))"
        using 2(1) [OF b [symmetric] True, of j] 2(3,4) True by (auto simp: b Let_def simp del: if_split)
      then show ?thesis
        using Suc True by (cases "j = 0") (auto simp: b Let_def intro: exI [of _ "Suc 0"] exI [of _ "Suc n"])
    qed simp
  next
    case False
    then obtain n where "concat (take k (db_batches full last_ops m ?b)) =
        (if k = 0 then [] else ?b @ concat (map entry_ops (take n m)))"
      using 2(2) [OF b [symmetric] False, of k] 2(3,4) by (auto simp: b Let_def)
    then show ?thesis using False by (auto simp: b Let_def intro: exI [of _ "Suc n"])
  qed
qed

text \<open>
  C21: after any number of the batches of a write but the last, and at least one, the database has no best
  block and records the transition from the old tip to the new block, and every output is as it was
  before the write or as it will be after it; once all batches are written the transition mark is gone.
\<close>

theorem interrupted_write:
  assumes "distinct (map fst m)" "0 < k" "k < length (db_transition full m h old)"
  shows "(let db' = fold WriteBatch (take k (db_transition full m h old)) db in
      db_best db' = None \<and> db_heads db' = Some [h, old] \<and>
      (\<forall>p. db_cash db' p = db_cash db p \<or> db_cash db' p = written m (db_cash db) p)) \<and>
    fold WriteBatch (db_transition full m h old) db =
      \<lparr>db_cash = written m (db_cash db), db_best = Some h, db_heads = None\<rparr>"
proof -
  obtain n where n: "concat (take k (db_transition full m h old)) =
      [EraseBest, WriteHeads [h, old]] @ concat (map entry_ops (take n m))"
    using db_batches_prefix [OF assms(1) assms(3) [unfolded db_transition_def]] assms(2)
    by (auto simp: db_transition_def)
  have d: "distinct (map fst (take n m))" using assms(1) by (simp add: take_map [symmetric])
  let ?db = "fold WriteBatch (take k (db_transition full m h old)) db"
  have "?db = db\<lparr>db_best := None, db_heads := Some [h, old], db_cash := written (take n m) (db_cash db)\<rparr>"
    unfolding fold_WriteBatch n by (simp add: WriteBatch_append entry_ops_cash [OF d])
  moreover have "written (take n m) u p = u p \<or> written (take n m) u p = written m u p" for u p
  proof (cases "map_of (take n m) p")
    case (Some e)
    then have "map_of m p = Some e"
      using assms(1) by (metis in_set_takeD
          map_of_SomeD map_of_eq_Some_iff)
    with Some show ?thesis by (simp add: written_def)
  qed (simp add: written_def)
  ultimately show ?thesis using db_transition_final [OF assms(1)] by (simp add: Let_def)
qed

theorem interrupted_write_witness:
  "(let m = [(out_at uint256_null 1, \<lparr>ce_cash = cashEmpty, ce_DIRTY = True, ce_FRESH = False\<rparr>)];
        bs = db_transition (\<lambda>_. True) m (replicate 32 1) (replicate 32 2);
        db' = fold WriteBatch (take 1 bs) example_db in
    length bs = 2 \<and> db_best db' = None \<and> db_heads db' = Some [replicate 32 1, replicate 32 2] \<and>
    db_cash (fold WriteBatch bs example_db) (out_at uint256_null 1) = None)"
proof -
  let ?m = "[(out_at uint256_null 1, \<lparr>ce_cash = cashEmpty, ce_DIRTY = True, ce_FRESH = False\<rparr>)]"
  have l: "length (db_transition (\<lambda>_. True) ?m (replicate 32 1) (replicate 32 2)) = 2"
    by (simp add: db_transition_def Let_def)
  have "written ?m (db_cash example_db) (out_at uint256_null 1) = None"
    by (simp add: written_def live_def Cash_IsSpent_def cashEmpty_def CTxOut_IsNull_def CTxOut_null_def)
  then show ?thesis
    using interrupted_write [of ?m 1 "\<lambda>_. True" "replicate 32 1" "replicate 32 2" example_db] l
    unfolding Let_def by simp
qed

end
