(* ===== verification/SC_Encoding.thy ===== *)
theory SC_Encoding
  imports SC_Script
begin

text \<open>
  The vocabulary of the script interpreter (\<^verbatim>\<open>script/script_error.h\<close>, \<^verbatim>\<open>script/interpreter.h\<close>) and its checks
  on the encodings of signatures, public keys and pushes (\<^verbatim>\<open>script/interpreter.cpp\<close>). The
  elliptic-curve test \<open>CPubKey::CheckLowS\<close> is an argument of the definitions that use it.
\<close>

subsection \<open>Errors, flags and hash types\<close>

datatype ScriptError =
    SCRIPT_ERR_OK
  | SCRIPT_ERR_UNKNOWN_ERROR
  | SCRIPT_ERR_EVAL_FALSE
  | SCRIPT_ERR_OP_RETURN
  | SCRIPT_ERR_SCRIPT_SIZE
  | SCRIPT_ERR_PUSH_SIZE
  | SCRIPT_ERR_OP_COUNT
  | SCRIPT_ERR_STACK_SIZE
  | SCRIPT_ERR_SIG_COUNT
  | SCRIPT_ERR_PUBKEY_COUNT
  | SCRIPT_ERR_VERIFY
  | SCRIPT_ERR_EQUALVERIFY
  | SCRIPT_ERR_CHECKMULTISIGVERIFY
  | SCRIPT_ERR_CHECKSIGVERIFY
  | SCRIPT_ERR_NUMEQUALVERIFY
  | SCRIPT_ERR_BAD_OPCODE
  | SCRIPT_ERR_DISABLED_OPCODE
  | SCRIPT_ERR_INVALID_STACK_OPERATION
  | SCRIPT_ERR_INVALID_ALTSTACK_OPERATION
  | SCRIPT_ERR_UNBALANCED_CONDITIONAL
  | SCRIPT_ERR_NEGATIVE_LOCKTIME
  | SCRIPT_ERR_UNSATISFIED_LOCKTIME
  | SCRIPT_ERR_SIG_HASHTYPE
  | SCRIPT_ERR_SIG_DER
  | SCRIPT_ERR_MINIMALDATA
  | SCRIPT_ERR_SIG_PUSHONLY
  | SCRIPT_ERR_SIG_HIGH_S
  | SCRIPT_ERR_SIG_NULLDUMMY
  | SCRIPT_ERR_PUBKEYTYPE
  | SCRIPT_ERR_CLEANSTACK
  | SCRIPT_ERR_MINIMALIF
  | SCRIPT_ERR_SIG_NULLFAIL
  | SCRIPT_ERR_DISCOURAGE_UPGRADABLE_NOPS
  | SCRIPT_ERR_DISCOURAGE_UPGRADABLE_WITNESS_PROGRAM
  | SCRIPT_ERR_WITNESS_PROGRAM_WRONG_LENGTH
  | SCRIPT_ERR_WITNESS_PROGRAM_WITNESS_EMPTY
  | SCRIPT_ERR_WITNESS_PROGRAM_MISMATCH
  | SCRIPT_ERR_WITNESS_MALLEATED
  | SCRIPT_ERR_WITNESS_MALLEATED_P2SH
  | SCRIPT_ERR_WITNESS_UNEXPECTED
  | SCRIPT_ERR_WITNESS_PUBKEYTYPE

definition has_flag :: "u32 \<Rightarrow> u32 \<Rightarrow> bool" where
  "has_flag flags f \<longleftrightarrow> flags AND f \<noteq> 0"

definition SCRIPT_VERIFY_P2SH :: u32 where
  [flag_defs]: "SCRIPT_VERIFY_P2SH = 0x1"

definition SCRIPT_VERIFY_STRICTENC :: u32 where
  [flag_defs]: "SCRIPT_VERIFY_STRICTENC = 0x2"

definition SCRIPT_VERIFY_DERSIG :: u32 where
  [flag_defs]: "SCRIPT_VERIFY_DERSIG = 0x4"

definition SCRIPT_VERIFY_LOW_S :: u32 where
  [flag_defs]: "SCRIPT_VERIFY_LOW_S = 0x8"

definition SCRIPT_VERIFY_NULLDUMMY :: u32 where
  [flag_defs]: "SCRIPT_VERIFY_NULLDUMMY = 0x10"

definition SCRIPT_VERIFY_SIGPUSHONLY :: u32 where
  [flag_defs]: "SCRIPT_VERIFY_SIGPUSHONLY = 0x20"

definition SCRIPT_VERIFY_MINIMALDATA :: u32 where
  [flag_defs]: "SCRIPT_VERIFY_MINIMALDATA = 0x40"

definition SCRIPT_VERIFY_DISCOURAGE_UPGRADABLE_NOPS :: u32 where
  [flag_defs]: "SCRIPT_VERIFY_DISCOURAGE_UPGRADABLE_NOPS = 0x80"

definition SCRIPT_VERIFY_CLEANSTACK :: u32 where
  [flag_defs]: "SCRIPT_VERIFY_CLEANSTACK = 0x100"

definition SCRIPT_VERIFY_CHECKLOCKTIMEVERIFY :: u32 where
  [flag_defs]: "SCRIPT_VERIFY_CHECKLOCKTIMEVERIFY = 0x200"

definition SCRIPT_VERIFY_CHECKSEQUENCEVERIFY :: u32 where
  [flag_defs]: "SCRIPT_VERIFY_CHECKSEQUENCEVERIFY = 0x400"

definition SCRIPT_VERIFY_WITNESS :: u32 where
  [flag_defs]: "SCRIPT_VERIFY_WITNESS = 0x800"

definition SCRIPT_VERIFY_DISCOURAGE_UPGRADABLE_WITNESS_PROGRAM :: u32 where
  [flag_defs]: "SCRIPT_VERIFY_DISCOURAGE_UPGRADABLE_WITNESS_PROGRAM = 0x1000"

definition SCRIPT_VERIFY_MINIMALIF :: u32 where
  [flag_defs]: "SCRIPT_VERIFY_MINIMALIF = 0x2000"

definition SCRIPT_VERIFY_NULLFAIL :: u32 where
  [flag_defs]: "SCRIPT_VERIFY_NULLFAIL = 0x4000"

definition SCRIPT_VERIFY_WITNESS_PUBKEYTYPE :: u32 where
  [flag_defs]: "SCRIPT_VERIFY_WITNESS_PUBKEYTYPE = 0x8000"

datatype SigVersion = SIGVERSION_BASE | SIGVERSION_WITNESS_V0

abbreviation SIGHASH_ALL :: int where "SIGHASH_ALL \<equiv> 1"
abbreviation SIGHASH_NONE :: int where "SIGHASH_NONE \<equiv> 2"
abbreviation SIGHASH_SINGLE :: int where "SIGHASH_SINGLE \<equiv> 3"
abbreviation SIGHASH_ANYONECANPAY :: int where "SIGHASH_ANYONECANPAY \<equiv> 0x80"

text \<open>\<open>flags\<close> is stricter than \<open>flags'\<close> in the sense of the source when it has at least its bits.\<close>

definition subflags :: "u32 \<Rightarrow> u32 \<Rightarrow> bool" where
  "subflags flags flags' \<longleftrightarrow> flags AND flags' = flags"

lemma subflags_has:
  assumes "subflags a b" "has_flag a f"
  shows "has_flag b f"
proof (rule ccontr)
  assume "\<not> has_flag b f"
  then have "b AND f = 0" by (simp add: has_flag_def)
  then have "(a AND b) AND f = 0" by (simp add: and.assoc)
  with assms show False by (simp add: subflags_def has_flag_def)
qed

subsection \<open>Truth values\<close>

fun CastToBool :: "bytes \<Rightarrow> bool" where
  "CastToBool [] = False"
| "CastToBool (b # vch) = (if b \<noteq> 0 then \<not> (vch = [] \<and> b = 0x80) else CastToBool vch)"

definition vchFalse :: bytes where
  "vchFalse = []"

definition vchTrue :: bytes where
  "vchTrue = [1]"

definition vchBool :: "bool \<Rightarrow> bytes" where
  "vchBool b = (if b then vchTrue else vchFalse)"

lemma CastToBool_vchBool [simp]: "CastToBool (vchBool b) = b"
  by (simp add: vchBool_def vchTrue_def vchFalse_def)

subsection \<open>Public keys\<close>

definition IsCompressedOrUncompressedPubKey :: "bytes \<Rightarrow> bool" where
  "IsCompressedOrUncompressedPubKey vchPubKey =
    (if length vchPubKey < 33 then False
     else if vchPubKey ! 0 = 0x04 then length vchPubKey = 65
     else if vchPubKey ! 0 = 0x02 \<or> vchPubKey ! 0 = 0x03 then length vchPubKey = 33
     else False)"

definition IsCompressedPubKey :: "bytes \<Rightarrow> bool" where
  "IsCompressedPubKey vchPubKey =
    (if length vchPubKey \<noteq> 33 then False
     else vchPubKey ! 0 = 0x02 \<or> vchPubKey ! 0 = 0x03)"

definition CheckPubKeyEncoding :: "bytes \<Rightarrow> u32 \<Rightarrow> SigVersion \<Rightarrow> ScriptError + unit" where
  "CheckPubKeyEncoding vchPubKey flags sigversion =
    (if has_flag flags SCRIPT_VERIFY_STRICTENC \<and> \<not> IsCompressedOrUncompressedPubKey vchPubKey
     then Inl SCRIPT_ERR_PUBKEYTYPE
     else if has_flag flags SCRIPT_VERIFY_WITNESS_PUBKEYTYPE \<and> sigversion = SIGVERSION_WITNESS_V0 \<and>
       \<not> IsCompressedPubKey vchPubKey
     then Inl SCRIPT_ERR_WITNESS_PUBKEYTYPE
     else Inr ())"

subsection \<open>Signatures\<close>

definition IsValidSignatureEncoding :: "bytes \<Rightarrow> bool" where
  "IsValidSignatureEncoding sig =
    (if length sig < 9 then False
     else if length sig > 73 then False
     else if sig ! 0 \<noteq> 0x30 then False
     else if unat (sig ! 1) \<noteq> length sig - 3 then False
     else let lenR = unat (sig ! 3) in
       if 5 + lenR \<ge> length sig then False
       else let lenS = unat (sig ! (5 + lenR)) in
         if lenR + lenS + 7 \<noteq> length sig then False
         else if sig ! 2 \<noteq> 0x02 then False
         else if lenR = 0 then False
         else if sig ! 4 AND 0x80 \<noteq> 0 then False
         else if lenR > 1 \<and> sig ! 4 = 0x00 \<and> sig ! 5 AND 0x80 = 0 then False
         else if sig ! (lenR + 4) \<noteq> 0x02 then False
         else if lenS = 0 then False
         else if sig ! (lenR + 6) AND 0x80 \<noteq> 0 then False
         else if lenS > 1 \<and> sig ! (lenR + 6) = 0x00 \<and> sig ! (lenR + 7) AND 0x80 = 0 then False
         else True)"

definition IsLowDERSignature :: "(bytes \<Rightarrow> bool) \<Rightarrow> bytes \<Rightarrow> ScriptError + unit" where
  "IsLowDERSignature CheckLowS vchSig =
    (if \<not> IsValidSignatureEncoding vchSig then Inl SCRIPT_ERR_SIG_DER
     else if \<not> CheckLowS (butlast vchSig) then Inl SCRIPT_ERR_SIG_HIGH_S
     else Inr ())"

definition IsDefinedHashtypeSignature :: "bytes \<Rightarrow> bool" where
  "IsDefinedHashtypeSignature vchSig =
    (if length vchSig = 0 then False
     else let nHashType = uint (last vchSig) AND NOT SIGHASH_ANYONECANPAY in
       \<not> (nHashType < SIGHASH_ALL \<or> nHashType > SIGHASH_SINGLE))"

definition CheckSignatureEncoding :: "(bytes \<Rightarrow> bool) \<Rightarrow> bytes \<Rightarrow> u32 \<Rightarrow> ScriptError + unit" where
  "CheckSignatureEncoding CheckLowS vchSig flags =
    (if length vchSig = 0 then Inr ()
     else if has_flag flags (SCRIPT_VERIFY_DERSIG OR SCRIPT_VERIFY_LOW_S OR SCRIPT_VERIFY_STRICTENC) \<and>
       \<not> IsValidSignatureEncoding vchSig
     then Inl SCRIPT_ERR_SIG_DER
     else case (if has_flag flags SCRIPT_VERIFY_LOW_S then IsLowDERSignature CheckLowS vchSig else Inr ()) of
       Inl e \<Rightarrow> Inl e
     | Inr _ \<Rightarrow>
       if has_flag flags SCRIPT_VERIFY_STRICTENC \<and> \<not> IsDefinedHashtypeSignature vchSig
       then Inl SCRIPT_ERR_SIG_HASHTYPE
       else Inr ())"

subsection \<open>Pushes\<close>

definition CheckMinimalPush :: "bytes \<Rightarrow> opcodetype \<Rightarrow> bool" where
  "CheckMinimalPush data opcode =
    (if length data = 0 then opcode = OP_0
     else if length data = 1 \<and> data ! 0 \<ge> 1 \<and> data ! 0 \<le> 16 then False
     else if length data = 1 \<and> data ! 0 = 0x81 then False
     else if length data \<le> 75 then unat opcode = length data
     else if length data \<le> 255 then opcode = OP_PUSHDATA1
     else if length data \<le> 65535 then opcode = OP_PUSHDATA2
     else True)"

subsection \<open>The signature grammar\<close>

text \<open>
  A positive integer in the Distinguished Encoding Rules, and the signature format of BIP 66: a
  sequence of two such integers followed by the byte of the hash type.
\<close>

definition der_positive :: "bytes \<Rightarrow> bool" where
  "der_positive xs \<longleftrightarrow> xs \<noteq> [] \<and> xs ! 0 AND 0x80 = 0 \<and>
     (length xs > 1 \<and> xs ! 0 = 0 \<longrightarrow> xs ! 1 AND 0x80 \<noteq> 0)"

definition der_signature :: "bytes \<Rightarrow> bytes \<Rightarrow> byte \<Rightarrow> bytes" where
  "der_signature R S hashtype =
    [0x30, of_nat (length R + length S + 4), 0x02, of_nat (length R)] @ R @
    [0x02, of_nat (length S)] @ S @ [hashtype]"

lemma IsValidSignatureEncoding_der_signature:
  assumes "der_positive R" "der_positive S" "length R + length S \<le> 66"
  shows "IsValidSignatureEncoding (der_signature R S h)"
proof -
  let ?sig = "der_signature R S h"
  have len: "length ?sig = length R + length S + 7" by (simp add: der_signature_def)
  have R: "R \<noteq> []" and S: "S \<noteq> []" using assms by (auto simp: der_positive_def)
  then have pos: "0 < length R" "0 < length S" by auto
  have small: "unat (of_nat k :: byte) = k" if "k < 256" for k
    using that by (simp add: unat_of_nat)
  have front: "?sig ! 0 = 0x30" "unat (?sig ! 1) = length R + length S + 4" "?sig ! 2 = 0x02"
    "unat (?sig ! 3) = length R"
    using assms(3) small [of "length R"] small [of "length R + length S + 4"]
    by (simp_all add: der_signature_def nth_Cons')
  have inR: "?sig ! (4 + k) = R ! k" if "k < length R" for k
    using that by (simp add: der_signature_def nth_append)
  have mid: "?sig ! (length R + 4) = 0x02" "unat (?sig ! (5 + length R)) = length S"
    using assms(3) small [of "length S"] by (simp_all add: der_signature_def nth_append nth_Cons')
  have inS: "?sig ! (length R + (6 + k)) = S ! k" if "k < length S" for k
    using that by (simp add: der_signature_def nth_append)
  have two: "2 \<le> length R + length S" using pos by linarith
  have posR: "?sig ! 4 AND 0x80 = 0" "\<not> (length R > 1 \<and> ?sig ! 4 = 0 \<and> ?sig ! 5 AND 0x80 = 0)"
    using inR [of 0] inR [of 1] pos assms(1) by (auto simp: der_positive_def)
  have posS: "?sig ! (length R + 6) AND 0x80 = 0"
    "\<not> (length S > 1 \<and> ?sig ! (length R + 6) = 0 \<and> ?sig ! (length R + 7) AND 0x80 = 0)"
    using inS [of 0] inS [of 1] pos assms(2) by (auto simp: der_positive_def)
  show ?thesis
    unfolding IsValidSignatureEncoding_def Let_def len front mid
    using two assms(3) R S posR posS by simp
qed

lemma drop_some: "take m (drop n xs) @ drop (n + m) xs = drop n xs"
  by (metis add.commute append_take_drop_id drop_drop)

lemma drop_two: "n + 2 \<le> length xs \<Longrightarrow> [xs ! n, xs ! (n + 1)] @ drop (n + 2) xs = drop n xs"
  by (simp add: Cons_nth_drop_Suc)

lemma drop_last_one: "length xs = Suc n \<Longrightarrow> drop n xs = [last xs]"
  by (metis append_butlast_last_id append_eq_conv_conj length_0_conv length_butlast nat.discI diff_Suc_1)

lemma byte_of_unat: "unat b = k \<Longrightarrow> (b :: byte) = of_nat k"
  by auto

lemma IsValidSignatureEncoding_form:
  assumes valid: "IsValidSignatureEncoding sig"
  obtains R S h where "sig = der_signature R S h" "der_positive R" "der_positive S"
    "length R + length S \<le> 66"
proof -
  define lenR where "lenR = unat (sig ! 3)"
  define lenS where "lenS = unat (sig ! (5 + lenR))"
  define R where "R = take lenR (drop 4 sig)"
  define S where "S = take lenS (drop (lenR + 6) sig)"
  have cond: "length sig \<le> 73" "sig ! 0 = 0x30" "unat (sig ! 1) = length sig - 3"
    "lenR + lenS + 7 = length sig" "sig ! 2 = 0x02" "lenR \<noteq> 0" "sig ! 4 AND 0x80 = 0"
    "lenR > 1 \<Longrightarrow> sig ! 4 = 0 \<Longrightarrow> sig ! 5 AND 0x80 \<noteq> 0" "sig ! (lenR + 4) = 0x02" "lenS \<noteq> 0"
    "sig ! (lenR + 6) AND 0x80 = 0" "lenS > 1 \<Longrightarrow> sig ! (lenR + 6) = 0 \<Longrightarrow> sig ! (lenR + 7) AND 0x80 \<noteq> 0"
    using valid by (auto simp: IsValidSignatureEncoding_def Let_def lenR_def lenS_def split: if_splits)
  have lens: "length R = lenR" "length S = lenS" using cond by (auto simp: R_def S_def)
  have "der_signature R S (last sig) = [sig ! 0, sig ! 1] @ [sig ! 2, sig ! 3] @ R @
      [sig ! (lenR + 4), sig ! (lenR + 4 + 1)] @ S @ drop (lenR + 6 + lenS) sig"
  proof -
    have "drop (lenR + 6 + lenS) sig = [last sig]"
      using cond(4) by (intro drop_last_one) simp
    moreover have "sig ! 1 = of_nat (lenR + lenS + 4)"
      by (rule byte_of_unat) (use cond(3,4) in linarith)
    moreover have "sig ! 3 = of_nat lenR" "sig ! (lenR + 4 + 1) = of_nat lenS"
      by (simp_all add: lenR_def lenS_def add.commute)
    ultimately show ?thesis using cond lens by (simp add: der_signature_def)
  qed
  also have "\<dots> = sig"
    using cond(4) drop_two [of 0 sig] drop_two [of 2 sig] drop_two [of "lenR + 4" sig]
      drop_some [of lenR 4 sig] drop_some [of lenS "lenR + 6" sig]
    by (simp add: R_def S_def add.commute flip: numeral_2_eq_2)
  finally have "sig = der_signature R S (last sig)" ..
  moreover have "der_positive R"
    using cond lens by (auto simp: der_positive_def R_def)
  moreover have "der_positive S"
    using cond lens by (auto simp: der_positive_def S_def add.commute)
  ultimately show thesis using that cond lens by fastforce
qed

text \<open>
  C22: the index arithmetic of \<open>IsValidSignatureEncoding\<close> accepts exactly the byte strings of the signature
  grammar: two positive minimally encoded integers of at most 66 bytes together, in a sequence
  whose length bytes are right, and one byte for the hash type.
\<close>

theorem IsValidSignatureEncoding_iff:
  "IsValidSignatureEncoding sig \<longleftrightarrow>
    (\<exists>R S h. sig = der_signature R S h \<and> der_positive R \<and> der_positive S \<and> length R + length S \<le> 66)"
  by (metis IsValidSignatureEncoding_der_signature IsValidSignatureEncoding_form)

subsection \<open>Flags only restrict\<close>

lemma CheckPubKeyEncoding_mono:
  assumes "subflags f f'" "CheckPubKeyEncoding k f' v = Inr ()"
  shows "CheckPubKeyEncoding k f v = Inr ()"
  using assms subflags_has [OF assms(1)] by (auto simp: CheckPubKeyEncoding_def split: if_splits)

lemma CheckSignatureEncoding_mono:
  assumes "subflags f f'" "CheckSignatureEncoding lows sig f' = Inr ()"
  shows "CheckSignatureEncoding lows sig f = Inr ()"
  using assms(2) subflags_has [OF assms(1)]
  by (auto simp: CheckSignatureEncoding_def IsLowDERSignature_def split: if_splits sum.splits)

end
