(* ===== verification/SC_EvalOps.thy ===== *)
theory SC_EvalOps
  imports SC_Encoding SC_Transaction
begin

text \<open>
  The opcodes of the script interpreter, one definition for each case of the \<open>switch\<close> in
  \<open>EvalScript\<close> (\<^verbatim>\<open>script/interpreter.cpp\<close>). The stack is a list whose head is the top, so that
  \<open>stacktop(-1 - i)\<close> is its element \<open>i\<close>. A script number that does not decode raises an exception,
  which \<open>EvalScript\<close> turns into \<open>SCRIPT_ERR_UNKNOWN_ERROR\<close>.
\<close>

subsection \<open>State\<close>

type_synonym stack = "bytes list"

record checker =
  chk_CheckSig :: "bytes \<Rightarrow> bytes \<Rightarrow> CScript \<Rightarrow> SigVersion \<Rightarrow> bool"
  chk_CheckLockTime :: "int \<Rightarrow> bool"
  chk_CheckSequence :: "int \<Rightarrow> bool"
  chk_CheckLowS :: "bytes \<Rightarrow> bool"

text \<open>The base class of the checkers refuses everything.\<close>

definition BaseSignatureChecker :: "(bytes \<Rightarrow> bool) \<Rightarrow> checker" where
  "BaseSignatureChecker CheckLowS =
    \<lparr>chk_CheckSig = \<lambda>_ _ _ _. False, chk_CheckLockTime = \<lambda>_. False, chk_CheckSequence = \<lambda>_. False,
     chk_CheckLowS = CheckLowS\<rparr>"

record evstate =
  ev_pc :: CScript
  ev_codehash :: CScript
  ev_stack :: stack
  ev_altstack :: stack
  ev_vfExec :: "bool list"
  ev_nOpCount :: int

definition script_num :: "bytes \<Rightarrow> bool \<Rightarrow> nat \<Rightarrow> ScriptError + int" where
  "script_num vch fRequireMinimal nMaxNumSize =
    (case CScriptNum vch fRequireMinimal nMaxNumSize of
       Inl _ \<Rightarrow> Inl SCRIPT_ERR_UNKNOWN_ERROR
     | Inr n \<Rightarrow> Inr n)"

abbreviation stack_err :: "ScriptError + 'a" where
  "stack_err \<equiv> Inl SCRIPT_ERR_INVALID_STACK_OPERATION"

definition num_bool :: "bool \<Rightarrow> int" where
  "num_bool b = (if b then 1 else 0)"

subsection \<open>Pushing values\<close>

definition op_N :: "opcodetype \<Rightarrow> stack \<Rightarrow> ScriptError + stack" where
  "op_N opcode stack = Inr (getvch (uint opcode - (uint OP_1 - 1)) # stack)"

subsection \<open>Control\<close>

definition op_VERIFY :: "stack \<Rightarrow> ScriptError + stack" where
  "op_VERIFY stack =
    (case stack of
       vch # rest \<Rightarrow> if CastToBool vch then Inr rest else Inl SCRIPT_ERR_VERIFY
     | _ \<Rightarrow> stack_err)"

definition op_CHECKLOCKTIMEVERIFY :: "checker \<Rightarrow> u32 \<Rightarrow> stack \<Rightarrow> ScriptError + stack" where
  "op_CHECKLOCKTIMEVERIFY ck flags stack =
    (if \<not> has_flag flags SCRIPT_VERIFY_CHECKLOCKTIMEVERIFY then Inr stack
     else if length stack < 1 then stack_err
     else err_bind (script_num (stack ! 0) (has_flag flags SCRIPT_VERIFY_MINIMALDATA) 5) (\<lambda>nLockTime.
       if nLockTime < 0 then Inl SCRIPT_ERR_NEGATIVE_LOCKTIME
       else if \<not> chk_CheckLockTime ck nLockTime then Inl SCRIPT_ERR_UNSATISFIED_LOCKTIME
       else Inr stack))"

definition op_CHECKSEQUENCEVERIFY :: "checker \<Rightarrow> u32 \<Rightarrow> stack \<Rightarrow> ScriptError + stack" where
  "op_CHECKSEQUENCEVERIFY ck flags stack =
    (if \<not> has_flag flags SCRIPT_VERIFY_CHECKSEQUENCEVERIFY then Inr stack
     else if length stack < 1 then stack_err
     else err_bind (script_num (stack ! 0) (has_flag flags SCRIPT_VERIFY_MINIMALDATA) 5) (\<lambda>nSequence.
       if nSequence < 0 then Inl SCRIPT_ERR_NEGATIVE_LOCKTIME
       else if nSequence AND uint SEQUENCE_LOCKTIME_DISABLE_FLAG \<noteq> 0 then Inr stack
       else if \<not> chk_CheckSequence ck nSequence then Inl SCRIPT_ERR_UNSATISFIED_LOCKTIME
       else Inr stack))"

definition op_NOPn :: "u32 \<Rightarrow> stack \<Rightarrow> ScriptError + stack" where
  "op_NOPn flags stack =
    (if has_flag flags SCRIPT_VERIFY_DISCOURAGE_UPGRADABLE_NOPS
     then Inl SCRIPT_ERR_DISCOURAGE_UPGRADABLE_NOPS
     else Inr stack)"

definition fExec :: "evstate \<Rightarrow> bool" where
  "fExec st \<longleftrightarrow> False \<notin> set (ev_vfExec st)"

definition op_IF :: "u32 \<Rightarrow> SigVersion \<Rightarrow> opcodetype \<Rightarrow> evstate \<Rightarrow> ScriptError + evstate" where
  "op_IF flags sigversion opcode st =
    (if fExec st
     then case ev_stack st of
         vch # rest \<Rightarrow>
           if sigversion = SIGVERSION_WITNESS_V0 \<and> has_flag flags SCRIPT_VERIFY_MINIMALIF \<and>
              (length vch > 1 \<or> length vch = 1 \<and> vch ! 0 \<noteq> 1)
           then Inl SCRIPT_ERR_MINIMALIF
           else let fValue = (if opcode = OP_NOTIF then \<not> CastToBool vch else CastToBool vch) in
             Inr (st\<lparr>ev_stack := rest, ev_vfExec := fValue # ev_vfExec st\<rparr>)
       | _ \<Rightarrow> Inl SCRIPT_ERR_UNBALANCED_CONDITIONAL
     else Inr (st\<lparr>ev_vfExec := False # ev_vfExec st\<rparr>))"

definition op_ELSE :: "evstate \<Rightarrow> ScriptError + evstate" where
  "op_ELSE st =
    (case ev_vfExec st of
       b # rest \<Rightarrow> Inr (st\<lparr>ev_vfExec := (\<not> b) # rest\<rparr>)
     | _ \<Rightarrow> Inl SCRIPT_ERR_UNBALANCED_CONDITIONAL)"

definition op_ENDIF :: "evstate \<Rightarrow> ScriptError + evstate" where
  "op_ENDIF st =
    (case ev_vfExec st of
       b # rest \<Rightarrow> Inr (st\<lparr>ev_vfExec := rest\<rparr>)
     | _ \<Rightarrow> Inl SCRIPT_ERR_UNBALANCED_CONDITIONAL)"

definition op_RETURN :: "evstate \<Rightarrow> ScriptError + evstate" where
  "op_RETURN st = Inl SCRIPT_ERR_OP_RETURN"

subsection \<open>Stack operations\<close>

definition op_TOALTSTACK :: "evstate \<Rightarrow> ScriptError + evstate" where
  "op_TOALTSTACK st =
    (case ev_stack st of
       vch # rest \<Rightarrow> Inr (st\<lparr>ev_stack := rest, ev_altstack := vch # ev_altstack st\<rparr>)
     | _ \<Rightarrow> stack_err)"

definition op_FROMALTSTACK :: "evstate \<Rightarrow> ScriptError + evstate" where
  "op_FROMALTSTACK st =
    (case ev_altstack st of
       vch # rest \<Rightarrow> Inr (st\<lparr>ev_stack := vch # ev_stack st, ev_altstack := rest\<rparr>)
     | _ \<Rightarrow> Inl SCRIPT_ERR_INVALID_ALTSTACK_OPERATION)"

definition op_2DROP :: "stack \<Rightarrow> ScriptError + stack" where
  "op_2DROP stack = (case stack of x2 # x1 # rest \<Rightarrow> Inr rest | _ \<Rightarrow> stack_err)"

definition op_2DUP :: "stack \<Rightarrow> ScriptError + stack" where
  "op_2DUP stack = (case stack of x2 # x1 # rest \<Rightarrow> Inr (x2 # x1 # x2 # x1 # rest) | _ \<Rightarrow> stack_err)"

definition op_3DUP :: "stack \<Rightarrow> ScriptError + stack" where
  "op_3DUP stack =
    (case stack of x3 # x2 # x1 # rest \<Rightarrow> Inr (x3 # x2 # x1 # x3 # x2 # x1 # rest) | _ \<Rightarrow> stack_err)"

definition op_2OVER :: "stack \<Rightarrow> ScriptError + stack" where
  "op_2OVER stack =
    (case stack of x4 # x3 # x2 # x1 # rest \<Rightarrow> Inr (x2 # x1 # x4 # x3 # x2 # x1 # rest) | _ \<Rightarrow> stack_err)"

definition op_2ROT :: "stack \<Rightarrow> ScriptError + stack" where
  "op_2ROT stack =
    (case stack of
       x6 # x5 # x4 # x3 # x2 # x1 # rest \<Rightarrow> Inr (x2 # x1 # x6 # x5 # x4 # x3 # rest)
     | _ \<Rightarrow> stack_err)"

definition op_2SWAP :: "stack \<Rightarrow> ScriptError + stack" where
  "op_2SWAP stack =
    (case stack of x4 # x3 # x2 # x1 # rest \<Rightarrow> Inr (x2 # x1 # x4 # x3 # rest) | _ \<Rightarrow> stack_err)"

definition op_IFDUP :: "stack \<Rightarrow> ScriptError + stack" where
  "op_IFDUP stack =
    (case stack of x # rest \<Rightarrow> Inr (if CastToBool x then x # stack else stack) | _ \<Rightarrow> stack_err)"

definition op_DEPTH :: "stack \<Rightarrow> ScriptError + stack" where
  "op_DEPTH stack = Inr (getvch (int (length stack)) # stack)"

definition op_DROP :: "stack \<Rightarrow> ScriptError + stack" where
  "op_DROP stack = (case stack of x # rest \<Rightarrow> Inr rest | _ \<Rightarrow> stack_err)"

definition op_DUP :: "stack \<Rightarrow> ScriptError + stack" where
  "op_DUP stack = (case stack of x # rest \<Rightarrow> Inr (x # x # rest) | _ \<Rightarrow> stack_err)"

definition op_NIP :: "stack \<Rightarrow> ScriptError + stack" where
  "op_NIP stack = (case stack of x2 # x1 # rest \<Rightarrow> Inr (x2 # rest) | _ \<Rightarrow> stack_err)"

definition op_OVER :: "stack \<Rightarrow> ScriptError + stack" where
  "op_OVER stack = (case stack of x2 # x1 # rest \<Rightarrow> Inr (x1 # x2 # x1 # rest) | _ \<Rightarrow> stack_err)"

definition op_PICK_ROLL :: "opcodetype \<Rightarrow> bool \<Rightarrow> stack \<Rightarrow> ScriptError + stack" where
  "op_PICK_ROLL opcode fRequireMinimal stack =
    (if length stack < 2 then stack_err
     else err_bind (script_num (stack ! 0) fRequireMinimal nDefaultMaxNumSize) (\<lambda>bn.
       let n = getint bn; stack = tl stack in
       if n < 0 \<or> n \<ge> int (length stack) then stack_err
       else let vch = stack ! nat n;
                stack = (if opcode = OP_ROLL then take (nat n) stack @ drop (nat n + 1) stack else stack) in
         Inr (vch # stack)))"

definition op_ROT :: "stack \<Rightarrow> ScriptError + stack" where
  "op_ROT stack = (case stack of x3 # x2 # x1 # rest \<Rightarrow> Inr (x1 # x3 # x2 # rest) | _ \<Rightarrow> stack_err)"

definition op_SWAP :: "stack \<Rightarrow> ScriptError + stack" where
  "op_SWAP stack = (case stack of x2 # x1 # rest \<Rightarrow> Inr (x1 # x2 # rest) | _ \<Rightarrow> stack_err)"

definition op_TUCK :: "stack \<Rightarrow> ScriptError + stack" where
  "op_TUCK stack = (case stack of x2 # x1 # rest \<Rightarrow> Inr (x2 # x1 # x2 # rest) | _ \<Rightarrow> stack_err)"

definition op_SIZE :: "stack \<Rightarrow> ScriptError + stack" where
  "op_SIZE stack = (case stack of x # rest \<Rightarrow> Inr (getvch (int (length x)) # stack) | _ \<Rightarrow> stack_err)"

subsection \<open>Comparison and arithmetic\<close>

definition op_EQUAL :: "opcodetype \<Rightarrow> stack \<Rightarrow> ScriptError + stack" where
  "op_EQUAL opcode stack =
    (case stack of
       vch2 # vch1 # rest \<Rightarrow>
         let fEqual = (vch1 = vch2) in
         if opcode = OP_EQUALVERIFY
         then if fEqual then Inr rest else Inl SCRIPT_ERR_EQUALVERIFY
         else Inr (vchBool fEqual # rest)
     | _ \<Rightarrow> stack_err)"

definition unary_num :: "opcodetype \<Rightarrow> int \<Rightarrow> int" where
  "unary_num opcode bn =
    (if opcode = OP_1ADD then bn + 1
     else if opcode = OP_1SUB then bn - 1
     else if opcode = OP_NEGATE then - bn
     else if opcode = OP_ABS then if bn < 0 then - bn else bn
     else if opcode = OP_NOT then num_bool (bn = 0)
     else num_bool (bn \<noteq> 0))"

definition op_unary :: "opcodetype \<Rightarrow> bool \<Rightarrow> stack \<Rightarrow> ScriptError + stack" where
  "op_unary opcode fRequireMinimal stack =
    (case stack of
       vch # rest \<Rightarrow>
         err_bind (script_num vch fRequireMinimal nDefaultMaxNumSize) (\<lambda>bn.
           Inr (getvch (unary_num opcode bn) # rest))
     | _ \<Rightarrow> stack_err)"

definition binary_num :: "opcodetype \<Rightarrow> int \<Rightarrow> int \<Rightarrow> int" where
  "binary_num opcode bn1 bn2 =
    (if opcode = OP_ADD then bn1 + bn2
     else if opcode = OP_SUB then bn1 - bn2
     else if opcode = OP_BOOLAND then num_bool (bn1 \<noteq> 0 \<and> bn2 \<noteq> 0)
     else if opcode = OP_BOOLOR then num_bool (bn1 \<noteq> 0 \<or> bn2 \<noteq> 0)
     else if opcode = OP_NUMEQUAL then num_bool (bn1 = bn2)
     else if opcode = OP_NUMEQUALVERIFY then num_bool (bn1 = bn2)
     else if opcode = OP_NUMNOTEQUAL then num_bool (bn1 \<noteq> bn2)
     else if opcode = OP_LESSTHAN then num_bool (bn1 < bn2)
     else if opcode = OP_GREATERTHAN then num_bool (bn1 > bn2)
     else if opcode = OP_LESSTHANOREQUAL then num_bool (bn1 \<le> bn2)
     else if opcode = OP_GREATERTHANOREQUAL then num_bool (bn1 \<ge> bn2)
     else if opcode = OP_MIN then (if bn1 < bn2 then bn1 else bn2)
     else (if bn1 > bn2 then bn1 else bn2))"

definition op_binary :: "opcodetype \<Rightarrow> bool \<Rightarrow> stack \<Rightarrow> ScriptError + stack" where
  "op_binary opcode fRequireMinimal stack =
    (case stack of
       vch2 # vch1 # rest \<Rightarrow>
         err_bind (script_num vch1 fRequireMinimal nDefaultMaxNumSize) (\<lambda>bn1.
         err_bind (script_num vch2 fRequireMinimal nDefaultMaxNumSize) (\<lambda>bn2.
           let vch = getvch (binary_num opcode bn1 bn2) in
           if opcode = OP_NUMEQUALVERIFY
           then if CastToBool vch then Inr rest else Inl SCRIPT_ERR_NUMEQUALVERIFY
           else Inr (vch # rest)))
     | _ \<Rightarrow> stack_err)"

definition op_WITHIN :: "bool \<Rightarrow> stack \<Rightarrow> ScriptError + stack" where
  "op_WITHIN fRequireMinimal stack =
    (case stack of
       vch3 # vch2 # vch1 # rest \<Rightarrow>
         err_bind (script_num vch1 fRequireMinimal nDefaultMaxNumSize) (\<lambda>bn1.
         err_bind (script_num vch2 fRequireMinimal nDefaultMaxNumSize) (\<lambda>bn2.
         err_bind (script_num vch3 fRequireMinimal nDefaultMaxNumSize) (\<lambda>bn3.
           Inr (vchBool (bn2 \<le> bn1 \<and> bn1 < bn3) # rest))))
     | _ \<Rightarrow> stack_err)"

subsection \<open>Hashes and signatures\<close>

definition op_HASH :: "opcodetype \<Rightarrow> stack \<Rightarrow> ScriptError + stack" where
  "op_HASH opcode stack =
    (case stack of
       vch # rest \<Rightarrow>
         Inr ((if opcode = OP_RIPEMD160 then ripemd160 vch
               else if opcode = OP_SHA1 then sha1 vch
               else if opcode = OP_SHA256 then sha256 vch
               else if opcode = OP_HASH160 then Hash160 vch
               else Hash vch) # rest)
     | _ \<Rightarrow> stack_err)"

definition op_CODESEPARATOR :: "evstate \<Rightarrow> ScriptError + evstate" where
  "op_CODESEPARATOR st = Inr (st\<lparr>ev_codehash := ev_pc st\<rparr>)"

definition drop_signature :: "SigVersion \<Rightarrow> bytes \<Rightarrow> CScript \<Rightarrow> CScript" where
  "drop_signature sigversion vchSig scriptCode =
    (if sigversion = SIGVERSION_BASE then snd (FindAndDelete scriptCode (push_data vchSig)) else scriptCode)"

definition op_CHECKSIG ::
  "checker \<Rightarrow> u32 \<Rightarrow> SigVersion \<Rightarrow> opcodetype \<Rightarrow> evstate \<Rightarrow> ScriptError + evstate" where
  "op_CHECKSIG ck flags sigversion opcode st =
    (case ev_stack st of
       vchPubKey # vchSig # rest \<Rightarrow>
         let scriptCode = drop_signature sigversion vchSig (ev_codehash st) in
         err_bind (CheckSignatureEncoding (chk_CheckLowS ck) vchSig flags) (\<lambda>_.
         err_bind (CheckPubKeyEncoding vchPubKey flags sigversion) (\<lambda>_.
           let fSuccess = chk_CheckSig ck vchSig vchPubKey scriptCode sigversion in
           if \<not> fSuccess \<and> has_flag flags SCRIPT_VERIFY_NULLFAIL \<and> length vchSig \<noteq> 0
           then Inl SCRIPT_ERR_SIG_NULLFAIL
           else if opcode = OP_CHECKSIGVERIFY
           then if fSuccess then Inr (st\<lparr>ev_stack := rest\<rparr>) else Inl SCRIPT_ERR_CHECKSIGVERIFY
           else Inr (st\<lparr>ev_stack := vchBool fSuccess # rest\<rparr>)))
     | _ \<Rightarrow> stack_err)"

text \<open>
  The loop of \<open>OP_CHECKMULTISIG\<close> takes the signatures and keys that are left, each from the top of the
  stack down. There are never more signatures than keys, so the last equation is not reached.
\<close>

fun multisig_loop ::
  "checker \<Rightarrow> u32 \<Rightarrow> SigVersion \<Rightarrow> CScript \<Rightarrow> bytes list \<Rightarrow> bytes list \<Rightarrow> ScriptError + bool" where
  "multisig_loop ck flags sigversion scriptCode [] keys = Inr True"
| "multisig_loop ck flags sigversion scriptCode (vchSig # sigs) (vchPubKey # keys) =
    err_bind (CheckSignatureEncoding (chk_CheckLowS ck) vchSig flags) (\<lambda>_.
    err_bind (CheckPubKeyEncoding vchPubKey flags sigversion) (\<lambda>_.
      let fOk = chk_CheckSig ck vchSig vchPubKey scriptCode sigversion;
          left = (if fOk then sigs else vchSig # sigs) in
      if length left > length keys then Inr False
      else multisig_loop ck flags sigversion scriptCode left keys))"
| "multisig_loop ck flags sigversion scriptCode (vchSig # sigs) [] = Inr False"

fun multisig_cleanup :: "bool \<Rightarrow> nat \<Rightarrow> nat \<Rightarrow> stack \<Rightarrow> ScriptError + stack" where
  "multisig_cleanup failing ikey2 0 stack = Inr stack"
| "multisig_cleanup failing ikey2 (Suc i) stack =
    (if failing \<and> ikey2 = 0 \<and> length (stack ! 0) \<noteq> 0 then Inl SCRIPT_ERR_SIG_NULLFAIL
     else multisig_cleanup failing (ikey2 - 1) i (tl stack))"

definition multisig_finish :: "u32 \<Rightarrow> opcodetype \<Rightarrow> bool \<Rightarrow> stack \<Rightarrow> ScriptError + stack" where
  "multisig_finish flags opcode fSuccess stack =
    (case stack of
       dummy # rest \<Rightarrow>
         if has_flag flags SCRIPT_VERIFY_NULLDUMMY \<and> length dummy \<noteq> 0 then Inl SCRIPT_ERR_SIG_NULLDUMMY
         else if opcode = OP_CHECKMULTISIGVERIFY
         then if fSuccess then Inr rest else Inl SCRIPT_ERR_CHECKMULTISIGVERIFY
         else Inr (vchBool fSuccess # rest)
     | _ \<Rightarrow> stack_err)"

definition multisig_counts :: "u32 \<Rightarrow> evstate \<Rightarrow> ScriptError + nat \<times> nat \<times> int" where
  "multisig_counts flags st =
    (let stack = ev_stack st; fRequireMinimal = has_flag flags SCRIPT_VERIFY_MINIMALDATA in
     if length stack < 1 then stack_err
     else err_bind (script_num (stack ! 0) fRequireMinimal nDefaultMaxNumSize) (\<lambda>bn.
       let nKeysCount = getint bn in
       if nKeysCount < 0 \<or> nKeysCount > int MAX_PUBKEYS_PER_MULTISIG then Inl SCRIPT_ERR_PUBKEY_COUNT
       else let nOpCount = ev_nOpCount st + nKeysCount; nKeys = nat nKeysCount in
         if nOpCount > MAX_OPS_PER_SCRIPT then Inl SCRIPT_ERR_OP_COUNT
         else if length stack < nKeys + 2 then stack_err
         else err_bind (script_num (stack ! (nKeys + 1)) fRequireMinimal nDefaultMaxNumSize) (\<lambda>bn.
           let nSigsCount = getint bn in
           if nSigsCount < 0 \<or> nSigsCount > nKeysCount then Inl SCRIPT_ERR_SIG_COUNT
           else if length stack < nKeys + nat nSigsCount + 3 then stack_err
           else Inr (nKeys, nat nSigsCount, nOpCount))))"

definition op_CHECKMULTISIG ::
  "checker \<Rightarrow> u32 \<Rightarrow> SigVersion \<Rightarrow> opcodetype \<Rightarrow> evstate \<Rightarrow> ScriptError + evstate" where
  "op_CHECKMULTISIG ck flags sigversion opcode st =
    err_bind (multisig_counts flags st) (\<lambda>(nKeys, nSigs, nOpCount).
      let stack = ev_stack st;
          keys = take nKeys (drop 1 stack);
          sigs = take nSigs (drop (nKeys + 2) stack);
          scriptCode = fold (drop_signature sigversion) sigs (ev_codehash st) in
      err_bind (multisig_loop ck flags sigversion scriptCode sigs keys) (\<lambda>fSuccess.
      err_bind (multisig_cleanup (\<not> fSuccess \<and> has_flag flags SCRIPT_VERIFY_NULLFAIL) (nKeys + 2)
                  (nKeys + nSigs + 2) stack) (\<lambda>stack.
      err_bind (multisig_finish flags opcode fSuccess stack) (\<lambda>stack.
        Inr (st\<lparr>ev_stack := stack, ev_nOpCount := nOpCount\<rparr>)))))"

end
