(* ===== verification/SC_EvalScript.thy ===== *)
theory SC_EvalScript
  imports SC_EvalOps
begin

text \<open>
  The interpreter loop \<open>EvalScript\<close> (\<^verbatim>\<open>script/interpreter.cpp\<close>) over the opcodes of \<open>SC_EvalOps\<close>. The
  \<open>switch\<close> is a list of groups of case labels with their common body, in the order of the source. The
  program counter and the start of the signed code are suffixes of the script.
\<close>

subsection \<open>The switch\<close>

definition on_stack :: "(stack \<Rightarrow> ScriptError + stack) \<Rightarrow> evstate \<Rightarrow> ScriptError + evstate" where
  "on_stack h st = err_bind (h (ev_stack st)) (\<lambda>stack. Inr (st\<lparr>ev_stack := stack\<rparr>))"

type_synonym handler = "evstate \<Rightarrow> ScriptError + evstate"

definition switch_cases ::
  "checker \<Rightarrow> u32 \<Rightarrow> SigVersion \<Rightarrow> (opcodetype list \<times> (opcodetype \<Rightarrow> handler)) list" where
  "switch_cases ck flags sigversion =
    (let fRequireMinimal = has_flag flags SCRIPT_VERIFY_MINIMALDATA in
    [([OP_1NEGATE, OP_1, OP_2, OP_3, OP_4, OP_5, OP_6, OP_7, OP_8, OP_9, OP_10, OP_11, OP_12, OP_13, OP_14, OP_15,
       OP_16], \<lambda>opcode. on_stack (op_N opcode)),
     ([OP_NOP], \<lambda>_. Inr),
     ([OP_CHECKLOCKTIMEVERIFY], \<lambda>_. on_stack (op_CHECKLOCKTIMEVERIFY ck flags)),
     ([OP_CHECKSEQUENCEVERIFY], \<lambda>_. on_stack (op_CHECKSEQUENCEVERIFY ck flags)),
     ([OP_NOP1, OP_NOP4, OP_NOP5, OP_NOP6, OP_NOP7, OP_NOP8, OP_NOP9, OP_NOP10], \<lambda>_. on_stack (op_NOPn flags)),
     ([OP_IF, OP_NOTIF], op_IF flags sigversion),
     ([OP_ELSE], \<lambda>_. op_ELSE),
     ([OP_ENDIF], \<lambda>_. op_ENDIF),
     ([OP_VERIFY], \<lambda>_. on_stack op_VERIFY),
     ([OP_RETURN], \<lambda>_. op_RETURN),
     ([OP_TOALTSTACK], \<lambda>_. op_TOALTSTACK),
     ([OP_FROMALTSTACK], \<lambda>_. op_FROMALTSTACK),
     ([OP_2DROP], \<lambda>_. on_stack op_2DROP),
     ([OP_2DUP], \<lambda>_. on_stack op_2DUP),
     ([OP_3DUP], \<lambda>_. on_stack op_3DUP),
     ([OP_2OVER], \<lambda>_. on_stack op_2OVER),
     ([OP_2ROT], \<lambda>_. on_stack op_2ROT),
     ([OP_2SWAP], \<lambda>_. on_stack op_2SWAP),
     ([OP_IFDUP], \<lambda>_. on_stack op_IFDUP),
     ([OP_DEPTH], \<lambda>_. on_stack op_DEPTH),
     ([OP_DROP], \<lambda>_. on_stack op_DROP),
     ([OP_DUP], \<lambda>_. on_stack op_DUP),
     ([OP_NIP], \<lambda>_. on_stack op_NIP),
     ([OP_OVER], \<lambda>_. on_stack op_OVER),
     ([OP_PICK, OP_ROLL], \<lambda>opcode. on_stack (op_PICK_ROLL opcode fRequireMinimal)),
     ([OP_ROT], \<lambda>_. on_stack op_ROT),
     ([OP_SWAP], \<lambda>_. on_stack op_SWAP),
     ([OP_TUCK], \<lambda>_. on_stack op_TUCK),
     ([OP_SIZE], \<lambda>_. on_stack op_SIZE),
     ([OP_EQUAL, OP_EQUALVERIFY], \<lambda>opcode. on_stack (op_EQUAL opcode)),
     ([OP_1ADD, OP_1SUB, OP_NEGATE, OP_ABS, OP_NOT, OP_0NOTEQUAL],
      \<lambda>opcode. on_stack (op_unary opcode fRequireMinimal)),
     ([OP_ADD, OP_SUB, OP_BOOLAND, OP_BOOLOR, OP_NUMEQUAL, OP_NUMEQUALVERIFY, OP_NUMNOTEQUAL, OP_LESSTHAN,
       OP_GREATERTHAN, OP_LESSTHANOREQUAL, OP_GREATERTHANOREQUAL, OP_MIN, OP_MAX],
      \<lambda>opcode. on_stack (op_binary opcode fRequireMinimal)),
     ([OP_WITHIN], \<lambda>_. on_stack (op_WITHIN fRequireMinimal)),
     ([OP_RIPEMD160, OP_SHA1, OP_SHA256, OP_HASH160, OP_HASH256], \<lambda>opcode. on_stack (op_HASH opcode)),
     ([OP_CODESEPARATOR], \<lambda>_. op_CODESEPARATOR),
     ([OP_CHECKSIG, OP_CHECKSIGVERIFY], op_CHECKSIG ck flags sigversion),
     ([OP_CHECKMULTISIG, OP_CHECKMULTISIGVERIFY], op_CHECKMULTISIG ck flags sigversion)])"

fun switch_on :: "opcodetype \<Rightarrow> (opcodetype list \<times> (opcodetype \<Rightarrow> handler)) list \<Rightarrow> handler" where
  "switch_on opcode [] st = Inl SCRIPT_ERR_BAD_OPCODE"
| "switch_on opcode ((labels, body) # cases) st =
    (if opcode \<in> set labels then body opcode st else switch_on opcode cases st)"

subsection \<open>The loop\<close>

definition disabled_opcodes :: "opcodetype list" where
  "disabled_opcodes =
    [OP_CAT, OP_SUBSTR, OP_LEFT, OP_RIGHT, OP_INVERT, OP_AND, OP_OR, OP_XOR, OP_2MUL, OP_2DIV, OP_MUL, OP_DIV,
     OP_MOD, OP_LSHIFT, OP_RSHIFT]"

definition EvalScript_execute ::
  "checker \<Rightarrow> u32 \<Rightarrow> SigVersion \<Rightarrow> opcodetype \<Rightarrow> bytes \<Rightarrow> handler" where
  "EvalScript_execute ck flags sigversion opcode vchPushValue st =
    (if fExec st \<and> opcode \<le> OP_PUSHDATA4
     then if has_flag flags SCRIPT_VERIFY_MINIMALDATA \<and> \<not> CheckMinimalPush vchPushValue opcode
       then Inl SCRIPT_ERR_MINIMALDATA
       else Inr (st\<lparr>ev_stack := vchPushValue # ev_stack st\<rparr>)
     else if fExec st \<or> OP_IF \<le> opcode \<and> opcode \<le> OP_ENDIF
     then switch_on opcode (switch_cases ck flags sigversion) st
     else Inr st)"

definition EvalScript_step :: "checker \<Rightarrow> u32 \<Rightarrow> SigVersion \<Rightarrow> handler" where
  "EvalScript_step ck flags sigversion st =
    (let (ok, opcode, vchPushValue, pc) = GetOp2 (ev_pc st);
         nOpCount = (if opcode > OP_16 then ev_nOpCount st + 1 else ev_nOpCount st) in
     if \<not> ok then Inl SCRIPT_ERR_BAD_OPCODE
     else if length vchPushValue > MAX_SCRIPT_ELEMENT_SIZE then Inl SCRIPT_ERR_PUSH_SIZE
     else if opcode > OP_16 \<and> nOpCount > MAX_OPS_PER_SCRIPT then Inl SCRIPT_ERR_OP_COUNT
     else if opcode \<in> set disabled_opcodes then Inl SCRIPT_ERR_DISABLED_OPCODE
     else err_bind (EvalScript_execute ck flags sigversion opcode vchPushValue
                      (st\<lparr>ev_pc := pc, ev_nOpCount := nOpCount\<rparr>)) (\<lambda>st.
       if length (ev_stack st) + length (ev_altstack st) > MAX_STACK_SIZE then Inl SCRIPT_ERR_STACK_SIZE
       else Inr st))"

text \<open>What every case of the switch does to the rest of the state and to the sizes of the elements.\<close>

definition elements_ok :: "stack \<Rightarrow> bool" where
  "elements_ok s \<longleftrightarrow> (\<forall>x\<in>set s. length x \<le> MAX_SCRIPT_ELEMENT_SIZE)"

definition stack_safe :: "(stack \<Rightarrow> ScriptError + stack) \<Rightarrow> bool" where
  "stack_safe h \<longleftrightarrow> (\<forall>s s'. h s = Inr s' \<longrightarrow> length s \<le> MAX_STACK_SIZE \<longrightarrow> elements_ok s \<longrightarrow> elements_ok s')"

definition state_ok :: "evstate \<Rightarrow> bool" where
  "state_ok st \<longleftrightarrow> length (ev_stack st) + length (ev_altstack st) \<le> MAX_STACK_SIZE \<and>
    elements_ok (ev_stack st) \<and> elements_ok (ev_altstack st) \<and>
    0 \<le> ev_nOpCount st \<and> ev_nOpCount st \<le> MAX_OPS_PER_SCRIPT"

definition handler_safe :: "handler \<Rightarrow> bool" where
  "handler_safe h \<longleftrightarrow> (\<forall>st st'. h st = Inr st' \<longrightarrow> ev_pc st' = ev_pc st \<and>
    (ev_codehash st' = ev_codehash st \<or> ev_codehash st' = ev_pc st) \<and>
    (state_ok st \<longrightarrow> elements_ok (ev_stack st') \<and> elements_ok (ev_altstack st') \<and>
      0 \<le> ev_nOpCount st' \<and> ev_nOpCount st' \<le> MAX_OPS_PER_SCRIPT))"

lemma elements_ok_simps [simp]:
  "elements_ok []" "elements_ok (x # s) \<longleftrightarrow> length x \<le> 520 \<and> elements_ok s"
  "elements_ok (s @ t) \<longleftrightarrow> elements_ok s \<and> elements_ok t"
  by (auto simp: elements_ok_def)

lemma elements_ok_sub: "elements_ok s \<Longrightarrow> set t \<subseteq> set s \<Longrightarrow> elements_ok t"
  by (auto simp: elements_ok_def)

lemma elements_ok_nth: "elements_ok s \<Longrightarrow> i < length s \<Longrightarrow> length (s ! i) \<le> 520"
  by (auto simp: elements_ok_def)

lemma length_vchBool [simp]: "length (vchBool b) \<le> 520"
  by (simp add: vchBool_def vchTrue_def vchFalse_def)

lemma length_getvch: "\<bar>v\<bar> < 2 ^ 32 \<Longrightarrow> length (getvch v) \<le> 520"
  using length_serialize [of v 4] by (simp add: getvch_def nat_less_iff)

lemma script_num_bound: "script_num vch m nDefaultMaxNumSize = Inr v \<Longrightarrow> \<bar>v\<bar> < 2 ^ 31"
  using CScriptNum_bound [of vch m 4 v]
  by (auto simp: script_num_def nDefaultMaxNumSize_def split: sum.splits)

lemma unary_num_bound: "\<bar>v\<bar> < 2 ^ 31 \<Longrightarrow> \<bar>unary_num op v\<bar> < 2 ^ 32"
  by (auto simp: unary_num_def num_bool_def)

lemma binary_num_bound: "\<bar>v\<bar> < 2 ^ 31 \<Longrightarrow> \<bar>w\<bar> < 2 ^ 31 \<Longrightarrow> \<bar>binary_num op v w\<bar> < 2 ^ 32"
  by (auto simp: binary_num_def num_bool_def)

named_theorems safe_intros

lemma safe_on_stack [safe_intros]: "stack_safe h \<Longrightarrow> handler_safe (on_stack h)"
  by (auto simp: stack_safe_def handler_safe_def on_stack_def err_bind_Inr state_ok_def)

lemma safe_Inr [safe_intros]: "handler_safe Inr"
  by (simp add: handler_safe_def state_ok_def)

lemma safe_simple_ops [safe_intros]:
  "stack_safe op_VERIFY" "stack_safe op_2DROP" "stack_safe op_2DUP" "stack_safe op_3DUP" "stack_safe op_2OVER"
  "stack_safe op_2ROT" "stack_safe op_2SWAP" "stack_safe op_IFDUP" "stack_safe op_DROP" "stack_safe op_DUP"
  "stack_safe op_NIP" "stack_safe op_OVER" "stack_safe op_ROT" "stack_safe op_SWAP" "stack_safe op_TUCK"
  "stack_safe (op_NOPn flags)" "stack_safe (op_EQUAL op)"
  by (auto simp: stack_safe_def op_VERIFY_def op_2DROP_def op_2DUP_def op_3DUP_def op_2OVER_def op_2ROT_def
      op_2SWAP_def op_IFDUP_def op_DROP_def op_DUP_def op_NIP_def op_OVER_def op_ROT_def op_SWAP_def op_TUCK_def
      op_NOPn_def op_EQUAL_def Let_def split: list.splits if_splits)

lemma safe_lock_ops [safe_intros]:
  "stack_safe (op_CHECKLOCKTIMEVERIFY ck flags)" "stack_safe (op_CHECKSEQUENCEVERIFY ck flags)"
  by (auto simp: stack_safe_def op_CHECKLOCKTIMEVERIFY_def op_CHECKSEQUENCEVERIFY_def err_bind_Inr split: if_splits)

lemma safe_number_ops [safe_intros]:
  "stack_safe (op_N op)" "stack_safe op_DEPTH" "stack_safe op_SIZE"
  "stack_safe (op_unary op m)" "stack_safe (op_binary op m)" "stack_safe (op_WITHIN m)" "stack_safe (op_HASH op)"
proof -
  have "\<bar>uint op - 80\<bar> < 256" using uint_byte_less [of op] uint_ge_0 [of op] by linarith
  also have "\<dots> \<le> 2 ^ 32" by simp
  finally have "\<bar>uint op - 80\<bar> < 2 ^ 32" .
  then show "stack_safe (op_N op)" by (auto simp: stack_safe_def op_N_def intro: length_getvch)
  show "stack_safe op_DEPTH" "stack_safe op_SIZE"
    by (auto simp: stack_safe_def op_DEPTH_def op_SIZE_def intro: length_getvch split: list.splits)
  show "stack_safe (op_unary op m)"
    by (auto simp: stack_safe_def op_unary_def err_bind_Inr split: list.splits
        dest!: script_num_bound intro!: length_getvch unary_num_bound)
  show "stack_safe (op_binary op m)"
    by (auto simp: stack_safe_def op_binary_def err_bind_Inr Let_def split: list.splits if_splits
        dest!: script_num_bound intro!: length_getvch binary_num_bound)
  show "stack_safe (op_WITHIN m)"
    by (auto simp: stack_safe_def op_WITHIN_def err_bind_Inr split: list.splits)
  show "stack_safe (op_HASH op)"
    by (auto simp: stack_safe_def op_HASH_def split: list.splits)
qed

lemma safe_PICK_ROLL [safe_intros]: "stack_safe (op_PICK_ROLL op m)"
proof -
  have "elements_ok (take n s)" "elements_ok (drop n s)" if "elements_ok s" for n and s :: stack
    using that by (auto simp: elements_ok_def dest: in_set_takeD in_set_dropD)
  moreover have "elements_ok (tl s)" if "elements_ok s" for s :: stack
    using that by (cases s) auto
  ultimately show ?thesis
    by (auto simp: stack_safe_def op_PICK_ROLL_def err_bind_Inr Let_def split: if_splits intro!: elements_ok_nth)
qed

lemma safe_state_ops [safe_intros]:
  "handler_safe (op_IF flags sv op)" "handler_safe op_ELSE" "handler_safe op_ENDIF" "handler_safe op_RETURN"
  "handler_safe op_TOALTSTACK" "handler_safe op_FROMALTSTACK" "handler_safe op_CODESEPARATOR"
  by (auto simp: handler_safe_def op_IF_def op_ELSE_def op_ENDIF_def op_RETURN_def op_TOALTSTACK_def
      op_FROMALTSTACK_def op_CODESEPARATOR_def state_ok_def Let_def split: list.splits if_splits)

lemma safe_CHECKSIG [safe_intros]: "handler_safe (op_CHECKSIG ck flags sv op)"
  by (auto simp: handler_safe_def op_CHECKSIG_def state_ok_def err_bind_Inr Let_def split: list.splits if_splits)

lemma multisig_cleanup_drop:
  "multisig_cleanup b k n s = Inr s' \<Longrightarrow> s' = drop n s"
  by (induction b k n s rule: multisig_cleanup.induct) (auto simp: drop_Suc split: if_splits)

lemma multisig_cleanup_elements: "multisig_cleanup b k n s = Inr s' \<Longrightarrow> elements_ok s \<Longrightarrow> elements_ok s'"
  by (auto dest!: multisig_cleanup_drop intro: elements_ok_sub [OF _ set_drop_subset])

lemma multisig_finish_elements: "multisig_finish flags op b s = Inr s' \<Longrightarrow> elements_ok s \<Longrightarrow> elements_ok s'"
  by (auto simp: multisig_finish_def split: list.splits if_splits)

lemma multisig_counts_ops: "multisig_counts flags st = Inr (k, l, n) \<Longrightarrow> ev_nOpCount st \<le> n \<and> n \<le> 201"
  by (auto simp: multisig_counts_def err_bind_Inr Let_def split: if_splits)

lemma op_CHECKMULTISIG_Inr:
  "op_CHECKMULTISIG ck flags sv op st = Inr st' \<longleftrightarrow>
    (\<exists>k l n b s1 s2. multisig_counts flags st = Inr (k, l, n) \<and>
      multisig_loop ck flags sv (fold (drop_signature sv) (take l (drop (k + 2) (ev_stack st))) (ev_codehash st))
        (take l (drop (k + 2) (ev_stack st))) (take k (drop 1 (ev_stack st))) = Inr b \<and>
      multisig_cleanup (\<not> b \<and> has_flag flags SCRIPT_VERIFY_NULLFAIL) (k + 2) (k + l + 2) (ev_stack st) = Inr s1 \<and>
      multisig_finish flags op b s1 = Inr s2 \<and> st' = st\<lparr>ev_stack := s2, ev_nOpCount := n\<rparr>)"
  unfolding op_CHECKMULTISIG_def Let_def err_bind_Inr split_paired_Ex prod.case sum.inject
  by (simp only: ex_simps(1,2) [symmetric] eq_commute [of _ st'])

lemma safe_CHECKMULTISIG [safe_intros]: "handler_safe (op_CHECKMULTISIG ck flags sv op)"
  unfolding handler_safe_def
proof (intro allI impI)
  fix st st'
  assume "op_CHECKMULTISIG ck flags sv op st = Inr st'"
  then obtain k l n b s1 s2 where h: "multisig_counts flags st = Inr (k, l, n)"
      "multisig_cleanup (\<not> b \<and> has_flag flags SCRIPT_VERIFY_NULLFAIL) (k + 2) (k + l + 2) (ev_stack st) = Inr s1"
      "multisig_finish flags op b s1 = Inr s2" "st' = st\<lparr>ev_stack := s2, ev_nOpCount := n\<rparr>"
    unfolding op_CHECKMULTISIG_Inr by blast
  have "elements_ok (ev_stack st) \<Longrightarrow> elements_ok s2"
    using h(2,3) by (blast intro: multisig_cleanup_elements multisig_finish_elements)
  then show "ev_pc st' = ev_pc st \<and> (ev_codehash st' = ev_codehash st \<or> ev_codehash st' = ev_pc st) \<and>
      (state_ok st \<longrightarrow> elements_ok (ev_stack st') \<and> elements_ok (ev_altstack st') \<and>
        0 \<le> ev_nOpCount st' \<and> ev_nOpCount st' \<le> MAX_OPS_PER_SCRIPT)"
    using multisig_counts_ops [OF h(1)] h(4) by (simp add: state_ok_def)
qed

lemma switch_cases_safe: "list_all (\<lambda>(labels, body). \<forall>op. handler_safe (body op)) (switch_cases ck flags sv)"
  by (simp add: switch_cases_def Let_def safe_intros)

lemma switch_on_Cons: "switch_on op ((labels, body) # cs) = (if op \<in> set labels then body op else switch_on op cs)"
  by (simp add: fun_eq_iff)

lemma switch_on_safe: "list_all (\<lambda>(labels, body). \<forall>op. handler_safe (body op)) cs \<Longrightarrow> handler_safe (switch_on op cs)"
proof (induction cs)
  case Nil
  then show ?case by (simp add: handler_safe_def)
next
  case (Cons c cs)
  then show ?case by (cases c) (simp add: switch_on_Cons)
qed

lemma execute_safe: "length vch \<le> 520 \<Longrightarrow> handler_safe (EvalScript_execute ck flags sv op vch)"
  using switch_on_safe [OF switch_cases_safe]
  by (auto simp: handler_safe_def EvalScript_execute_def state_ok_def split: if_splits)

lemma EvalScript_step_Inr:
  assumes "EvalScript_step ck flags sv st = Inr st'"
  obtains op vch pc where "GetOp2 (ev_pc st) = (True, op, vch, pc)" "length vch \<le> 520"
    "op > OP_16 \<Longrightarrow> ev_nOpCount st + 1 \<le> 201" "op \<notin> set disabled_opcodes"
    "EvalScript_execute ck flags sv op vch
      (st\<lparr>ev_pc := pc, ev_nOpCount := if op > OP_16 then ev_nOpCount st + 1 else ev_nOpCount st\<rparr>) = Inr st'"
    "length (ev_stack st') + length (ev_altstack st') \<le> 1000"
  using assms that
  by (auto simp: EvalScript_step_def Let_def err_bind_Inr not_less split: prod.splits if_splits)

lemma step_pc_shorter:
  assumes "EvalScript_step ck flags sv st = Inr st'"
  shows "length (ev_pc st') < length (ev_pc st)"
  using assms
proof (rule EvalScript_step_Inr)
  fix op vch pc
  assume op: "GetOp2 (ev_pc st) = (True, op, vch, pc)" "length vch \<le> 520"
    "EvalScript_execute ck flags sv op vch
      (st\<lparr>ev_pc := pc, ev_nOpCount := if op > OP_16 then ev_nOpCount st + 1 else ev_nOpCount st\<rparr>) = Inr st'"
  then have "ev_pc st' = pc"
    using execute_safe [of vch ck flags sv op] unfolding handler_safe_def by fastforce
  then show ?thesis using GetOp2_True_length [OF op(1)] by simp
qed

function EvalScript_loop :: "checker \<Rightarrow> u32 \<Rightarrow> SigVersion \<Rightarrow> handler" where
  "EvalScript_loop ck flags sigversion st =
    (if ev_pc st = [] then Inr st
     else case EvalScript_step ck flags sigversion st of
       Inl e \<Rightarrow> Inl e
     | Inr st' \<Rightarrow> EvalScript_loop ck flags sigversion st')"
  by pat_completeness auto
termination
  by (relation "measure (\<lambda>(ck, flags, sv, st). length (ev_pc st))") (auto dest: step_pc_shorter)

declare EvalScript_loop.simps [simp del]

definition EvalScript_init :: "stack \<Rightarrow> CScript \<Rightarrow> evstate" where
  "EvalScript_init stack script =
    \<lparr>ev_pc = script, ev_codehash = script, ev_stack = stack, ev_altstack = [], ev_vfExec = [], ev_nOpCount = 0\<rparr>"

definition EvalScript :: "checker \<Rightarrow> u32 \<Rightarrow> SigVersion \<Rightarrow> stack \<Rightarrow> CScript \<Rightarrow> ScriptError + stack" where
  "EvalScript ck flags sigversion stack script =
    (if length script > MAX_SCRIPT_SIZE then Inl SCRIPT_ERR_SCRIPT_SIZE
     else err_bind (EvalScript_loop ck flags sigversion (EvalScript_init stack script)) (\<lambda>st.
       if ev_vfExec st \<noteq> [] then Inl SCRIPT_ERR_UNBALANCED_CONDITIONAL
       else Inr (ev_stack st)))"

end
