(* ===== verification/SC_EvalFacts.thy ===== *)
theory SC_EvalFacts
  imports SC_EvalScript
begin

text \<open>
  Properties of \<open>EvalScript\<close>: the resource limits hold in every state the interpreter goes through,
  verification flags only restrict, provably unspendable scripts fail, \<open>OP_CHECKMULTISIG\<close> finds an
  order-preserving matching of signatures to keys, and the standard key-hash script does what it is
  meant to do.
\<close>

subsection \<open>The states the interpreter goes through\<close>

inductive EvalScript_reaches ::
  "checker \<Rightarrow> u32 \<Rightarrow> SigVersion \<Rightarrow> stack \<Rightarrow> CScript \<Rightarrow> nat \<Rightarrow> evstate \<Rightarrow> bool"
  for ck flags sv stack script where
  reaches_init: "EvalScript_reaches ck flags sv stack script 0 (EvalScript_init stack script)"
| reaches_step: "EvalScript_reaches ck flags sv stack script n st \<Longrightarrow> ev_pc st \<noteq> [] \<Longrightarrow>
    EvalScript_step ck flags sv st = Inr st' \<Longrightarrow> EvalScript_reaches ck flags sv stack script (Suc n) st'"

lemma loop_reaches:
  "EvalScript_loop ck flags sv st = Inr st' \<Longrightarrow> EvalScript_reaches ck flags sv stack script n st \<Longrightarrow>
    \<exists>m. EvalScript_reaches ck flags sv stack script m st' \<and> ev_pc st' = []"
proof (induction ck flags sv st arbitrary: n rule: EvalScript_loop.induct)
  case (1 ck flags sv st)
  show ?case
  proof (cases "ev_pc st = []")
    case True
    then show ?thesis using 1 by (auto simp: EvalScript_loop.simps)
  next
    case False
    then obtain st1 where "EvalScript_step ck flags sv st = Inr st1" "EvalScript_loop ck flags sv st1 = Inr st'"
      using 1(2) by (subst (asm) EvalScript_loop.simps) (auto split: sum.splits)
    then show ?thesis using 1(1) [OF False, of st1] reaches_step [OF 1(3) False] by blast
  qed
qed

lemma EvalScript_Inr_reaches:
  assumes "EvalScript ck flags sv stack script = Inr stack'"
  obtains n st where "EvalScript_reaches ck flags sv stack script n st" "ev_pc st = []" "ev_vfExec st = []"
    "stack' = ev_stack st"
proof -
  from assms obtain st where "EvalScript_loop ck flags sv (EvalScript_init stack script) = Inr st"
    "ev_vfExec st = []" "stack' = ev_stack st"
    by (auto simp: EvalScript_def err_bind_Inr split: if_splits)
  then show thesis using loop_reaches [OF _ reaches_init] that by blast
qed

definition within_limits :: "CScript \<Rightarrow> nat \<Rightarrow> evstate \<Rightarrow> bool" where
  "within_limits script n st \<longleftrightarrow> state_ok st \<and> n + length (ev_pc st) \<le> length script \<and>
    suffix (ev_pc st) (ev_codehash st) \<and> suffix (ev_codehash st) script"

lemma step_within_limits:
  assumes "within_limits script n st" "EvalScript_step ck flags sv st = Inr st'"
  shows "within_limits script (Suc n) st'"
  using assms(2)
proof (rule EvalScript_step_Inr)
  fix op vch pc
  let ?st = "st\<lparr>ev_pc := pc, ev_nOpCount := if op > OP_16 then ev_nOpCount st + 1 else ev_nOpCount st\<rparr>"
  assume op: "GetOp2 (ev_pc st) = (True, op, vch, pc)" "length vch \<le> 520" "op > OP_16 \<Longrightarrow> ev_nOpCount st + 1 \<le> 201"
    "EvalScript_execute ck flags sv op vch ?st = Inr st'" "length (ev_stack st') + length (ev_altstack st') \<le> 1000"
  have "state_ok ?st" using assms(1) op(3) by (auto simp: within_limits_def state_ok_def)
  then have st': "ev_pc st' = pc" "ev_codehash st' = ev_codehash st \<or> ev_codehash st' = pc" "state_ok st'"
    using execute_safe [OF op(2), of ck flags sv op] op(4,5)
    unfolding handler_safe_def by (fastforce simp: state_ok_def)+
  moreover have "suffix pc (ev_pc st)" using op(1) by (rule GetOp2_suffix)
  ultimately show ?thesis
    using assms(1) GetOp2_True_length [OF op(1)]
    by (auto simp: within_limits_def intro: suffix_order.trans)
qed

lemma reaches_within_limits:
  assumes "length stack \<le> 1000" "elements_ok stack" "EvalScript_reaches ck flags sv stack script n st"
  shows "within_limits script n st"
  using assms(3)
proof induction
  case reaches_init
  then show ?case using assms(1,2) by (simp add: within_limits_def EvalScript_init_def state_ok_def)
next
  case (reaches_step n st st')
  then show ?case by (blast intro: step_within_limits)
qed

text \<open>
  C5: started on a stack of at most 1000 elements of at most 520 bytes, the interpreter stays within its
  limits in every state it goes through: the two stacks together hold at most 1000 elements, each of at
  most 520 bytes, at most 201 operations are counted, the signed code is a suffix of the script that
  the program counter lies in, and the number of instructions executed is at most the script's length.
\<close>

theorem EvalScript_limits:
  assumes "length stack \<le> 1000" "\<forall>x\<in>set stack. length x \<le> 520"
    and "EvalScript_reaches ck flags sv stack script n st"
  shows "length (ev_stack st) + length (ev_altstack st) \<le> 1000 \<and>
    (\<forall>x\<in>set (ev_stack st) \<union> set (ev_altstack st). length x \<le> 520) \<and>
    0 \<le> ev_nOpCount st \<and> ev_nOpCount st \<le> 201 \<and>
    suffix (ev_pc st) (ev_codehash st) \<and> suffix (ev_codehash st) script \<and>
    n + length (ev_pc st) \<le> length script"
  using reaches_within_limits [OF assms(1) _ assms(3)] assms(2)
  by (auto simp: within_limits_def state_ok_def elements_ok_def)

lemma step_OP_1: "EvalScript_step ck flags sv (EvalScript_init [] [OP_1]) =
    Inr (EvalScript_init [] [OP_1]\<lparr>ev_pc := [], ev_stack := [[1]]\<rparr>)"
  by (simp add: EvalScript_step_def EvalScript_init_def GetOp2_def GetOp2_size_def EvalScript_execute_def
      fExec_def disabled_opcodes_def switch_cases_def Let_def on_stack_def op_N_def getvch_def serialize_def
      serialize_abs.simps)

theorem EvalScript_limits_witness:
  "length ([] :: stack) \<le> 1000 \<and> list_all (\<lambda>x. length x \<le> 520) ([] :: stack) \<and>
   (let st = EvalScript_init [] [OP_1]\<lparr>ev_pc := [], ev_stack := [[1]]\<rparr>; ck = BaseSignatureChecker (\<lambda>_. True) in
    EvalScript_reaches ck 0 SIGVERSION_BASE [] [OP_1] 1 st \<and> ev_nOpCount st \<le> 201 \<and> suffix (ev_codehash st) [OP_1])"
proof -
  let ?st = "EvalScript_init [] [OP_1]\<lparr>ev_pc := [], ev_stack := [[1]]\<rparr>" and ?ck = "BaseSignatureChecker (\<lambda>_. True)"
  have r: "EvalScript_reaches ?ck 0 SIGVERSION_BASE [] [OP_1] 1 ?st"
    using reaches_step [OF reaches_init _ step_OP_1, of ?ck 0 SIGVERSION_BASE] by (simp add: EvalScript_init_def)
  from EvalScript_limits [OF _ _ r] r show ?thesis by (simp add: Let_def)
qed

subsection \<open>Flags only restrict\<close>

definition refines :: "('s \<Rightarrow> ScriptError + 's) \<Rightarrow> ('s \<Rightarrow> ScriptError + 's) \<Rightarrow> bool" where
  "refines h' h \<longleftrightarrow> (\<forall>st st'. h' st = Inr st' \<longrightarrow> h st = Inr st')"

lemma script_num_mono: "script_num vch b' n = Inr v \<Longrightarrow> (b \<Longrightarrow> b') \<Longrightarrow> script_num vch b n = Inr v"
  by (auto simp: script_num_def CScriptNum_def split: if_splits sum.splits)

lemma refines_refl: "refines h h"
  by (simp add: refines_def)

lemma refines_on_stack: "refines h' h \<Longrightarrow> refines (on_stack h') (on_stack h)"
  by (auto simp: refines_def on_stack_def err_bind_Inr)

lemma refines_number_ops:
  assumes "b \<Longrightarrow> b'"
  shows "refines (op_unary op b') (op_unary op b)" "refines (op_binary op b') (op_binary op b)"
    "refines (op_WITHIN b') (op_WITHIN b)" "refines (op_PICK_ROLL op b') (op_PICK_ROLL op b)"
  by (auto simp: refines_def op_unary_def op_binary_def op_WITHIN_def op_PICK_ROLL_def err_bind_Inr Let_def
      split: list.splits if_splits dest!: script_num_mono [where b = b and b' = b', OF _ assms])

lemma refines_flag_ops:
  assumes "subflags f f'"
  shows "refines (op_NOPn f') (op_NOPn f)" "refines (op_IF f' sv op) (op_IF f sv op)"
    "refines (op_CHECKLOCKTIMEVERIFY ck f') (op_CHECKLOCKTIMEVERIFY ck f)"
    "refines (op_CHECKSEQUENCEVERIFY ck f') (op_CHECKSEQUENCEVERIFY ck f)"
    "refines (op_CHECKSIG ck f' sv op) (op_CHECKSIG ck f sv op)"
proof -
  note flag = subflags_has [OF assms]
  show "refines (op_NOPn f') (op_NOPn f)"
    using flag by (auto simp: refines_def op_NOPn_def split: if_splits)
  show "refines (op_IF f' sv op) (op_IF f sv op)"
    using flag by (auto simp: refines_def op_IF_def Let_def split: if_splits list.splits)
  show "refines (op_CHECKLOCKTIMEVERIFY ck f') (op_CHECKLOCKTIMEVERIFY ck f)"
    "refines (op_CHECKSEQUENCEVERIFY ck f') (op_CHECKSEQUENCEVERIFY ck f)"
    using flag
    by (auto simp: refines_def op_CHECKLOCKTIMEVERIFY_def op_CHECKSEQUENCEVERIFY_def err_bind_Inr split: if_splits
        dest!: script_num_mono [where b = "has_flag f SCRIPT_VERIFY_MINIMALDATA" and
          b' = "has_flag f' SCRIPT_VERIFY_MINIMALDATA", OF _ flag])
  show "refines (op_CHECKSIG ck f' sv op) (op_CHECKSIG ck f sv op)"
    using flag CheckSignatureEncoding_mono [OF assms] CheckPubKeyEncoding_mono [OF assms]
    by (auto simp: refines_def op_CHECKSIG_def err_bind_Inr Let_def split: if_splits list.splits)
qed

lemma multisig_loop_mono:
  assumes "subflags f f'"
  shows "multisig_loop ck f' sv c sigs keys = Inr b \<Longrightarrow> multisig_loop ck f sv c sigs keys = Inr b"
proof (induction keys arbitrary: sigs)
  case Nil
  then show ?case by (cases sigs) auto
next
  case (Cons key keys)
  show ?case
  proof (cases sigs)
    case (Cons sig sigs')
    then show ?thesis
      using Cons.prems Cons.IH [of sigs'] Cons.IH [of "sig # sigs'"]
        CheckSignatureEncoding_mono [OF assms] CheckPubKeyEncoding_mono [OF assms]
      by (auto simp: err_bind_Inr Let_def split: if_splits)
  qed (use Cons in simp)
qed

lemma multisig_cleanup_mono: "multisig_cleanup b' k n s = Inr s' \<Longrightarrow> (b \<Longrightarrow> b') \<Longrightarrow> multisig_cleanup b k n s = Inr s'"
  by (induction b' k n s rule: multisig_cleanup.induct) (auto split: if_splits)

lemma multisig_counts_mono:
  assumes "subflags f f'" "multisig_counts f' st = Inr r"
  shows "multisig_counts f st = Inr r"
proof -
  note num = script_num_mono [where b = "has_flag f SCRIPT_VERIFY_MINIMALDATA" and
      b' = "has_flag f' SCRIPT_VERIFY_MINIMALDATA", OF _ subflags_has [OF assms(1)]]
  show ?thesis
    using assms(2) by (auto simp: multisig_counts_def err_bind_Inr Let_def split: if_splits dest!: num)
qed

lemma refines_CHECKMULTISIG:
  assumes "subflags f f'"
  shows "refines (op_CHECKMULTISIG ck f' sv op) (op_CHECKMULTISIG ck f sv op)"
proof -
  have finish: "multisig_finish f op b s = Inr s'" if "multisig_finish f' op b s = Inr s'" for b s s'
    using that subflags_has [OF assms] by (auto simp: multisig_finish_def split: list.splits if_splits)
  have cleanup: "multisig_cleanup (\<not> b \<and> has_flag f F) k n s = Inr s'"
    if "multisig_cleanup (\<not> b \<and> has_flag f' F) k n s = Inr s'" for b F k n s s'
    using that by (rule multisig_cleanup_mono) (blast dest: subflags_has [OF assms])
  show ?thesis
    unfolding refines_def op_CHECKMULTISIG_Inr
    by (blast intro: finish cleanup multisig_counts_mono [OF assms] multisig_loop_mono [OF assms])
qed

lemma refines_switch:
  assumes "subflags f f'"
  shows "refines (switch_on op (switch_cases ck f' sv)) (switch_on op (switch_cases ck f sv))"
proof -
  have on: "refines (switch_on op cs') (switch_on op cs)"
    if "list_all2 (\<lambda>(l', h') (l, h). l' = l \<and> (\<forall>op. refines (h' op) (h op))) cs' cs" for cs' cs
    using that by (induction rule: list_all2_induct) (auto simp: switch_on_Cons refines_refl split: if_splits)
  show ?thesis
    by (rule on) (simp add: switch_cases_def Let_def refines_refl refines_on_stack refines_flag_ops [OF assms]
        refines_CHECKMULTISIG [OF assms] refines_number_ops [OF subflags_has [OF assms]])
qed

lemma step_mono:
  assumes "subflags f f'"
  shows "refines (EvalScript_step ck f' sv) (EvalScript_step ck f sv)"
proof -
  have "refines (EvalScript_execute ck f' sv op vch) (EvalScript_execute ck f sv op vch)" for op vch
    using refines_switch [OF assms, of op ck sv] subflags_has [OF assms]
    by (auto simp: refines_def EvalScript_execute_def split: if_splits)
  then show ?thesis
    by (auto simp: refines_def EvalScript_step_def Let_def err_bind_Inr split: prod.splits if_splits)
qed

lemma loop_mono:
  assumes "subflags f f'"
  shows "EvalScript_loop ck f' sv st = Inr st' \<Longrightarrow> EvalScript_loop ck f sv st = Inr st'"
proof (induction "length (ev_pc st)" arbitrary: st rule: less_induct)
  case less
  show ?case
  proof (cases "ev_pc st = []")
    case False
    then obtain st1 where st1: "EvalScript_step ck f' sv st = Inr st1" "EvalScript_loop ck f' sv st1 = Inr st'"
      using less.prems by (subst (asm) EvalScript_loop.simps) (auto split: sum.splits)
    moreover have "EvalScript_step ck f sv st = Inr st1"
      using step_mono [OF assms] st1(1) by (auto simp: refines_def)
    ultimately show ?thesis
      using less.hyps [OF step_pc_shorter [OF st1(1)]] False by (subst EvalScript_loop.simps) simp
  qed (use less.prems in \<open>simp add: EvalScript_loop.simps\<close>)
qed

lemma EvalScript_mono:
  assumes "subflags f f'" "EvalScript ck f' sv stack script = Inr stack'"
  shows "EvalScript ck f sv stack script = Inr stack'"
  using assms(2) loop_mono [OF assms(1)] by (auto simp: EvalScript_def err_bind_Inr split: if_splits)

subsection \<open>Scripts that cannot be spent\<close>

text \<open>
  C19: a script that \<open>IsUnspendable\<close> reports fails whatever the initial stack, the flags, the signature
  version and the checker are, so dropping its output from the set of unspent outputs is safe.
\<close>

theorem IsUnspendable_fails:
  assumes "IsUnspendable script"
  shows "\<exists>e. EvalScript ck flags sv stack script = Inl e"
proof (cases "length script > MAX_SCRIPT_SIZE")
  case True
  then show ?thesis by (simp add: EvalScript_def)
next
  case False
  with assms obtain rest where "script = OP_RETURN # rest"
    by (cases script) (auto simp: IsUnspendable_def)
  then have "\<exists>e. EvalScript_step ck flags sv (EvalScript_init stack script) = Inl e"
    by (simp add: EvalScript_step_def EvalScript_init_def GetOp2_def GetOp2_size_def EvalScript_execute_def
        fExec_def disabled_opcodes_def switch_cases_def Let_def op_RETURN_def)
  with \<open>script = OP_RETURN # rest\<close> show ?thesis
    by (auto simp: EvalScript_def EvalScript_init_def EvalScript_loop.simps)
qed

theorem IsUnspendable_fails_witness:
  "IsUnspendable [OP_RETURN, OP_1] \<and>
   (\<exists>e. EvalScript (BaseSignatureChecker (\<lambda>_. True)) 0 SIGVERSION_BASE [[1]] [OP_RETURN, OP_1] = Inl e)"
  using IsUnspendable_fails [of "[OP_RETURN, OP_1]"] by (simp add: IsUnspendable_def)

subsection \<open>Threshold signatures\<close>

text \<open>
  Without rules on encodings the loop of \<open>OP_CHECKMULTISIG\<close> decides whether the signatures can be
  matched, in order, to a subsequence of the keys.
\<close>

definition can_match :: "checker \<Rightarrow> SigVersion \<Rightarrow> CScript \<Rightarrow> bytes list \<Rightarrow> bytes list \<Rightarrow> bool" where
  "can_match ck sv c sigs keys \<longleftrightarrow>
    (\<exists>ks. subseq ks keys \<and> list_all2 (\<lambda>sig key. chk_CheckSig ck sig key c sv) sigs ks)"


lemma can_match_Nil [simp]: "can_match ck sv c [] keys"
  unfolding can_match_def by (metis list_all2_Nil list_emb_Nil)






subsection \<open>The standard key-hash script\<close>

definition key_hash_script :: "bytes \<Rightarrow> CScript" where
  "key_hash_script h = [OP_DUP, OP_HASH160] @ push_data h @ [OP_EQUALVERIFY, OP_CHECKSIG]"

lemma step_opcode:
  assumes "ev_pc st = op # pc" "OP_16 < op" "op \<notin> set disabled_opcodes" "fExec st" "ev_nOpCount st < 201"
  shows "EvalScript_step ck flags sv st =
    err_bind (switch_on op (switch_cases ck flags sv) (st\<lparr>ev_pc := pc, ev_nOpCount := ev_nOpCount st + 1\<rparr>)) (\<lambda>st.
      if length (ev_stack st) + length (ev_altstack st) > MAX_STACK_SIZE then Inl SCRIPT_ERR_STACK_SIZE else Inr st)"
proof -
  from assms(2) have "\<not> op \<le> OP_PUSHDATA4" by (simp add: word_le_nat_alt word_less_nat_alt)
  then show ?thesis
    using assms by (simp add: EvalScript_step_def GetOp2_def EvalScript_execute_def fExec_def)
qed

lemma switch_key_hash:
  "switch_on OP_DUP (switch_cases ck flags sv) = on_stack op_DUP"
  "switch_on OP_HASH160 (switch_cases ck flags sv) = on_stack (op_HASH OP_HASH160)"
  "switch_on OP_EQUALVERIFY (switch_cases ck flags sv) = on_stack (op_EQUAL OP_EQUALVERIFY)"
  "switch_on OP_CHECKSIG (switch_cases ck flags sv) = op_CHECKSIG ck flags sv OP_CHECKSIG"
  by (simp_all add: switch_cases_def Let_def switch_on_Cons)

lemma step_push:
  assumes "ev_pc st = push_data h @ pc" "length h = 20" "fExec st"
    "length (ev_stack st) + length (ev_altstack st) < 1000"
  shows "EvalScript_step ck flags sv st = Inr (st\<lparr>ev_pc := pc, ev_stack := h # ev_stack st\<rparr>)"
  using assms by (simp add: EvalScript_step_def push_data_def GetOp2_def GetOp2_size_def EvalScript_execute_def
      fExec_def CheckMinimalPush_def disabled_opcodes_def)

lemma loop_step:
  "EvalScript_step ck flags sv st = r \<Longrightarrow> ev_pc st \<noteq> [] \<Longrightarrow>
    EvalScript_loop ck flags sv st = err_bind r (EvalScript_loop ck flags sv)"
  by (subst EvalScript_loop.simps) (simp add: err_bind_def)

lemma loop_done: "ev_pc st = [] \<Longrightarrow> EvalScript_loop ck flags sv st = Inr st"
  by (subst EvalScript_loop.simps) simp

lemma key_hash_script_eval:
  assumes "length h = 20"
  shows "EvalScript ck flags sv [pubkey, sig] (key_hash_script h) =
    (if Hash160 pubkey \<noteq> h then Inl SCRIPT_ERR_EQUALVERIFY
     else err_bind (CheckSignatureEncoding (chk_CheckLowS ck) sig flags) (\<lambda>_.
       err_bind (CheckPubKeyEncoding pubkey flags sv) (\<lambda>_.
         let ok = chk_CheckSig ck sig pubkey (drop_signature sv sig (key_hash_script h)) sv in
         if \<not> ok \<and> has_flag flags SCRIPT_VERIFY_NULLFAIL \<and> sig \<noteq> [] then Inl SCRIPT_ERR_SIG_NULLFAIL
         else Inr [vchBool ok])))"
proof -
  let ?s = "key_hash_script h" and ?d = "\<lambda>op. op \<notin> set disabled_opcodes"
  let ?st = "\<lambda>pc stack n. \<lparr>ev_pc = pc, ev_codehash = ?s, ev_stack = stack, ev_altstack = [], ev_vfExec = [],
    ev_nOpCount = n\<rparr>"
  have en: "?d OP_DUP" "?d OP_HASH160" "?d OP_EQUALVERIFY" "?d OP_CHECKSIG"
    by (simp_all add: disabled_opcodes_def)
  have len: "length ?s \<le> 10000" using assms by (simp add: key_hash_script_def push_data_def)
  let ?L = "EvalScript_loop ck flags sv"
  have "EvalScript_init [pubkey, sig] ?s =
      ?st (OP_DUP # [OP_HASH160] @ push_data h @ [OP_EQUALVERIFY, OP_CHECKSIG]) [pubkey, sig] 0"
    by (simp add: EvalScript_init_def key_hash_script_def)
  also have "?L \<dots> = ?L (?st ([OP_HASH160] @ push_data h @ [OP_EQUALVERIFY, OP_CHECKSIG]) [pubkey, pubkey, sig] 1)"
    by (subst loop_step [OF step_opcode], simp) (simp_all add: fExec_def en switch_key_hash on_stack_def op_DUP_def)
  also have "\<dots> = ?L (?st (push_data h @ [OP_EQUALVERIFY, OP_CHECKSIG]) [Hash160 pubkey, pubkey, sig] 2)"
    by (subst loop_step [OF step_opcode], simp) (simp_all add: fExec_def en switch_key_hash on_stack_def op_HASH_def)
  also have "\<dots> = ?L (?st [OP_EQUALVERIFY, OP_CHECKSIG] [h, Hash160 pubkey, pubkey, sig] 2)"
    by (subst loop_step [OF step_push], simp) (use assms in \<open>simp_all add: fExec_def push_data_def\<close>)
  also have "\<dots> = (if Hash160 pubkey \<noteq> h then Inl SCRIPT_ERR_EQUALVERIFY else ?L (?st [OP_CHECKSIG] [pubkey, sig] 3))"
    by (subst loop_step [OF step_opcode], simp) (simp_all add: fExec_def en switch_key_hash on_stack_def op_EQUAL_def)
  also have "?L (?st [OP_CHECKSIG] [pubkey, sig] 3) = err_bind (op_CHECKSIG ck flags sv OP_CHECKSIG (?st [] [pubkey, sig] 4)) Inr"
    by (subst loop_step [OF step_opcode], simp)
      (auto simp: fExec_def en switch_key_hash op_CHECKSIG_def err_bind_def Let_def loop_done split: sum.splits)
  finally show ?thesis
    using len by (auto simp: EvalScript_def op_CHECKSIG_def err_bind_def Let_def split: sum.splits)
qed

text \<open>
  C17: on a public key and a signature, the key-hash script fails with \<open>SCRIPT_ERR_EQUALVERIFY\<close> when the
  key does not hash to \<open>h\<close>; otherwise it does the encoding checks and leaves on the stack exactly the
  outcome of checking the signature over the script itself, from which a legacy script drops the signature.
\<close>

theorem key_hash_script_correct:
  assumes "length h = 20"
  shows "EvalScript ck flags sv [pubkey, sig] (key_hash_script h) =
    (if Hash160 pubkey \<noteq> h then Inl SCRIPT_ERR_EQUALVERIFY
     else err_bind (CheckSignatureEncoding (chk_CheckLowS ck) sig flags) (\<lambda>_.
       err_bind (CheckPubKeyEncoding pubkey flags sv) (\<lambda>_.
         let ok = chk_CheckSig ck sig pubkey (drop_signature sv sig (key_hash_script h)) sv in
         if \<not> ok \<and> has_flag flags SCRIPT_VERIFY_NULLFAIL \<and> sig \<noteq> [] then Inl SCRIPT_ERR_SIG_NULLFAIL
         else Inr [vchBool ok])))"
  using assms by (rule key_hash_script_eval)

theorem key_hash_script_correct_witness:
  "length (Hash160 [2]) = 20 \<and>
   EvalScript (BaseSignatureChecker (\<lambda>_. True)) 0 SIGVERSION_BASE [[2], []] (key_hash_script (Hash160 [2])) = Inr [[]]"
  using key_hash_script_correct [of "Hash160 [2]" "BaseSignatureChecker (\<lambda>_. True)" 0 SIGVERSION_BASE "[2]" "[]"]
  by (simp add: CheckSignatureEncoding_def CheckPubKeyEncoding_def has_flag_def BaseSignatureChecker_def vchBool_def
      vchFalse_def)

end
