(* ===== verification/SC_SigHash.thy ===== *)
theory SC_SigHash
  imports SC_EvalOps
begin

text \<open>
  Signature hashes and the signature checker of a transaction (\<^verbatim>\<open>script/interpreter.cpp\<close>,
  \<^verbatim>\<open>script/interpreter.h\<close>, and the validity test of \<^verbatim>\<open>pubkey.h\<close>). The verification of an ECDSA
  signature, \<open>CPubKey::Verify\<close>, and \<open>CPubKey::CheckLowS\<close> are arguments of the checker.
\<close>

subsection \<open>The in-place serializer\<close>

function count_separators :: "CScript \<Rightarrow> nat" where
  "count_separators it =
    (case GetOp2 it of
       (True, opcode, _, it') \<Rightarrow> (if opcode = OP_CODESEPARATOR then 1 else 0) + count_separators it'
     | (False, _) \<Rightarrow> 0)"
  by pat_completeness auto
termination
  by (relation "measure length") (auto dest: GetOp2_rest_shorter)

declare count_separators.simps [simp del]

text \<open>The second loop: \<open>itBegin\<close> is where the pending piece starts, each piece one call of \<open>write\<close>.\<close>

function write_pieces :: "CScript \<Rightarrow> CScript \<Rightarrow> bytes list" where
  "write_pieces itBegin it =
    (case GetOp2 it of
       (True, opcode, _, it') \<Rightarrow>
         if opcode = OP_CODESEPARATOR
         then take (length itBegin - length it' - 1) itBegin # write_pieces it' it'
         else write_pieces itBegin it'
     | (False, _, _, it') \<Rightarrow> if itBegin \<noteq> [] then [take (length itBegin - length it') itBegin] else [])"
  by pat_completeness auto
termination
  by (relation "measure (length \<circ> snd)") (auto dest: GetOp2_rest_shorter)

declare write_pieces.simps [simp del]

definition SerializeScriptCode :: "CScript \<Rightarrow> bytes" where
  "SerializeScriptCode scriptCode =
    WriteCompactSize (of_nat (length scriptCode - count_separators scriptCode)) @
    concat (write_pieces scriptCode scriptCode)"

definition fAnyoneCanPay :: "int \<Rightarrow> bool" where
  "fAnyoneCanPay nHashType \<longleftrightarrow> nHashType AND SIGHASH_ANYONECANPAY \<noteq> 0"

definition fHashSingle :: "int \<Rightarrow> bool" where
  "fHashSingle nHashType \<longleftrightarrow> nHashType AND 0x1f = SIGHASH_SINGLE"

definition fHashNone :: "int \<Rightarrow> bool" where
  "fHashNone nHashType \<longleftrightarrow> nHashType AND 0x1f = SIGHASH_NONE"

definition SerializeInput :: "('a) CMutableTransaction_scheme \<Rightarrow> CScript \<Rightarrow> nat \<Rightarrow> int \<Rightarrow> nat \<Rightarrow> bytes" where
  "SerializeInput txTo scriptCode nIn nHashType nInput0 =
    (let nInput = (if fAnyoneCanPay nHashType then nIn else nInput0);
         txin = vin txTo ! nInput in
     Serialize_COutPoint (prevout txin) @
     (if nInput \<noteq> nIn then Serialize_bytes [] else SerializeScriptCode scriptCode) @
     (if nInput \<noteq> nIn \<and> (fHashSingle nHashType \<or> fHashNone nHashType) then ser_int32 0
      else ser_writedata32 (nSequence txin)))"

definition SerializeOutput :: "('a) CMutableTransaction_scheme \<Rightarrow> nat \<Rightarrow> int \<Rightarrow> nat \<Rightarrow> bytes" where
  "SerializeOutput txTo nIn nHashType nOutput =
    (if fHashSingle nHashType \<and> nOutput \<noteq> nIn then Serialize_CTxOut CTxOut_null
     else Serialize_CTxOut (vout txTo ! nOutput))"

definition SerializeForSignature :: "('a) CMutableTransaction_scheme \<Rightarrow> CScript \<Rightarrow> nat \<Rightarrow> int \<Rightarrow> bytes" where
  "SerializeForSignature txTo scriptCode nIn nHashType =
    (let nInputs = (if fAnyoneCanPay nHashType then 1 else length (vin txTo));
         nOutputs = (if fHashNone nHashType then 0
                     else if fHashSingle nHashType then nIn + 1 else length (vout txTo)) in
     ser_int32 (nVersion txTo) @
     WriteCompactSize (of_nat nInputs) @
     concat (map (SerializeInput txTo scriptCode nIn nHashType) [0..<nInputs]) @
     WriteCompactSize (of_nat nOutputs) @
     concat (map (SerializeOutput txTo nIn nHashType) [0..<nOutputs]) @
     ser_writedata32 (nLockTime txTo))"

subsection \<open>The hash\<close>

definition GetPrevoutHash :: "('a) CMutableTransaction_scheme \<Rightarrow> uint256" where
  "GetPrevoutHash txTo = SerializeHash (map (Serialize_COutPoint \<circ> prevout) (vin txTo))"

definition GetSequenceHash :: "('a) CMutableTransaction_scheme \<Rightarrow> uint256" where
  "GetSequenceHash txTo = SerializeHash (map (ser_writedata32 \<circ> nSequence) (vin txTo))"

definition GetOutputsHash :: "('a) CMutableTransaction_scheme \<Rightarrow> uint256" where
  "GetOutputsHash txTo = SerializeHash (map Serialize_CTxOut (vout txTo))"

record PrecomputedTransactionData =
  hashPrevouts :: uint256
  hashSequence :: uint256
  hashOutputs :: uint256
  ready :: bool

definition PrecomputedTransactionData_of :: "('a) CMutableTransaction_scheme \<Rightarrow> PrecomputedTransactionData" where
  "PrecomputedTransactionData_of txTo =
    (if HasWitness txTo
     then \<lparr>hashPrevouts = GetPrevoutHash txTo, hashSequence = GetSequenceHash txTo,
           hashOutputs = GetOutputsHash txTo, ready = True\<rparr>
     else \<lparr>hashPrevouts = uint256_null, hashSequence = uint256_null, hashOutputs = uint256_null, ready = False\<rparr>)"

definition uint256_one :: uint256 where
  "uint256_one = 1 # replicate 31 0"

definition cached ::
  "PrecomputedTransactionData option \<Rightarrow> (PrecomputedTransactionData \<Rightarrow> uint256) \<Rightarrow> uint256 \<Rightarrow> uint256" where
  "cached cache field computed =
    (case cache of Some c \<Rightarrow> if ready c then field c else computed | None \<Rightarrow> computed)"

definition SignatureHash_witness ::
  "CScript \<Rightarrow> ('a) CMutableTransaction_scheme \<Rightarrow> nat \<Rightarrow> int \<Rightarrow> CAmount \<Rightarrow> PrecomputedTransactionData option \<Rightarrow> uint256" where
  "SignatureHash_witness scriptCode txTo nIn nHashType amount cache =
    (let hashP = (if \<not> fAnyoneCanPay nHashType then cached cache hashPrevouts (GetPrevoutHash txTo)
                  else uint256_null);
         hashS = (if \<not> fAnyoneCanPay nHashType \<and> \<not> fHashSingle nHashType \<and> \<not> fHashNone nHashType
                  then cached cache hashSequence (GetSequenceHash txTo) else uint256_null);
         hashO = (if \<not> fHashSingle nHashType \<and> \<not> fHashNone nHashType
                  then cached cache hashOutputs (GetOutputsHash txTo)
                  else if fHashSingle nHashType \<and> nIn < length (vout txTo)
                  then SerializeHash [Serialize_CTxOut (vout txTo ! nIn)] else uint256_null) in
     SerializeHash
       [ser_int32 (nVersion txTo), hashP, hashS, Serialize_COutPoint (prevout (vin txTo ! nIn)),
        Serialize_bytes scriptCode, ser_int64 amount, ser_writedata32 (nSequence (vin txTo ! nIn)), hashO,
        ser_writedata32 (nLockTime txTo), ser_int32 nHashType])"

text \<open>\<open>None\<close> is the failed assertion that \<open>nIn\<close> is the index of an input.\<close>

definition SignatureHash ::
  "CScript \<Rightarrow> ('a) CMutableTransaction_scheme \<Rightarrow> nat \<Rightarrow> int \<Rightarrow> CAmount \<Rightarrow> SigVersion \<Rightarrow>
    PrecomputedTransactionData option \<Rightarrow> uint256 option" where
  "SignatureHash scriptCode txTo nIn nHashType amount sigversion cache =
    (if \<not> nIn < length (vin txTo) then None
     else if sigversion = SIGVERSION_WITNESS_V0
     then Some (SignatureHash_witness scriptCode txTo nIn nHashType amount cache)
     else if fHashSingle nHashType \<and> nIn \<ge> length (vout txTo) then Some uint256_one
     else Some (SerializeHash [SerializeForSignature txTo scriptCode nIn nHashType, ser_int32 nHashType]))"

subsection \<open>The checker of a transaction input\<close>

definition CPubKey_GetLen :: "byte \<Rightarrow> nat" where
  "CPubKey_GetLen chHeader =
    (if chHeader = 2 \<or> chHeader = 3 then 33
     else if chHeader = 4 \<or> chHeader = 6 \<or> chHeader = 7 then 65
     else 0)"

definition CPubKey_IsValid :: "bytes \<Rightarrow> bool" where
  "CPubKey_IsValid vch =
    (let len = (if vch = [] then 0 else CPubKey_GetLen (vch ! 0)) in len \<noteq> 0 \<and> len = length vch)"

text \<open>
  The assertion of \<open>SignatureHash\<close> holds in every checker the program builds, since \<open>nIn\<close> is then the
  index of an input; where it would fail the model answers \<open>False\<close>.
\<close>

definition TransactionSignatureChecker_CheckSig ::
  "(bytes \<Rightarrow> uint256 \<Rightarrow> bytes \<Rightarrow> bool) \<Rightarrow> ('a) CMutableTransaction_scheme \<Rightarrow> nat \<Rightarrow> CAmount \<Rightarrow>
    PrecomputedTransactionData option \<Rightarrow> bytes \<Rightarrow> bytes \<Rightarrow> CScript \<Rightarrow> SigVersion \<Rightarrow> bool" where
  "TransactionSignatureChecker_CheckSig Verify txTo nIn amount txdata vchSigIn vchPubKey scriptCode sigversion =
    (if \<not> CPubKey_IsValid vchPubKey then False
     else if vchSigIn = [] then False
     else case SignatureHash scriptCode txTo nIn (uint (last vchSigIn)) amount sigversion txdata of
         None \<Rightarrow> False
       | Some sighash \<Rightarrow> Verify vchPubKey sighash (butlast vchSigIn))"

definition TransactionSignatureChecker_CheckLockTime ::
  "('a) CMutableTransaction_scheme \<Rightarrow> nat \<Rightarrow> int \<Rightarrow> bool" where
  "TransactionSignatureChecker_CheckLockTime txTo nIn nLockTime0 =
    (if \<not> ((uint (nLockTime txTo) < LOCKTIME_THRESHOLD \<and> nLockTime0 < LOCKTIME_THRESHOLD) \<or>
            (uint (nLockTime txTo) \<ge> LOCKTIME_THRESHOLD \<and> nLockTime0 \<ge> LOCKTIME_THRESHOLD)) then False
     else if nLockTime0 > uint (nLockTime txTo) then False
     else if SEQUENCE_FINAL = nSequence (vin txTo ! nIn) then False
     else True)"

definition TransactionSignatureChecker_CheckSequence ::
  "('a) CMutableTransaction_scheme \<Rightarrow> nat \<Rightarrow> int \<Rightarrow> bool" where
  "TransactionSignatureChecker_CheckSequence txTo nIn nSequence0 =
    (let txToSequence = uint (nSequence (vin txTo ! nIn)) in
     if (word_of_int (nVersion txTo) :: u32) < 2 then False
     else if txToSequence AND uint SEQUENCE_LOCKTIME_DISABLE_FLAG \<noteq> 0 then False
     else let nLockTimeMask = uint (SEQUENCE_LOCKTIME_TYPE_FLAG OR SEQUENCE_LOCKTIME_MASK);
              typeFlag = uint SEQUENCE_LOCKTIME_TYPE_FLAG;
              txToSequenceMasked = txToSequence AND nLockTimeMask;
              nSequenceMasked = nSequence0 AND nLockTimeMask in
       if \<not> ((txToSequenceMasked < typeFlag \<and> nSequenceMasked < typeFlag) \<or>
              (txToSequenceMasked \<ge> typeFlag \<and> nSequenceMasked \<ge> typeFlag)) then False
       else if nSequenceMasked > txToSequenceMasked then False
       else True)"

definition TransactionSignatureChecker ::
  "(bytes \<Rightarrow> uint256 \<Rightarrow> bytes \<Rightarrow> bool) \<Rightarrow> (bytes \<Rightarrow> bool) \<Rightarrow> ('a) CMutableTransaction_scheme \<Rightarrow> nat \<Rightarrow> CAmount \<Rightarrow>
    PrecomputedTransactionData option \<Rightarrow> checker" where
  "TransactionSignatureChecker Verify CheckLowS txTo nIn amount txdata =
    \<lparr>chk_CheckSig = TransactionSignatureChecker_CheckSig Verify txTo nIn amount txdata,
     chk_CheckLockTime = TransactionSignatureChecker_CheckLockTime txTo nIn,
     chk_CheckSequence = TransactionSignatureChecker_CheckSequence txTo nIn,
     chk_CheckLowS = CheckLowS\<rparr>"

subsection \<open>The script code without its separators\<close>

function parses :: "CScript \<Rightarrow> bool" where
  "parses s = (case GetOp2 s of (True, _, _, s') \<Rightarrow> parses s' | (False, _) \<Rightarrow> s = [])"
  by pat_completeness auto
termination
  by (relation "measure length") (auto dest: GetOp2_rest_shorter)

declare parses.simps [simp del]

function remove_separators :: "CScript \<Rightarrow> CScript" where
  "remove_separators s =
    (case GetOp2 s of
       (True, opcode, _, s') \<Rightarrow>
         (if opcode = OP_CODESEPARATOR then [] else take (length s - length s') s) @ remove_separators s'
     | (False, _) \<Rightarrow> [])"
  by pat_completeness auto
termination
  by (relation "measure length") (auto dest: GetOp2_rest_shorter)

declare remove_separators.simps [simp del]

lemma GetOp2_separator: "GetOp2 s = (True, OP_CODESEPARATOR, vch, s') \<Longrightarrow> s = OP_CODESEPARATOR # s'"
  by (auto simp: GetOp2_def split: list.splits if_splits option.splits prod.splits)

lemma script_induct [consumes 1, case_names Nil Op]:
  assumes "parses s" "P []"
    and "\<And>s op vch s'. GetOp2 s = (True, op, vch, s') \<Longrightarrow> parses s' \<Longrightarrow> P s' \<Longrightarrow> P s"
  shows "P s"
  using assms(1)
proof (induction s rule: measure_induct_rule [of length])
  case (less s)
  obtain ok op vch s' where op: "GetOp2 s = (ok, op, vch, s')" by (metis prod_cases4)
  show ?case
  proof (cases ok)
    case True
    with op have op': "GetOp2 s = (True, op, vch, s')" by simp
    with less.prems have "parses s'" by (simp add: parses.simps [of s])
    then show ?thesis using less.IH [OF GetOp2_True_length [OF op']] assms(3) [OF op'] by blast
  next
    case False
    with less.prems op have "s = []" by (simp add: parses.simps [of s])
    then show ?thesis by (simp add: assms(2))
  qed
qed

lemma write_pieces_eq:
  "parses s \<Longrightarrow> concat (write_pieces (p @ s) s) = p @ remove_separators s"
proof (induction s arbitrary: p rule: script_induct)
  case Nil
  then show ?case by (simp add: write_pieces.simps remove_separators.simps)
next
  case (Op s op vch s')
  have s: "s = take (length s - length s') s @ s'"
    using GetOp2_suffix [OF Op(1)] by (auto simp: suffix_def)
  show ?case
  proof (cases "op = OP_CODESEPARATOR")
    case True
    then have "length s = Suc (length s')" using Op(1) GetOp2_separator [of s vch s'] by simp
    then show ?thesis
      using True Op(1) Op.IH [of "[]"] by (simp add: write_pieces.simps [of _ s] remove_separators.simps [of s])
  next
    case False
    have "concat (write_pieces (p @ s) s) = concat (write_pieces ((p @ take (length s - length s') s) @ s') s')"
      using False Op(1) s by (simp add: write_pieces.simps [of _ s])
    then show ?thesis
      using False Op(1) Op.IH [of "p @ take (length s - length s') s"] by (simp add: remove_separators.simps [of s])
  qed
qed

lemma length_remove_separators:
  "parses s \<Longrightarrow> length (remove_separators s) + count_separators s = length s"
proof (induction s rule: script_induct)
  case Nil
  then show ?case by (simp add: count_separators.simps remove_separators.simps)
next
  case (Op s op vch s')
  have "suffix s' s" using GetOp2_suffix [OF Op(1)] .
  then have le: "length s' \<le> length s" by (rule suffix_length_le)
  show ?case
  proof (cases "op = OP_CODESEPARATOR")
    case True
    then have "length s = Suc (length s')" using Op(1) GetOp2_separator [of s vch s'] by simp
    then show ?thesis
      using True Op(1,3) by (simp add: count_separators.simps [of s] remove_separators.simps [of s])
  qed (use Op(1,3) le in \<open>simp add: count_separators.simps [of s] remove_separators.simps [of s]\<close>)
qed

lemma SerializeScriptCode_eq:
  assumes "parses s"
  shows "SerializeScriptCode s = Serialize_bytes (remove_separators s)"
proof -
  have "length s - count_separators s = length (remove_separators s)"
    using length_remove_separators [OF assms] by simp
  then show ?thesis
    using write_pieces_eq [OF assms, of "[]"] by (simp add: SerializeScriptCode_def Serialize_bytes_def)
qed

subsection \<open>Signing a modified copy\<close>

text \<open>
  The definition that the serializer replaces: copy the transaction, put the script code into the signed
  input and blank the other scripts, drop or blank the outputs the hash type leaves open, keep only the
  signed input for \<open>SIGHASH_ANYONECANPAY\<close>, and serialize the copy.
\<close>

definition signature_copy :: "CMutableTransaction \<Rightarrow> CScript \<Rightarrow> nat \<Rightarrow> int \<Rightarrow> CMutableTransaction" where
  "signature_copy tx code nIn nHashType =
    (let loose = fHashSingle nHashType \<or> fHashNone nHashType;
         blank = (\<lambda>i. (vin tx ! i)\<lparr>scriptSig := if i = nIn then code else [],
                                   nSequence := if i \<noteq> nIn \<and> loose then 0 else nSequence (vin tx ! i)\<rparr>);
         ins = map blank [0..<length (vin tx)];
         outs = (if fHashNone nHashType then []
                 else if fHashSingle nHashType then replicate nIn CTxOut_null @ [vout tx ! nIn]
                 else vout tx) in
     tx\<lparr>vin := if fAnyoneCanPay nHashType then [ins ! nIn] else ins, vout := outs\<rparr>)"

lemma SerializeForSignature_copy:
  assumes "parses scriptCode" "nIn < length (vin tx)"
  shows "SerializeForSignature tx scriptCode nIn nHashType =
    SerializeTransaction False (signature_copy tx (remove_separators scriptCode) nIn nHashType)"
proof -
  let ?tx = "signature_copy tx (remove_separators scriptCode) nIn nHashType"
  have zero: "ser_int32 0 = ser_writedata32 0" by (simp add: ser_int32_def)
  have ins: "map (SerializeInput tx scriptCode nIn nHashType)
      [0..<if fAnyoneCanPay nHashType then 1 else length (vin tx)] = map Serialize_CTxIn (vin ?tx)"
    using assms by (simp add: signature_copy_def SerializeInput_def Serialize_CTxIn_def Let_def
        SerializeScriptCode_eq zero)
  have outs: "map (SerializeOutput tx nIn nHashType) [0..<if fHashNone nHashType then 0
      else if fHashSingle nHashType then nIn + 1 else length (vout tx)] = map Serialize_CTxOut (vout ?tx)"
    by (auto simp: signature_copy_def SerializeOutput_def Let_def map_replicate_const intro!: nth_equalityI)
  have lens: "length (vin ?tx) = (if fAnyoneCanPay nHashType then 1 else length (vin tx))"
    "length (vout ?tx) = (if fHashNone nHashType then 0 else if fHashSingle nHashType then nIn + 1 else length (vout tx))"
    by (simp_all add: signature_copy_def Let_def)
  have rest: "nVersion ?tx = nVersion tx" "nLockTime ?tx = nLockTime tx"
    by (simp_all add: signature_copy_def Let_def)
  show ?thesis
    unfolding SerializeForSignature_def SerializeTransaction_def Let_def Serialize_vector_def
      ins [symmetric] outs [symmetric] lens rest by simp
qed

text \<open>
  C20: for scripts that parse, the hash a legacy signature signs is the double SHA-256 of the modified copy
  of the transaction followed by the hash type, for every combination of hash type flags; only
  \<open>SIGHASH_SINGLE\<close> without a matching output signs the number one instead.
\<close>

theorem SignatureHash_legacy:
  assumes "parses scriptCode" "nIn < length (vin tx)"
  shows "SignatureHash scriptCode tx nIn nHashType amount SIGVERSION_BASE cache =
    Some (if fHashSingle nHashType \<and> length (vout tx) \<le> nIn then uint256_one
      else Hash (SerializeTransaction False (signature_copy tx (remove_separators scriptCode) nIn nHashType) @
        ser_int32 nHashType))"
  using assms by (simp add: SignatureHash_def SerializeHash_eq SerializeForSignature_copy)

theorem SignatureHash_legacy_witness:
  "parses [OP_CODESEPARATOR, OP_CHECKSIG] \<and> 0 < length (vin example_tx) \<and>
   SignatureHash [OP_CODESEPARATOR, OP_CHECKSIG] example_tx 0 SIGHASH_ALL 5 SIGVERSION_BASE None =
     Some (Hash (SerializeTransaction False (signature_copy example_tx [OP_CHECKSIG] 0 SIGHASH_ALL) @
       ser_int32 SIGHASH_ALL))"
proof -
  have p: "parses [OP_CODESEPARATOR, OP_CHECKSIG]" "remove_separators [OP_CODESEPARATOR, OP_CHECKSIG] = [OP_CHECKSIG]"
    by (simp_all add: parses.simps remove_separators.simps GetOp2_def)
  have n: "0 < length (vin example_tx)" by (simp add: example_tx_def)
  have "\<not> fHashSingle SIGHASH_ALL" by (simp add: fHashSingle_def)
  with SignatureHash_legacy [OF p(1) n, of SIGHASH_ALL 5 None] p n show ?thesis by simp
qed

text \<open>
  The cached hashes of \<open>PrecomputedTransactionData\<close> never change a signature hash: with the data
  computed from the same transaction, or with none, \<open>SignatureHash\<close> returns the same value.
\<close>

theorem SignatureHash_cache:
  "SignatureHash scriptCode tx nIn nHashType amount sigversion (Some (PrecomputedTransactionData_of tx)) =
   SignatureHash scriptCode tx nIn nHashType amount sigversion None"
  by (simp add: SignatureHash_def SignatureHash_witness_def PrecomputedTransactionData_of_def cached_def)

end
