(* ===== verification/SC_VerifyScript.thy ===== *)
theory SC_VerifyScript
  imports SC_EvalFacts SC_SigHash
begin

text \<open>
  Verification of an input (\<open>VerifyScript\<close>, \<open>VerifyWitnessProgram\<close>) and the count of witness signature
  operations (\<^verbatim>\<open>script/interpreter.cpp\<close>). A failed \<open>assert\<close> is a value of its own, so that the
  theorems can show that it does not happen. The witness is in wire order, its last element on top.
\<close>

subsection \<open>Definitions\<close>

datatype verify_failure = ScriptFails ScriptError | AssertFails

type_synonym 'a verify = "verify_failure + 'a"

definition lift_eval :: "ScriptError + 'a \<Rightarrow> 'a verify" where
  "lift_eval r = (case r of Inl e \<Rightarrow> Inl (ScriptFails e) | Inr x \<Rightarrow> Inr x)"

definition witness_program_script :: "u32 \<Rightarrow> CScriptWitness \<Rightarrow> int \<Rightarrow> bytes \<Rightarrow> ScriptError + (stack \<times> CScript) option" where
  "witness_program_script flags witness witversion program =
    (if witversion = 0 then
       if length program = 32 then
         if length witness = 0 then Inl SCRIPT_ERR_WITNESS_PROGRAM_WITNESS_EMPTY
         else let pubKeyScript = last witness; stack = rev (butlast witness) in
           if sha256 pubKeyScript \<noteq> program then Inl SCRIPT_ERR_WITNESS_PROGRAM_MISMATCH
           else Inr (Some (stack, pubKeyScript))
       else if length program = 20 then
         if length witness \<noteq> 2 then Inl SCRIPT_ERR_WITNESS_PROGRAM_MISMATCH
         else Inr (Some (rev witness, push_opcode OP_DUP @ push_opcode OP_HASH160 @ push_data program @
                                      push_opcode OP_EQUALVERIFY @ push_opcode OP_CHECKSIG))
       else Inl SCRIPT_ERR_WITNESS_PROGRAM_WRONG_LENGTH
     else if has_flag flags SCRIPT_VERIFY_DISCOURAGE_UPGRADABLE_WITNESS_PROGRAM
     then Inl SCRIPT_ERR_DISCOURAGE_UPGRADABLE_WITNESS_PROGRAM
     else Inr None)"

definition VerifyWitnessProgram ::
  "checker \<Rightarrow> u32 \<Rightarrow> CScriptWitness \<Rightarrow> int \<Rightarrow> bytes \<Rightarrow> ScriptError + unit" where
  "VerifyWitnessProgram ck flags witness witversion program =
    err_bind (witness_program_script flags witness witversion program) (\<lambda>r.
      case r of
        None \<Rightarrow> Inr ()
      | Some (stack, pubKeyScript) \<Rightarrow>
          if list_ex (\<lambda>x. length x > MAX_SCRIPT_ELEMENT_SIZE) stack then Inl SCRIPT_ERR_PUSH_SIZE
          else err_bind (EvalScript ck flags SIGVERSION_WITNESS_V0 stack pubKeyScript) (\<lambda>stack.
            if length stack \<noteq> 1 then Inl SCRIPT_ERR_EVAL_FALSE
            else if \<not> CastToBool (stack ! 0) then Inl SCRIPT_ERR_EVAL_FALSE
            else Inr ()))"

text \<open>The witness part of both kinds of output: \<open>expected\<close> is the only scriptSig that is not malleable.\<close>

definition verify_witness ::
  "checker \<Rightarrow> u32 \<Rightarrow> CScript \<Rightarrow> CScript \<Rightarrow> ScriptError \<Rightarrow> CScriptWitness \<Rightarrow> CScript \<Rightarrow> stack \<times> bool \<Rightarrow>
    ScriptError + stack \<times> bool" where
  "verify_witness ck flags sigScript expected malleated witness script = (\<lambda>(stack, hadWitness).
    (if has_flag flags SCRIPT_VERIFY_WITNESS
     then case IsWitnessProgram script of
         Some (witnessversion, witnessprogram) \<Rightarrow>
           if sigScript \<noteq> expected then Inl malleated
           else err_bind (VerifyWitnessProgram ck flags witness witnessversion witnessprogram) (\<lambda>_.
             Inr ([last stack], True))
       | None \<Rightarrow> Inr (stack, hadWitness)
     else Inr (stack, hadWitness)))"

definition verify_P2SH ::
  "checker \<Rightarrow> u32 \<Rightarrow> CScript \<Rightarrow> CScript \<Rightarrow> CScriptWitness \<Rightarrow> stack \<Rightarrow> stack \<times> bool \<Rightarrow> (stack \<times> bool) verify" where
  "verify_P2SH ck flags sigScript pubKeyScript witness stackCopy = (\<lambda>(stack, hadWitness).
    (if has_flag flags SCRIPT_VERIFY_P2SH \<and> IsPayToScriptHash pubKeyScript
     then if \<not> IsPushOnly sigScript then Inl (ScriptFails SCRIPT_ERR_SIG_PUSHONLY)
       else case stackCopy of
           [] \<Rightarrow> Inl AssertFails
         | pubKey2 # stack \<Rightarrow>
             lift_eval (err_bind (EvalScript ck flags SIGVERSION_BASE stack pubKey2) (\<lambda>stack.
               if stack = [] then Inl SCRIPT_ERR_EVAL_FALSE
               else if \<not> CastToBool (stack ! 0) then Inl SCRIPT_ERR_EVAL_FALSE
               else verify_witness ck flags sigScript (push_data pubKey2) SCRIPT_ERR_WITNESS_MALLEATED_P2SH
                      witness pubKey2 (stack, hadWitness)))
     else Inr (stack, hadWitness)))"

definition verify_final :: "u32 \<Rightarrow> CScriptWitness \<Rightarrow> stack \<times> bool \<Rightarrow> unit verify" where
  "verify_final flags witness = (\<lambda>(stack, hadWitness).
    (if has_flag flags SCRIPT_VERIFY_CLEANSTACK \<and>
        \<not> (has_flag flags SCRIPT_VERIFY_P2SH \<and> has_flag flags SCRIPT_VERIFY_WITNESS) then Inl AssertFails
     else if has_flag flags SCRIPT_VERIFY_CLEANSTACK \<and> length stack \<noteq> 1
     then Inl (ScriptFails SCRIPT_ERR_CLEANSTACK)
     else if has_flag flags SCRIPT_VERIFY_WITNESS then
       if \<not> has_flag flags SCRIPT_VERIFY_P2SH then Inl AssertFails
       else if \<not> hadWitness \<and> \<not> CScriptWitness_IsNull witness
       then Inl (ScriptFails SCRIPT_ERR_WITNESS_UNEXPECTED)
       else Inr ()
     else Inr ()))"

definition VerifyScript :: "checker \<Rightarrow> u32 \<Rightarrow> CScript \<Rightarrow> CScript \<Rightarrow> CScriptWitness \<Rightarrow> unit verify" where
  "VerifyScript ck flags sigScript pubKeyScript witness =
    (if has_flag flags SCRIPT_VERIFY_SIGPUSHONLY \<and> \<not> IsPushOnly sigScript
     then Inl (ScriptFails SCRIPT_ERR_SIG_PUSHONLY)
     else err_bind (lift_eval (EvalScript ck flags SIGVERSION_BASE [] sigScript)) (\<lambda>stackCopy.
       err_bind (lift_eval (EvalScript ck flags SIGVERSION_BASE stackCopy pubKeyScript)) (\<lambda>stack.
         if stack = [] then Inl (ScriptFails SCRIPT_ERR_EVAL_FALSE)
         else if \<not> CastToBool (stack ! 0) then Inl (ScriptFails SCRIPT_ERR_EVAL_FALSE)
         else err_bind (lift_eval (verify_witness ck flags sigScript [] SCRIPT_ERR_WITNESS_MALLEATED witness
                                     pubKeyScript (stack, False)))
           (\<lambda>r. err_bind (verify_P2SH ck flags sigScript pubKeyScript witness stackCopy r)
             (verify_final flags witness)))))"

subsection \<open>Counting signature operations\<close>

definition WitnessSigOps :: "int \<Rightarrow> bytes \<Rightarrow> CScriptWitness \<Rightarrow> nat" where
  "WitnessSigOps witversion witprogram witness =
    (if witversion = 0 then
       if length witprogram = 20 then 1
       else if length witprogram = 32 \<and> length witness > 0 then GetSigOpCount True (last witness)
       else 0
     else 0)"

function last_data :: "bytes \<Rightarrow> CScript \<Rightarrow> bytes" where
  "last_data data pc =
    (if pc = [] then data else let (_, _, data', pc') = GetOp2 pc in last_data data' pc')"
  by pat_completeness auto
termination
  by (relation "measure (length \<circ> snd)") (auto dest!: GetOp2_length [OF sym])

declare last_data.simps [simp del]

text \<open>\<open>None\<close> is the failed assertion that the witness flag comes with the script-hash flag.\<close>

definition CountWitnessSigOps :: "CScript \<Rightarrow> CScript \<Rightarrow> CScriptWitness \<Rightarrow> u32 \<Rightarrow> nat option" where
  "CountWitnessSigOps sigScript pubKeyScript witness flags =
    (if \<not> has_flag flags SCRIPT_VERIFY_WITNESS then Some 0
     else if \<not> has_flag flags SCRIPT_VERIFY_P2SH then None
     else case IsWitnessProgram pubKeyScript of
         Some (v, program) \<Rightarrow> Some (WitnessSigOps v program witness)
       | None \<Rightarrow>
           if IsPayToScriptHash pubKeyScript \<and> IsPushOnly sigScript
           then case IsWitnessProgram (last_data [] sigScript) of
               Some (v, program) \<Rightarrow> Some (WitnessSigOps v program witness)
             | None \<Rightarrow> Some 0
           else Some 0)"

subsection \<open>Coherent flags\<close>

definition coherent_flags :: "u32 \<Rightarrow> bool" where
  "coherent_flags flags \<longleftrightarrow>
    (has_flag flags SCRIPT_VERIFY_CLEANSTACK \<longrightarrow> has_flag flags SCRIPT_VERIFY_WITNESS) \<and>
    (has_flag flags SCRIPT_VERIFY_WITNESS \<longrightarrow> has_flag flags SCRIPT_VERIFY_P2SH)"

lemma lift_eval_simps [simp]:
  "lift_eval r = Inr x \<longleftrightarrow> r = Inr x" "lift_eval r \<noteq> Inl AssertFails"
  by (cases r; simp add: lift_eval_def)+

lemma err_bind_lift_assert: "err_bind (lift_eval r) f = Inl AssertFails \<longleftrightarrow> (\<exists>x. r = Inr x \<and> f x = Inl AssertFails)"
  by (cases r) (simp_all add: lift_eval_def)

lemma P2SH_empty_stack:
  assumes "IsPayToScriptHash script"
  shows "\<exists>e. EvalScript ck flags sv [] script = Inl e"
proof -
  obtain h where s: "script = OP_HASH160 # 0x14 # h @ [OP_EQUAL]" "length h = 20"
    using assms by (auto simp: IsPayToScriptHash_form)
  have "EvalScript_step ck flags sv (EvalScript_init [] script) = stack_err"
    by (subst step_opcode [where op = OP_HASH160 and pc = "0x14 # h @ [OP_EQUAL]"]) (simp_all add: s EvalScript_init_def fExec_def disabled_opcodes_def switch_key_hash
        on_stack_def op_HASH_def)
  then show ?thesis
    by (simp add: EvalScript_def EvalScript_loop.simps) (simp add: s EvalScript_init_def)
qed

lemma verify_P2SH_no_assert:
  assumes "EvalScript ck flags sv stackCopy script = Inr stack"
  shows "verify_P2SH ck flags sigScript script witness stackCopy r \<noteq> Inl AssertFails"
proof (cases stackCopy)
  case Nil
  with assms have "\<not> IsPayToScriptHash script" using P2SH_empty_stack [of script ck flags sv] by auto
  then show ?thesis by (simp add: verify_P2SH_def split: prod.splits)
qed (auto simp: verify_P2SH_def split: prod.splits)

text \<open>
  C10: none of the assertions of \<open>VerifyScript\<close> can fail when the flags are coherent, that is when the
  clean-stack rule comes with the witness rule and that with the script-hash rule: whatever the scripts,
  the witness and the checker are, verification ends in success or in a script error. In particular the
  stack saved for a script-hash output is never empty.
\<close>

theorem VerifyScript_no_assert:
  assumes "coherent_flags flags"
  shows "VerifyScript ck flags sigScript pubKeyScript witness \<noteq> Inl AssertFails"
proof -
  have final: "verify_final flags witness r \<noteq> Inl AssertFails" for r
    using assms by (auto simp: verify_final_def coherent_flags_def split: prod.splits)
  have "err_bind (verify_P2SH ck flags sigScript pubKeyScript witness stackCopy r) (verify_final flags witness) \<noteq>
      Inl AssertFails" if "EvalScript ck flags SIGVERSION_BASE stackCopy pubKeyScript = Inr stack" for stackCopy stack r
    using verify_P2SH_no_assert [OF that, of sigScript witness r] final
    by (auto simp: err_bind_def split: sum.splits)
  then show ?thesis by (auto simp: VerifyScript_def err_bind_lift_assert)
qed

theorem VerifyScript_no_assert_witness:
  "coherent_flags (SCRIPT_VERIFY_P2SH OR SCRIPT_VERIFY_WITNESS) \<and>
   VerifyScript (BaseSignatureChecker (\<lambda>_. True)) (SCRIPT_VERIFY_P2SH OR SCRIPT_VERIFY_WITNESS) [] [OP_1] [] \<noteq>
     Inl AssertFails"
proof -
  have "coherent_flags (SCRIPT_VERIFY_P2SH OR SCRIPT_VERIFY_WITNESS)"
    by (simp add: coherent_flags_def has_flag_def flag_defs)
  then show ?thesis using VerifyScript_no_assert by blast
qed

subsection \<open>Every flag is a soft fork\<close>

lemma VerifyWitnessProgram_mono:
  assumes "subflags f f'" "VerifyWitnessProgram ck f' witness v program = Inr ()"
  shows "VerifyWitnessProgram ck f witness v program = Inr ()"
proof -
  have script: "witness_program_script f witness v program = Inr r"
    if "witness_program_script f' witness v program = Inr r" for r
    using that subflags_has [OF assms(1)]
    by (auto simp: witness_program_script_def Let_def split: if_splits)
  from assms(2) obtain x where x: "witness_program_script f' witness v program = Inr x"
    by (auto simp: VerifyWitnessProgram_def err_bind_Inr)
  show ?thesis
  proof (cases x)
    case None
    then show ?thesis using script [OF x] by (simp add: VerifyWitnessProgram_def)
  next
    case (Some p)
    then show ?thesis
      using assms(2) x script [OF x] EvalScript_mono [OF assms(1)]
      by (cases p) (auto simp: VerifyWitnessProgram_def err_bind_Inr split: if_splits)
  qed
qed

lemma verify_witness_mono:
  assumes "subflags f f'" "has_flag f SCRIPT_VERIFY_WITNESS"
    and "verify_witness ck f' sig expected e witness script r = Inr r'"
  shows "verify_witness ck f sig expected e witness script r = Inr r'"
  using assms(2,3) subflags_has [OF assms(1,2)] VerifyWitnessProgram_mono [OF assms(1)]
  by (auto simp: verify_witness_def err_bind_Inr split: option.splits prod.splits if_splits)

lemma verify_P2SH_mono:
  assumes "subflags f f'" "verify_P2SH ck f' sig script witness stackCopy r = Inr r'"
    and "has_flag f SCRIPT_VERIFY_WITNESS" "has_flag f SCRIPT_VERIFY_P2SH"
  shows "verify_P2SH ck f sig script witness stackCopy r = Inr r'"
  using assms(2-4) subflags_has [OF assms(1) assms(4)] EvalScript_mono [OF assms(1)]
    verify_witness_mono [OF assms(1) assms(3)]
  by (cases r, cases r') (auto simp: verify_P2SH_def err_bind_Inr split: prod.splits if_splits list.splits)

lemma verify_P2SH_mono_legacy:
  assumes "subflags f f'" "verify_P2SH ck f' sig script witness stackCopy r = Inr r'"
    and "\<not> has_flag f SCRIPT_VERIFY_WITNESS"
  shows "\<exists>r'. verify_P2SH ck f sig script witness stackCopy q = Inr r'"
proof (cases "has_flag f SCRIPT_VERIFY_P2SH \<and> IsPayToScriptHash script")
  case True
  then show ?thesis
    using assms(2,3) subflags_has [OF assms(1)] EvalScript_mono [OF assms(1)]
    by (fastforce simp: verify_P2SH_def verify_witness_def err_bind_Inr split: prod.splits if_splits list.splits)
next
  case False
  then show ?thesis by (auto simp: verify_P2SH_def split: prod.splits)
qed

lemma verify_final_mono:
  assumes "subflags f f'" "coherent_flags f" "has_flag f SCRIPT_VERIFY_WITNESS" "verify_final f' witness r = Inr ()"
  shows "verify_final f witness r = Inr ()"
  using assms(2-4) subflags_has [OF assms(1)]
  by (auto simp: verify_final_def coherent_flags_def split: prod.splits if_splits)

text \<open>
  C4: the flags are soft forks. The documentation of the flags promises that what is acceptable under more
  flags is acceptable under fewer; this holds for every input accepted under \<open>f'\<close> and every coherent
  choice \<open>f\<close> of some of its flags, whatever the checker answers.
\<close>

theorem VerifyScript_soft_fork:
  assumes "subflags f f'" "coherent_flags f" "VerifyScript ck f' sigScript pubKeyScript witness = Inr ()"
  shows "VerifyScript ck f sigScript pubKeyScript witness = Inr ()"
proof -
  obtain stackCopy stack r r' where
    push: "has_flag f' SCRIPT_VERIFY_SIGPUSHONLY \<Longrightarrow> IsPushOnly sigScript" and
    eval: "EvalScript ck f' SIGVERSION_BASE [] sigScript = Inr stackCopy"
      "EvalScript ck f' SIGVERSION_BASE stackCopy pubKeyScript = Inr stack"
      "stack \<noteq> []" "CastToBool (stack ! 0)" and
    wit: "verify_witness ck f' sigScript [] SCRIPT_ERR_WITNESS_MALLEATED witness pubKeyScript (stack, False) = Inr r" and
    p2sh: "verify_P2SH ck f' sigScript pubKeyScript witness stackCopy r = Inr r'" and
    final: "verify_final f' witness r' = Inr ()"
    using assms(3) by (auto simp: VerifyScript_def err_bind_Inr split: if_splits)
  note eval' = EvalScript_mono [OF assms(1) eval(1)] EvalScript_mono [OF assms(1) eval(2)] eval(3,4)
  have push': "has_flag f SCRIPT_VERIFY_SIGPUSHONLY \<Longrightarrow> IsPushOnly sigScript"
    using push subflags_has [OF assms(1)] by blast
  show ?thesis
  proof (cases "has_flag f SCRIPT_VERIFY_WITNESS")
    case True
    with assms(2) have "has_flag f SCRIPT_VERIFY_P2SH" by (simp add: coherent_flags_def)
    with True eval' push' show ?thesis
      using verify_witness_mono [OF assms(1) True wit] verify_P2SH_mono [OF assms(1) p2sh]
        verify_final_mono [OF assms(1,2) True final] by (simp add: VerifyScript_def lift_eval_def)
  next
    case False
    then have "verify_witness ck f sigScript [] SCRIPT_ERR_WITNESS_MALLEATED witness pubKeyScript (stack, False) =
        Inr (stack, False)" by (simp add: verify_witness_def)
    moreover have "verify_final f witness q = Inr ()" for q
      using False assms(2) by (auto simp: verify_final_def coherent_flags_def split: prod.splits)
    ultimately show ?thesis
      using eval' push' verify_P2SH_mono_legacy [OF assms(1) p2sh False, of "(stack, False)"]
      by (auto simp: VerifyScript_def lift_eval_def)
  qed
qed

theorem VerifyScript_soft_fork_witness:
  "subflags 0 SCRIPT_VERIFY_P2SH \<and> coherent_flags 0 \<and>
   VerifyScript (BaseSignatureChecker (\<lambda>_. True)) SCRIPT_VERIFY_P2SH [] [OP_1] [] = Inr () \<and>
   VerifyScript (BaseSignatureChecker (\<lambda>_. True)) 0 [] [OP_1] [] = Inr ()"
proof -
  let ?ck = "BaseSignatureChecker (\<lambda>_. True)"
  have c: "subflags 0 SCRIPT_VERIFY_P2SH" "coherent_flags 0"
    by (simp_all add: subflags_def coherent_flags_def has_flag_def)
  have "EvalScript_loop ?ck SCRIPT_VERIFY_P2SH SIGVERSION_BASE (EvalScript_init [] [OP_1]) =
      Inr (EvalScript_init [] [OP_1]\<lparr>ev_pc := [], ev_stack := [[1]]\<rparr>)"
    by (subst loop_step [OF step_OP_1]) (simp_all add: EvalScript_init_def loop_done)
  then have "EvalScript ?ck SCRIPT_VERIFY_P2SH SIGVERSION_BASE [] [OP_1] = Inr [[1]]"
    by (simp add: EvalScript_def) (simp add: EvalScript_init_def)
  moreover have "EvalScript ?ck SCRIPT_VERIFY_P2SH SIGVERSION_BASE [] [] = Inr []"
    by (simp add: EvalScript_def EvalScript_init_def loop_done)
  ultimately have "VerifyScript ?ck SCRIPT_VERIFY_P2SH [] [OP_1] [] = Inr ()"
    by (simp add: VerifyScript_def lift_eval_def verify_witness_def verify_P2SH_def verify_final_def
        IsPayToScriptHash_def has_flag_def flag_defs)
  with VerifyScript_soft_fork [OF c this] c show ?thesis by blast
qed

subsection \<open>Spending a witness key hash\<close>






end
