(* ===== verification/SC_ArithUint256.thy ===== *)
theory SC_ArithUint256
  imports SC_Prelude
begin

text \<open>
  The 256-bit unsigned integers of \<^verbatim>\<open>arith_uint256.h\<close> and \<^verbatim>\<open>arith_uint256.cpp\<close>, in which targets and
  chain work are computed.  A \<open>base_uint<256>\<close> is its array \<open>pn\<close> of eight 32-bit limbs, least
  significant first; every operator is translated as the limb loop of the source, with the 64-bit
  intermediate values the source uses.  \<open>au_val\<close> is the number a limb array stands for; each
  operator is shown to be the arithmetic operation modulo \<open>2^256\<close> on these numbers.
\<close>

type_synonym arith_uint256 = "u32 list"

definition WIDTH :: nat where
  "WIDTH = 8"

text \<open>How a computation on these numbers ends abnormally: a thrown \<open>uint_error\<close>, or a failed \<open>assert\<close>.\<close>

datatype abort =
    UintError string
  | AssertFails

subsection \<open>The operators of the class\<close>

definition au_zero :: arith_uint256 where
  "au_zero = replicate WIDTH 0"

definition au_of_u64 :: "u64 \<Rightarrow> arith_uint256" where
  "au_of_u64 b = [ucast b, ucast (drop_bit 32 b)] @ replicate (WIDTH - 2) 0"

definition au_is_zero :: "arith_uint256 \<Rightarrow> bool" where
  "au_is_zero a = list_all (\<lambda>p. p = 0) a"

definition au_not :: "arith_uint256 \<Rightarrow> arith_uint256" where
  "au_not a = map (\<lambda>p. NOT p) a"

fun au_inc :: "arith_uint256 \<Rightarrow> arith_uint256" where
  "au_inc [] = []"
| "au_inc (p # ps) = (if p + 1 = 0 then (p + 1) # au_inc ps else (p + 1) # ps)"

fun au_dec :: "arith_uint256 \<Rightarrow> arith_uint256" where
  "au_dec [] = []"
| "au_dec (p # ps) = (if p - 1 = - 1 then (p - 1) # au_dec ps else (p - 1) # ps)"

definition au_neg :: "arith_uint256 \<Rightarrow> arith_uint256" where
  "au_neg a = au_inc (map (\<lambda>p. NOT p) a)"

definition au_xor :: "arith_uint256 \<Rightarrow> arith_uint256 \<Rightarrow> arith_uint256" where
  "au_xor a b = map2 (\<lambda>p q. p XOR q) a b"

definition au_and :: "arith_uint256 \<Rightarrow> arith_uint256 \<Rightarrow> arith_uint256" where
  "au_and a b = map2 (\<lambda>p q. p AND q) a b"

definition au_or :: "arith_uint256 \<Rightarrow> arith_uint256 \<Rightarrow> arith_uint256" where
  "au_or a b = map2 (\<lambda>p q. p OR q) a b"

fun add_limbs :: "u64 \<Rightarrow> arith_uint256 \<Rightarrow> arith_uint256 \<Rightarrow> arith_uint256" where
  "add_limbs carry (p # ps) (q # qs) =
     (let n = carry + ucast p + ucast q
      in ucast (n AND 0xffffffff) # add_limbs (drop_bit 32 n) ps qs)"
| "add_limbs carry _ _ = []"

definition au_add :: "arith_uint256 \<Rightarrow> arith_uint256 \<Rightarrow> arith_uint256" where
  "au_add a b = add_limbs 0 a b"

definition au_sub :: "arith_uint256 \<Rightarrow> arith_uint256 \<Rightarrow> arith_uint256" where
  "au_sub a b = au_add a (au_neg b)"

definition shl_step :: "nat \<Rightarrow> nat \<Rightarrow> arith_uint256 \<Rightarrow> nat \<Rightarrow> arith_uint256 \<Rightarrow> arith_uint256" where
  "shl_step k shift a i pn =
     (let pn1 = (if i + k + 1 < WIDTH \<and> shift \<noteq> 0
                 then pn[i + k + 1 := pn ! (i + k + 1) OR drop_bit (32 - shift) (a ! i)] else pn)
      in if i + k < WIDTH then pn1[i + k := pn1 ! (i + k) OR push_bit shift (a ! i)] else pn1)"

definition au_shl :: "arith_uint256 \<Rightarrow> nat \<Rightarrow> arith_uint256" where
  "au_shl a shift = fold (shl_step (shift div 32) (shift mod 32) a) [0..<WIDTH] au_zero"

definition shr_step :: "nat \<Rightarrow> nat \<Rightarrow> arith_uint256 \<Rightarrow> nat \<Rightarrow> arith_uint256 \<Rightarrow> arith_uint256" where
  "shr_step k shift a i pn =
     (let pn1 = (if k + 1 \<le> i \<and> shift \<noteq> 0
                 then pn[i - k - 1 := pn ! (i - k - 1) OR push_bit (32 - shift) (a ! i)] else pn)
      in if k \<le> i then pn1[i - k := pn1 ! (i - k) OR drop_bit shift (a ! i)] else pn1)"

definition au_shr :: "arith_uint256 \<Rightarrow> nat \<Rightarrow> arith_uint256" where
  "au_shr a shift = fold (shr_step (shift div 32) (shift mod 32) a) [0..<WIDTH] au_zero"

fun mul32_limbs :: "u64 \<Rightarrow> u32 \<Rightarrow> arith_uint256 \<Rightarrow> arith_uint256" where
  "mul32_limbs carry b32 [] = []"
| "mul32_limbs carry b32 (p # ps) =
     (let n = carry + ucast b32 * ucast p
      in ucast (n AND 0xffffffff) # mul32_limbs (drop_bit 32 n) b32 ps)"

definition au_mul32 :: "arith_uint256 \<Rightarrow> u32 \<Rightarrow> arith_uint256" where
  "au_mul32 a b32 = mul32_limbs 0 b32 a"

fun mul_row :: "u64 \<Rightarrow> u32 \<Rightarrow> arith_uint256 \<Rightarrow> arith_uint256 \<Rightarrow> arith_uint256" where
  "mul_row carry aj (p # ps) (q # qs) =
     (let n = carry + ucast p + ucast aj * ucast q
      in ucast (n AND 0xffffffff) # mul_row (drop_bit 32 n) aj ps qs)"
| "mul_row carry aj ps _ = ps"

definition au_mul :: "arith_uint256 \<Rightarrow> arith_uint256 \<Rightarrow> arith_uint256" where
  "au_mul a b = fold (\<lambda>j pn. take j pn @ mul_row 0 (a ! j) (drop j pn) b) [0..<WIDTH] au_zero"

text \<open>\<open>CompareTo\<close> visits the limbs from the top; \<open>compare_down\<close> is its loop on the reversed arrays.\<close>

fun compare_down :: "arith_uint256 \<Rightarrow> arith_uint256 \<Rightarrow> int" where
  "compare_down (p # ps) (q # qs) = (if p < q then - 1 else if p > q then 1 else compare_down ps qs)"
| "compare_down _ _ = 0"

definition CompareTo :: "arith_uint256 \<Rightarrow> arith_uint256 \<Rightarrow> int" where
  "CompareTo a b = compare_down (rev a) (rev b)"

definition EqualTo :: "arith_uint256 \<Rightarrow> u64 \<Rightarrow> bool" where
  "EqualTo a b =
     (if \<not> list_all (\<lambda>p. p = 0) (drop 2 a) then False
      else if ucast (a ! 1) \<noteq> drop_bit 32 b then False
      else if ucast (a ! 0) \<noteq> b AND 0xffffffff then False
      else True)"

fun limb_bits :: "nat \<Rightarrow> u32 \<Rightarrow> nat" where
  "limb_bits 0 p = 1"
| "limb_bits (Suc nbits) p = (if bit p (Suc nbits) then Suc nbits + 1 else limb_bits nbits p)"

fun bits_down :: "nat \<Rightarrow> arith_uint256 \<Rightarrow> nat" where
  "bits_down 0 a = 0"
| "bits_down (Suc pos) a =
     (if a ! pos \<noteq> 0 then 32 * pos + limb_bits 31 (a ! pos) else bits_down pos a)"

definition au_bits :: "arith_uint256 \<Rightarrow> nat" where
  "au_bits a = bits_down WIDTH a"

definition set_result_bit :: "nat \<Rightarrow> arith_uint256 \<Rightarrow> arith_uint256" where
  "set_result_bit shift pn =
     pn[shift div 32 := pn ! (shift div 32) OR push_bit (shift mod 32) 1]"

text \<open>\<open>div_loop n\<close> runs the loop of \<open>operator/=\<close> with \<open>shift = n - 1\<close>, until \<open>shift\<close> is negative.\<close>

fun div_loop :: "nat \<Rightarrow> arith_uint256 \<Rightarrow> arith_uint256 \<Rightarrow> arith_uint256 \<Rightarrow> arith_uint256" where
  "div_loop 0 num d pn = pn"
| "div_loop (Suc shift) num d pn =
     (if CompareTo num d \<ge> 0
      then div_loop shift (au_sub num d) (au_shr d 1) (set_result_bit shift pn)
      else div_loop shift num (au_shr d 1) pn)"

definition au_div :: "arith_uint256 \<Rightarrow> arith_uint256 \<Rightarrow> abort + arith_uint256" where
  "au_div a b =
     (let num_bits = au_bits a; div_bits = au_bits b
      in if div_bits = 0 then Inl (UintError ''Division by zero'')
         else if div_bits > num_bits then Inr au_zero
         else let shift = num_bits - div_bits
              in Inr (div_loop (Suc shift) a (au_shl b shift) au_zero))"

definition GetLow64 :: "arith_uint256 \<Rightarrow> u64" where
  "GetLow64 a = ucast (a ! 0) OR push_bit 32 (ucast (a ! 1))"

subsection \<open>The number a limb array stands for\<close>

fun au_val :: "arith_uint256 \<Rightarrow> nat" where
  "au_val [] = 0"
| "au_val (p # ps) = unat p + 4294967296 * au_val ps"

definition au_ok :: "arith_uint256 \<Rightarrow> bool" where
  "au_ok a \<longleftrightarrow> length a = WIDTH"

lemma au_val_less: "au_val a < 4294967296 ^ length a"
proof (induction a)
  case Nil
  then show ?case by simp
next
  case (Cons p ps)
  have "unat p + 4294967296 * au_val ps < 4294967296 * (au_val ps + 1)" by simp
  also have "\<dots> \<le> 4294967296 * 4294967296 ^ length ps"
    using Cons.IH by (intro mult_le_mono2) simp
  finally show ?case by simp
qed

lemma width_pow: "(4294967296 :: nat) ^ WIDTH = 2 ^ 256"
  by (simp add: WIDTH_def)

lemma au_val_bound: "au_ok a \<Longrightarrow> au_val a < 2 ^ 256"
  using au_val_less [of a] by (simp only: au_ok_def width_pow)

lemma au_val_append: "au_val (a @ b) = au_val a + 4294967296 ^ length a * au_val b"
  by (induction a) (auto simp: algebra_simps)

lemma au_val_zeros [simp]: "au_val (replicate n 0) = 0"
  by (induction n) auto

lemma au_val_inject: "length a = length b \<Longrightarrow> au_val a = au_val b \<longleftrightarrow> a = b"
proof (induction a b rule: list_induct2)
  case Nil
  then show ?case by simp
next
  case (Cons p ps q qs)
  have "(unat p + 4294967296 * au_val ps) mod 4294967296 = unat p"
    "(unat q + 4294967296 * au_val qs) mod 4294967296 = unat q"
    "(unat p + 4294967296 * au_val ps) div 4294967296 = au_val ps"
    "(unat q + 4294967296 * au_val qs) div 4294967296 = au_val qs" by simp_all
  then have "unat p + 4294967296 * au_val ps = unat q + 4294967296 * au_val qs \<longleftrightarrow>
      unat p = unat q \<and> au_val ps = au_val qs" by metis
  then show ?case using Cons.IH by (simp add: word_unat_eq_iff)
qed

lemma bit_au_val: "bit (au_val a) n \<longleftrightarrow> n < 32 * length a \<and> bit (a ! (n div 32)) (n mod 32)"
proof (induction a arbitrary: n)
  case Nil
  then show ?case by simp
next
  case (Cons p ps)
  have "au_val (p # ps) = push_bit 32 (au_val ps) OR unat p"
    using or_add_nat [of "unat p" 32 "au_val ps"] by simp
  then have b: "bit (au_val (p # ps)) n = (32 \<le> n \<and> bit (au_val ps) (n - 32) \<or> bit p n)"
    by (simp add: bit_or_iff bit_push_bit_iff bit_unat)
  show ?case
  proof (cases "n < 32")
    case True
    then show ?thesis using b by simp
  next
    case False
    then have "\<not> bit p n" using bit_imp_le_length [of p n] by auto
    moreover have "n div 32 = Suc ((n - 32) div 32)" "n mod 32 = (n - 32) mod 32"
      using False by (simp_all add: div_if mod_if)
    ultimately show ?thesis using b False Cons.IH [of "n - 32"] by auto
  qed
qed

subsection \<open>Addition, negation and subtraction\<close>

lemma low_limb: "unat (ucast ((n :: u64) AND 0xffffffff) :: u32) = unat n mod 4294967296"
  using unat_and_mask [of n 32] by (simp add: mask_eq_exp_minus_1 unat_ucast)

lemma high_limb: "unat (drop_bit 32 (n :: u64)) = unat n div 4294967296"
  by (simp add: unat_drop_bit)

lemma unat_add_u64:
  "unat (a :: u64) + unat b < 18446744073709551616 \<Longrightarrow> unat (a + b) = unat a + unat b"
  by (simp add: unat_word_ariths)

lemma unat_mult_u64:
  "unat (a :: u64) * unat b < 18446744073709551616 \<Longrightarrow> unat (a * b) = unat a * unat b"
  by (simp add: unat_word_ariths)

lemma limb_carry:
  fixes s v :: nat
  shows "s mod 4294967296 + 4294967296 * ((s div 4294967296 + v) mod 4294967296 ^ k) =
    (s + 4294967296 * v) mod 4294967296 ^ Suc k"
proof -
  have "(s + 4294967296 * v) mod 4294967296 = s mod 4294967296"
    and "(s + 4294967296 * v) div 4294967296 = s div 4294967296 + v" by simp_all
  then show ?thesis
    using mod_mult2_eq [of "s + 4294967296 * v" 4294967296 "4294967296 ^ k"] by (simp add: add.commute)
qed

lemma add_limbs_val:
  assumes "length a = length b" and "unat c < 4294967296"
  shows "au_val (add_limbs c a b) = (unat c + au_val a + au_val b) mod 4294967296 ^ length a"
  using assms
proof (induction a b arbitrary: c rule: list_induct2)
  case Nil
  then show ?case by simp
next
  case (Cons p ps q qs)
  let ?n = "c + ucast p + ucast q :: u64"
  have n: "unat ?n = unat c + unat p + unat q"
  proof -
    have "unat (c + ucast p) = unat c + unat p"
      using Cons.prems unat_u32_less [of p] by (simp add: unat_add_u64 del: unat_u32_less)
    then show ?thesis
      using Cons.prems unat_u32_less [of p] unat_u32_less [of q]
      by (simp add: unat_add_u64 del: unat_u32_less)
  qed
  have d: "unat (drop_bit 32 ?n) = (unat c + unat p + unat q) div 4294967296"
    by (simp only: high_limb n)
  have small: "unat (drop_bit 32 ?n) < 4294967296"
    using d Cons.prems unat_u32_less [of p] unat_u32_less [of q]
    by (simp add: div_less_iff_less_mult del: unat_u32_less)
  let ?s = "unat c + unat p + unat q"
  have "au_val (add_limbs c (p # ps) (q # qs)) =
      ?s mod 4294967296 +
      4294967296 * ((?s div 4294967296 + au_val ps + au_val qs) mod 4294967296 ^ length ps)"
    using Cons.IH [OF small] by (simp only: add_limbs.simps Let_def au_val.simps low_limb n d)
  also have "\<dots> = (?s + 4294967296 * (au_val ps + au_val qs)) mod 4294967296 ^ Suc (length ps)"
    using limb_carry [of ?s "au_val ps + au_val qs" "length ps"] by (simp add: add.assoc)
  finally show ?case by (simp add: algebra_simps)
qed

lemma length_add_limbs [simp]: "length (add_limbs c a b) = min (length a) (length b)"
  by (induction c a b rule: add_limbs.induct) (auto simp: Let_def)

lemma length_au_inc [simp]: "length (au_inc a) = length a"
  by (induction a) auto

lemma length_au_dec [simp]: "length (au_dec a) = length a"
  by (induction a) auto

lemma au_inc_val: "au_val (au_inc a) = (au_val a + 1) mod 4294967296 ^ length a"
proof (induction a)
  case Nil
  then show ?case by simp
next
  case (Cons p ps)
  show ?case
  proof (cases "p + 1 = 0")
    case True
    then have p: "unat p = 4294967295"
    proof -
      have "p = - 1" using True by (simp add: eq_neg_iff_add_eq_0)
      then show ?thesis by (simp add: unsigned_minus_1_eq_mask mask_eq_exp_minus_1)
    qed
    have "(unat p + 4294967296 * au_val ps + 1) mod (4294967296 * 4294967296 ^ length ps) =
        4294967296 * ((au_val ps + 1) mod 4294967296 ^ length ps)"
      using p mult_mod_right [of "4294967296 :: nat" "au_val ps + 1" "4294967296 ^ length ps"] by simp
    then show ?thesis using True Cons.IH by simp
  next
    case False
    then have u: "unat (p + 1) = unat p + 1"
      by (metis unatSuc Suc_eq_plus1 add.commute)
    have "au_val ((p + 1) # ps) = au_val (p # ps) + 1" using u by simp
    then show ?thesis using False au_val_less [of "(p + 1) # ps"] by simp
  qed
qed

lemma au_val_not: "au_val (map (\<lambda>p. NOT p) a) = 4294967296 ^ length a - 1 - au_val a"
proof (induction a)
  case Nil
  then show ?case by simp
next
  case (Cons p ps)
  have u: "unat (NOT p) = 4294967295 - unat p"
  proof -
    have "uint p < 2 ^ 32" using unsigned_less [of p] by simp
    then have "take_bit 32 (uint p) = uint p" by (simp add: take_bit_int_eq_self)
    then have "uint (NOT p) = 4294967295 - uint p"
      by (simp add: unsigned_not_eq take_bit_not_eq_mask_diff mask_eq_exp_minus_1)
    then show ?thesis by (simp only: nat_uint_eq [symmetric]) (simp add: nat_diff_distrib')
  qed
  have "unat p + 4294967296 * au_val ps < 4294967296 * 4294967296 ^ length ps"
    using au_val_less [of "p # ps"] by simp
  moreover obtain k where "4294967296 ^ length ps = au_val ps + 1 + k"
    using au_val_less [of ps] by (auto simp: less_iff_Suc_add)
  moreover have "unat p < 4294967296" by (rule unat_u32_less)
  ultimately show ?case using Cons.IH u by (simp del: unat_u32_less)
qed

lemma au_neg_val: "au_val (au_neg a) = (4294967296 ^ length a - au_val a) mod 4294967296 ^ length a"
  using au_val_less [of a] by (simp add: au_neg_def au_inc_val au_val_not Suc_diff_Suc)

lemma au_dec_inc: "au_inc (au_dec a) = a"
proof (induction a)
  case (Cons p ps)
  then show ?case by auto
qed simp

lemma au_dec_val:
  assumes "0 < au_val a"
  shows "au_val (au_dec a) = au_val a - 1"
proof -
  have "au_val a = (au_val (au_dec a) + 1) mod 4294967296 ^ length a"
    using au_inc_val [of "au_dec a"] by (simp add: au_dec_inc)
  moreover have "au_val (au_dec a) < 4294967296 ^ length a" using au_val_less [of "au_dec a"] by simp
  ultimately show ?thesis using assms
    by (cases "au_val (au_dec a) + 1 = 4294967296 ^ length a") auto
qed

lemma au_ok_ops [simp]:
  "au_ok au_zero" "au_ok (au_of_u64 w)"
  "au_ok a \<Longrightarrow> au_ok (au_not a)" "au_ok a \<Longrightarrow> au_ok (au_neg a)"
  "au_ok a \<Longrightarrow> au_ok (au_inc a)" "au_ok a \<Longrightarrow> au_ok (au_dec a)"
  "au_ok a \<Longrightarrow> au_ok b \<Longrightarrow> au_ok (au_add a b)" "au_ok a \<Longrightarrow> au_ok b \<Longrightarrow> au_ok (au_sub a b)"
  by (simp_all add: au_ok_def au_zero_def au_of_u64_def au_not_def au_neg_def au_add_def au_sub_def
      WIDTH_def)

lemma au_zero_val [simp]: "au_val au_zero = 0"
  by (simp add: au_zero_def)

lemma au_add_val: "au_ok a \<Longrightarrow> au_ok b \<Longrightarrow> au_val (au_add a b) = (au_val a + au_val b) mod 2 ^ 256"
  using add_limbs_val [of a b 0] by (simp add: au_add_def au_ok_def width_pow)

lemma au_not_val: "au_ok a \<Longrightarrow> au_val (au_not a) = 2 ^ 256 - 1 - au_val a"
  using au_val_not [of a] by (simp add: au_not_def au_ok_def width_pow)

lemma au_sub_val:
  assumes "au_ok a" "au_ok b"
  shows "au_val (au_sub a b) = (au_val a + (2 ^ 256 - au_val b)) mod 2 ^ 256"
proof -
  have "au_val (au_neg b) = (2 ^ 256 - au_val b) mod 2 ^ 256"
    using assms au_neg_val [of b] by (simp only: au_ok_def width_pow)
  then show ?thesis using assms by (simp only: au_sub_def au_add_val au_ok_ops mod_add_right_eq)
qed

lemma au_sub_exact:
  assumes "au_ok a" "au_ok b" "au_val b \<le> au_val a"
  shows "au_val (au_sub a b) = au_val a - au_val b"
proof -
  have l: "au_val a < 2 ^ 256" "au_val b < 2 ^ 256" using assms au_val_bound by blast+
  then have "au_val a + (2 ^ 256 - au_val b) = (au_val a - au_val b) + 2 ^ 256" using assms(3) by linarith
  then have "au_val (au_sub a b) = ((au_val a - au_val b) + 2 ^ 256) mod 2 ^ 256"
    using assms by (simp only: au_sub_val)
  also have "\<dots> = (au_val a - au_val b) mod 2 ^ 256" by (rule mod_add_self2)
  also have "\<dots> = au_val a - au_val b" using l by (intro mod_less) linarith
  finally show ?thesis .
qed

lemma au_of_u64_val: "au_val (au_of_u64 w) = unat w"
proof -
  have "unat w < 18446744073709551616" by (rule unat_u64_less)
  then have "unat w div 4294967296 < 4294967296" by (simp add: div_less_iff_less_mult)
  then show ?thesis by (simp add: au_of_u64_def au_val_append unat_ucast unat_drop_bit)
qed

subsection \<open>Multiplication\<close>

lemma mul_step_val:
  assumes "unat (c :: u64) < 4294967296"
  shows "unat (c + ucast (p :: u32) + ucast (x :: u32) * ucast (q :: u32)) =
      unat c + unat p + unat x * unat q"
    and "(unat c + unat p + unat x * unat q) div 4294967296 < 4294967296"
proof -
  have "unat x * unat q \<le> 4294967295 * 4294967295"
    using unat_u32_less [of x] unat_u32_less [of q] by (intro mult_le_mono) linarith+
  then have m: "unat x * unat q \<le> 18446744065119617025" by simp
  then have xq: "unat (ucast x * ucast q :: u64) = unat x * unat q"
    using unat_mult_u64 [of "ucast x" "ucast q"] by simp
  have "unat (c + ucast p) = unat c + unat p"
    using assms unat_u32_less [of p] by (simp add: unat_add_u64 del: unat_u32_less)
  then show "unat (c + ucast (p :: u32) + ucast (x :: u32) * ucast (q :: u32)) =
      unat c + unat p + unat x * unat q"
    using unat_add_u64 [of "c + ucast p" "ucast x * ucast q"] assms m xq unat_u32_less [of p]
    by (simp del: unat_u32_less)
  show "(unat c + unat p + unat x * unat q) div 4294967296 < 4294967296"
    using assms m unat_u32_less [of p] by (simp add: div_less_iff_less_mult del: unat_u32_less)
qed

lemma mul_row_val:
  assumes "unat c < 4294967296" and "length ps \<le> length qs"
  shows "au_val (mul_row c x ps qs) =
      (unat c + au_val ps + unat x * au_val qs) mod 4294967296 ^ length ps"
  using assms
proof (induction c x ps qs rule: mul_row.induct)
  case (1 c x p ps q qs)
  let ?n = "c + ucast p + ucast x * ucast q :: u64" and ?s = "unat c + unat p + unat x * unat q"
  note n = mul_step_val [OF 1(2), of p x q]
  have d: "unat (drop_bit 32 ?n) = ?s div 4294967296" by (simp only: high_limb n(1))
  have IH: "au_val (mul_row (drop_bit 32 ?n) x ps qs) =
      (?s div 4294967296 + (au_val ps + unat x * au_val qs)) mod 4294967296 ^ length ps"
    using 1(1) [OF refl] 1(3) n(2) by (simp only: d) (simp add: add.assoc)
  have "au_val (mul_row c x (p # ps) (q # qs)) = ?s mod 4294967296 +
      4294967296 * ((?s div 4294967296 + (au_val ps + unat x * au_val qs)) mod 4294967296 ^ length ps)"
    by (simp only: mul_row.simps Let_def au_val.simps low_limb n(1) IH)
  also have "\<dots> = (?s + 4294967296 * (au_val ps + unat x * au_val qs)) mod 4294967296 ^ Suc (length ps)"
    by (rule limb_carry)
  finally show ?case by (simp add: algebra_simps)
qed auto

lemma length_mul_row [simp]: "length (mul_row c x ps qs) = length ps"
  by (induction c x ps qs rule: mul_row.induct) (auto simp: Let_def)

lemma mul_outer:
  assumes "length a = W" "length b = W" "n \<le> W"
  shows "length (fold (\<lambda>j pn. take j pn @ mul_row 0 (a ! j) (drop j pn) b) [0..<n] (replicate W 0)) = W \<and>
    au_val (fold (\<lambda>j pn. take j pn @ mul_row 0 (a ! j) (drop j pn) b) [0..<n] (replicate W 0)) =
      au_val (take n a) * au_val b mod 4294967296 ^ W"
  using assms(3)
proof (induction n)
  case 0
  then show ?case by simp
next
  case (Suc n)
  let ?B = "4294967296 :: nat"
  let ?pn = "fold (\<lambda>j pn. take j pn @ mul_row 0 (a ! j) (drop j pn) b) [0..<n] (replicate W 0)"
  have len: "length ?pn = W" and v: "au_val ?pn = au_val (take n a) * au_val b mod ?B ^ W"
    using Suc by auto
  let ?r = "take n ?pn @ mul_row 0 (a ! n) (drop n ?pn) b"
  have "au_val ?r = au_val (take n ?pn) +
      ?B ^ n * ((au_val (drop n ?pn) + unat (a ! n) * au_val b) mod ?B ^ (W - n))"
    using len Suc.prems assms(2) mul_row_val [of 0 "drop n ?pn" b "a ! n"]
    by (simp add: au_val_append)
  also have "\<dots> = (au_val (take n ?pn) + ?B ^ n * (au_val (drop n ?pn) + unat (a ! n) * au_val b)) mod ?B ^ W"
  proof -
    have t: "au_val (take n ?pn) < ?B ^ n" using au_val_less [of "take n ?pn"] len Suc.prems by simp
    let ?v = "au_val (drop n ?pn) + unat (a ! n) * au_val b"
    have "(au_val (take n ?pn) + ?B ^ n * ?v) mod (?B ^ n * ?B ^ (W - n)) =
        ?B ^ n * (?v mod ?B ^ (W - n)) + au_val (take n ?pn)"
      using t by (subst mod_mult2_eq) simp
    then show ?thesis using Suc.prems by (simp flip: power_add)
  qed
  also have "au_val (take n ?pn) + ?B ^ n * (au_val (drop n ?pn) + unat (a ! n) * au_val b) =
      au_val ?pn + ?B ^ n * (unat (a ! n) * au_val b)"
    using au_val_append [of "take n ?pn" "drop n ?pn"] len Suc.prems
    by (simp add: algebra_simps)
  also have "\<dots> mod ?B ^ W = (au_val (take n a) * au_val b + ?B ^ n * (unat (a ! n) * au_val b)) mod ?B ^ W"
    by (simp only: v mod_add_left_eq)
  also have "au_val (take n a) * au_val b + ?B ^ n * (unat (a ! n) * au_val b) =
      au_val (take (Suc n) a) * au_val b"
    using assms Suc.prems by (simp add: take_Suc_conv_app_nth au_val_append algebra_simps)
  finally show ?case using len Suc.prems by simp
qed

lemma au_mul_ok [simp]: "au_ok a \<Longrightarrow> au_ok b \<Longrightarrow> au_ok (au_mul a b)"
  using mul_outer [of a WIDTH b WIDTH] by (simp add: au_ok_def au_mul_def au_zero_def)

lemma au_mul_val: "au_ok a \<Longrightarrow> au_ok b \<Longrightarrow> au_val (au_mul a b) = au_val a * au_val b mod 2 ^ 256"
  using mul_outer [of a WIDTH b WIDTH] by (simp add: au_ok_def au_mul_def au_zero_def width_pow)

lemma mul32_limbs_eq: "mul32_limbs c b32 a = mul_row c b32 (replicate (length a) 0) a"
  by (induction c b32 a rule: mul32_limbs.induct) (auto simp: Let_def)

lemma au_mul32_ok [simp]: "au_ok a \<Longrightarrow> au_ok (au_mul32 a x)"
  by (simp add: au_ok_def au_mul32_def mul32_limbs_eq)

lemma au_mul32_val: "au_ok a \<Longrightarrow> au_val (au_mul32 a x) = au_val a * unat x mod 2 ^ 256"
  using mul_row_val [of 0 "replicate (length a) 0" a x]
  by (simp add: au_mul32_def mul32_limbs_eq au_ok_def width_pow mult.commute)

subsection \<open>Shifts\<close>

lemma shl_step_nth:
  assumes "length pn = WIDTH" "m < WIDTH"
  shows "length (shl_step k r a i pn) = WIDTH"
    and "shl_step k r a i pn ! m = pn ! m OR
      (if m = i + k + 1 \<and> r \<noteq> 0 then drop_bit (32 - r) (a ! i) else 0) OR
      (if m = i + k then push_bit r (a ! i) else 0)"
  using assms by (auto simp: shl_step_def Let_def nth_list_update)

lemma shl_fold_nth:
  assumes "m < WIDTH"
  shows "length (fold (shl_step k r a) [0..<n] au_zero) = WIDTH \<and>
    fold (shl_step k r a) [0..<n] au_zero ! m =
      (if k + 1 \<le> m \<and> m - k - 1 < n \<and> r \<noteq> 0 then drop_bit (32 - r) (a ! (m - k - 1)) else 0) OR
      (if k \<le> m \<and> m - k < n then push_bit r (a ! (m - k)) else 0)"
proof (induction n)
  case 0
  then show ?case using assms by (simp add: au_zero_def)
next
  case (Suc n)
  have e1: "m = n + k + 1 \<longleftrightarrow> k + 1 \<le> m \<and> m - k - 1 = n" by auto
  have e2: "m = n + k \<longleftrightarrow> k \<le> m \<and> m - k = n" by auto
  show ?case
    using Suc shl_step_nth [of "fold (shl_step k r a) [0..<n] au_zero" m k r a n] assms
    by (simp add: e1 e2 less_Suc_eq) (auto simp: or.commute or.left_commute or.assoc)
qed

lemma shr_step_nth:
  assumes "length pn = WIDTH" "m < WIDTH" "i < WIDTH"
  shows "length (shr_step k r a i pn) = WIDTH"
    and "shr_step k r a i pn ! m = pn ! m OR
      (if m + k + 1 = i \<and> r \<noteq> 0 then push_bit (32 - r) (a ! i) else 0) OR
      (if m + k = i then drop_bit r (a ! i) else 0)"
  using assms by (auto simp: shr_step_def Let_def nth_list_update)

lemma shr_fold_nth:
  assumes "m < WIDTH" "n \<le> WIDTH"
  shows "length (fold (shr_step k r a) [0..<n] au_zero) = WIDTH \<and>
    fold (shr_step k r a) [0..<n] au_zero ! m =
      (if m + k + 1 < n \<and> r \<noteq> 0 then push_bit (32 - r) (a ! (m + k + 1)) else 0) OR
      (if m + k < n then drop_bit r (a ! (m + k)) else 0)"
  using assms(2)
proof (induction n)
  case 0
  then show ?case using assms by (simp add: au_zero_def)
next
  case (Suc n)
  show ?case
    using Suc shr_step_nth [of "fold (shr_step k r a) [0..<n] au_zero" m n k r a] assms(1)
    by (simp add: less_Suc_eq) (auto simp: or.commute or.left_commute or.assoc)
qed

lemma au_shl_ok [simp]: "au_ok (au_shl a n)"
  using shl_fold_nth [of 0] by (simp add: au_ok_def au_shl_def WIDTH_def)

lemma au_shr_ok [simp]: "au_ok (au_shr a n)"
  using shr_fold_nth [of 0 WIDTH] by (simp add: au_ok_def au_shr_def WIDTH_def)

lemma limb_index: "(32 * q + r) div 32 = q" "(32 * q + r) mod 32 = (r :: nat)" if "r < 32"
  using that by simp_all

lemma bit_limb: "j < 32 \<Longrightarrow> bit (au_val a) (32 * m + j) \<longleftrightarrow> m < length a \<and> bit (a ! m) j"
  by (auto simp: bit_au_val limb_index)

lemma bit_shl_limbs:
  assumes a: "au_ok a" and lt: "j < 32" "r < 32" and m: "m < WIDTH"
  shows "bit (au_val (au_shl a (32 * k + r))) (32 * m + j) \<longleftrightarrow>
    32 * k + r \<le> 32 * m + j \<and> bit (au_val a) (32 * m + j - (32 * k + r))"
proof -
  have "au_shl a (32 * k + r) ! m =
      (if k + 1 \<le> m \<and> r \<noteq> 0 then drop_bit (32 - r) (a ! (m - k - 1)) else 0) OR
      (if k \<le> m then push_bit r (a ! (m - k)) else 0)"
    using shl_fold_nth [of m k r a WIDTH] m lt by (auto simp: au_shl_def limb_index)
  then have lhs: "bit (au_val (au_shl a (32 * k + r))) (32 * m + j) \<longleftrightarrow>
      (k + 1 \<le> m \<and> r \<noteq> 0 \<and> bit (a ! (m - k - 1)) (32 - r + j)) \<or>
      (k \<le> m \<and> r \<le> j \<and> bit (a ! (m - k)) (j - r))"
    using m lt by (auto simp: bit_limb au_shl_ok [unfolded au_ok_def] bit_or_iff bit_drop_bit_eq
        bit_push_bit_iff)
  show ?thesis
  proof (cases "r \<le> j")
    case r: True
    have "\<not> (r \<noteq> 0 \<and> bit (a ! (m - k - 1)) (32 - r + j))"
      using r lt bit_imp_le_length [of "a ! (m - k - 1)" "32 - r + j"] by auto
    moreover have "32 * k + r \<le> 32 * m + j \<longleftrightarrow> k \<le> m" using lt r by (intro iffI) linarith+
    moreover have "bit (au_val a) (32 * m + j - (32 * k + r)) \<longleftrightarrow> bit (a ! (m - k)) (j - r)" if "k \<le> m"
    proof -
      have "32 * m + j - (32 * k + r) = 32 * (m - k) + (j - r)" using that r by linarith
      moreover have "j - r < 32" "m - k < length a" using a m lt by (simp_all add: au_ok_def)
      ultimately show ?thesis by (simp only: bit_limb simp_thms)
    qed
    ultimately show ?thesis using lhs r by blast
  next
    case r: False
    have "32 * k + r \<le> 32 * m + j \<longleftrightarrow> k + 1 \<le> m" using lt r by (intro iffI) linarith+
    moreover have "bit (au_val a) (32 * m + j - (32 * k + r)) \<longleftrightarrow> bit (a ! (m - k - 1)) (32 - r + j)"
      if "k + 1 \<le> m"
    proof -
      have "32 * m + j - (32 * k + r) = 32 * (m - k - 1) + (32 - r + j)" using that r lt by linarith
      moreover have "32 - r + j < 32" "m - k - 1 < length a" using a m r lt by (simp_all add: au_ok_def)
      ultimately show ?thesis by (simp only: bit_limb simp_thms)
    qed
    moreover have "r \<noteq> 0" using r by simp
    ultimately show ?thesis using lhs r by blast
  qed
qed

lemma bit_shr_limbs:
  assumes a: "au_ok a" and lt: "j < 32" "r < 32" and m: "m < WIDTH"
  shows "bit (au_val (au_shr a (32 * k + r))) (32 * m + j) \<longleftrightarrow>
    bit (au_val a) (32 * m + j + (32 * k + r))"
proof -
  have "au_shr a (32 * k + r) ! m =
      (if m + k + 1 < WIDTH \<and> r \<noteq> 0 then push_bit (32 - r) (a ! (m + k + 1)) else 0) OR
      (if m + k < WIDTH then drop_bit r (a ! (m + k)) else 0)"
    using shr_fold_nth [of m WIDTH k r a] m lt by (simp add: au_shr_def limb_index)
  then have lhs: "bit (au_val (au_shr a (32 * k + r))) (32 * m + j) \<longleftrightarrow>
      (m + k + 1 < WIDTH \<and> r \<noteq> 0 \<and> 32 - r \<le> j \<and> bit (a ! (m + k + 1)) (j - (32 - r))) \<or>
      (m + k < WIDTH \<and> bit (a ! (m + k)) (r + j))"
    using m lt by (auto simp: bit_limb au_shr_ok [unfolded au_ok_def] bit_or_iff bit_drop_bit_eq
        bit_push_bit_iff)
  show ?thesis
  proof (cases "j + r < 32")
    case r: True
    have "32 * m + j + (32 * k + r) = 32 * (m + k) + (r + j)" by simp
    moreover have "r + j < 32" using r by simp
    ultimately have "bit (au_val a) (32 * m + j + (32 * k + r)) \<longleftrightarrow>
        m + k < WIDTH \<and> bit (a ! (m + k)) (r + j)"
      using a by (simp only: bit_limb au_ok_def)
    moreover have "\<not> (r \<noteq> 0 \<and> 32 - r \<le> j)" using r by linarith
    ultimately show ?thesis using lhs by blast
  next
    case r: False
    have "32 * m + j + (32 * k + r) = 32 * (m + k + 1) + (j - (32 - r))" using r lt by presburger
    moreover have "j - (32 - r) < 32" using lt by linarith
    ultimately have "bit (au_val a) (32 * m + j + (32 * k + r)) \<longleftrightarrow>
        m + k + 1 < WIDTH \<and> bit (a ! (m + k + 1)) (j - (32 - r))"
      using a by (simp only: bit_limb au_ok_def)
    moreover have "\<not> bit (a ! (m + k)) (r + j)"
      using r bit_imp_le_length [of "a ! (m + k)" "r + j"] by auto
    moreover have "r \<noteq> 0" "32 - r \<le> j" using r lt by linarith+
    ultimately show ?thesis using lhs by blast
  qed
qed

lemma bit_au_ge: "au_ok a \<Longrightarrow> 256 \<le> n \<Longrightarrow> \<not> bit (au_val a) n"
  by (simp add: bit_au_val au_ok_def WIDTH_def)

lemma bit_au_shl:
  assumes "au_ok a"
  shows "bit (au_val (au_shl a s)) n \<longleftrightarrow> n < 256 \<and> s \<le> n \<and> bit (au_val a) (n - s)"
  using bit_shl_limbs [OF assms, of "n mod 32" "s mod 32" "n div 32" "s div 32"]
    bit_au_ge [of "au_shl a s" n]
  by (cases "n < 256") (simp_all add: WIDTH_def)

lemma bit_au_shr:
  assumes "au_ok a"
  shows "bit (au_val (au_shr a s)) n \<longleftrightarrow> bit (au_val a) (n + s)"
  using bit_shr_limbs [OF assms, of "n mod 32" "s mod 32" "n div 32" "s div 32"]
    bit_au_ge [of "au_shr a s" n] bit_au_ge [OF assms, of "n + s"]
  by (cases "n < 256") (simp_all add: WIDTH_def)

lemma au_shl_val: "au_ok a \<Longrightarrow> au_val (au_shl a s) = au_val a * 2 ^ s mod 2 ^ 256"
proof -
  assume a: "au_ok a"
  have "au_val (au_shl a s) = take_bit 256 (push_bit s (au_val a))"
    by (rule bit_eqI) (auto simp: bit_au_shl [OF a] bit_take_bit_iff bit_push_bit_iff)
  then show ?thesis by (simp only: take_bit_eq_mod push_bit_eq_mult)
qed

lemma au_shr_val: "au_ok a \<Longrightarrow> au_val (au_shr a s) = au_val a div 2 ^ s"
proof -
  assume a: "au_ok a"
  have "au_val (au_shr a s) = drop_bit s (au_val a)"
    by (rule bit_eqI) (simp add: bit_au_shr [OF a] bit_drop_bit_eq add.commute)
  then show ?thesis by (simp only: drop_bit_eq_div)
qed

subsection \<open>Comparison and the highest bit\<close>

lemma compare_down_val:
  assumes "length a = length b"
  shows "compare_down a b =
      (if au_val (rev a) < au_val (rev b) then - 1 else if au_val (rev a) > au_val (rev b) then 1 else 0)"
  using assms
proof (induction a b rule: list_induct2)
  case Nil
  then show ?case by simp
next
  case (Cons p ps q qs)
  let ?K = "4294967296 ^ length qs :: nat"
  have v: "au_val (rev (p # ps)) = au_val (rev ps) + ?K * unat p"
    "au_val (rev (q # qs)) = au_val (rev qs) + ?K * unat q"
    using Cons.hyps by (simp_all add: au_val_append)
  have lt: "au_val (rev ps) < ?K" "au_val (rev qs) < ?K"
    using au_val_less [of "rev ps"] au_val_less [of "rev qs"] Cons.hyps by simp_all
  have less: "x + ?K * m < y + ?K * n" if "x < ?K" "m < n" for x y m n :: nat
  proof -
    have "x + ?K * m < ?K * (m + 1)" using that(1) by simp
    also have "\<dots> \<le> ?K * n" using that(2) by (intro mult_le_mono2) simp
    finally show ?thesis by simp
  qed
  consider "unat p < unat q" | "unat q < unat p" | "p = q"
    by (metis linorder_neqE_nat word_unat_eq_iff)
  then show ?case
  proof cases
    case 1
    then show ?thesis using less [OF lt(1) 1, of "au_val (rev qs)"]
      by (simp add: v word_less_nat_alt del: rev.simps)
  next
    case 2
    then show ?thesis using less [OF lt(2) 2, of "au_val (rev ps)"]
      by (simp add: v word_less_nat_alt del: rev.simps)
  next
    case 3
    then show ?thesis unfolding v using Cons.IH by simp
  qed
qed

lemma CompareTo_val:
  "au_ok a \<Longrightarrow> au_ok b \<Longrightarrow>
    CompareTo a b = (if au_val a < au_val b then - 1 else if au_val a > au_val b then 1 else 0)"
  using compare_down_val [of "rev a" "rev b"] by (simp add: CompareTo_def au_ok_def)

lemma EqualTo_val: "au_ok a \<Longrightarrow> EqualTo a w \<longleftrightarrow> au_val a = unat w"
proof -
  assume a: "au_ok a"
  then obtain x y z where e: "a = x # y # z" "length z = WIDTH - 2"
    by (auto simp: au_ok_def WIDTH_def length_Suc_conv numeral_eq_Suc)
  have z: "list_all (\<lambda>p. p = 0) z \<longleftrightarrow> z = replicate (WIDTH - 2) 0"
    using e(2) replicate_eqI [of z "WIDTH - 2" 0] by (auto simp: list_all_iff)
  have "EqualTo a w \<longleftrightarrow> a = au_of_u64 w"
  proof -
    have "ucast y = drop_bit 32 w \<longleftrightarrow> y = ucast (drop_bit 32 w)"
    proof
      assume "y = ucast (drop_bit 32 w)"
      moreover have "unat (drop_bit 32 w) < 2 ^ LENGTH(32)"
        using unat_u64_less [of w] by (simp add: unat_drop_bit div_less_iff_less_mult del: unat_u64_less)
      ultimately show "ucast y = drop_bit 32 w" by (simp only: ucast_ucast_id)
    next
      assume y: "ucast y = drop_bit 32 w"
      show "y = ucast (drop_bit 32 w)" by (simp flip: y)
    qed
    moreover have "ucast x = w AND 0xffffffff \<longleftrightarrow> x = ucast w"
    proof -
      have m: "unat (w AND 0xffffffff) = unat w mod 4294967296"
        using unat_and_mask [of w 32] by (simp add: mask_eq_exp_minus_1)
      have "unat (ucast x :: u64) = unat x" "unat (ucast w :: u32) = unat w mod 4294967296"
        by simp (simp add: unat_ucast)
      then show ?thesis by (simp only: word_unat_eq_iff m)
    qed
    ultimately show ?thesis using z by (auto simp: EqualTo_def e au_of_u64_def)
  qed
  also have "\<dots> \<longleftrightarrow> au_val a = unat w"
    using au_val_inject [of a "au_of_u64 w"] a by (simp add: au_of_u64_val au_ok_def au_ok_ops [unfolded au_ok_def])
  finally show ?thesis .
qed

lemma limb_bits_bounds:
  assumes "unat p < 2 ^ Suc n" "p \<noteq> 0"
  shows "0 < limb_bits n p \<and> limb_bits n p \<le> Suc n \<and> 2 ^ (limb_bits n p - 1) \<le> unat p \<and>
    unat p < 2 ^ limb_bits n p"
  using assms
proof (induction n)
  case 0
  then have "unat p \<noteq> 0" by (simp add: unat_eq_0)
  then show ?case using 0 by simp
next
  case (Suc n)
  show ?case
  proof (cases "bit p (Suc n)")
    case True
    have "2 ^ Suc n \<le> unat p"
    proof (rule ccontr)
      assume "\<not> ?thesis"
      then have "unat p < 2 ^ Suc n" by simp
      then have "unat p div 2 ^ Suc n = 0" by (rule div_less)
      then show False using True by (simp add: bit_unat bit_iff_odd del: power_Suc)
    qed
    then show ?thesis using True Suc.prems by simp
  next
    case False
    have "unat p < 2 ^ Suc n"
    proof (rule ccontr)
      assume "\<not> ?thesis"
      then have "unat p div 2 ^ Suc n = 1"
        using Suc.prems(1) by (intro div_nat_eqI) simp_all
      then show False using False by (simp add: bit_unat bit_iff_odd del: power_Suc)
    qed
    then show ?thesis using Suc False by auto
  qed
qed

lemma bits_down_bounds:
  assumes "n \<le> length a" "au_val (take n a) \<noteq> 0"
  shows "0 < bits_down n a \<and> bits_down n a \<le> 32 * n \<and> 2 ^ (bits_down n a - 1) \<le> au_val (take n a) \<and>
    au_val (take n a) < 2 ^ bits_down n a"
  using assms
proof (induction n)
  case 0
  then show ?case by simp
next
  case (Suc n)
  have v: "au_val (take (Suc n) a) = au_val (take n a) + 2 ^ (32 * n) * unat (a ! n)"
    using Suc.prems by (simp add: take_Suc_conv_app_nth au_val_append power_mult)
  show ?case
  proof (cases "a ! n = 0")
    case True
    then show ?thesis using Suc v by auto
  next
    case False
    let ?l = "limb_bits 31 (a ! n)"
    have l: "0 < ?l" "?l \<le> 32" "2 ^ (?l - 1) \<le> unat (a ! n)" "unat (a ! n) < 2 ^ ?l"
      using limb_bits_bounds [of "a ! n" 31] False by simp_all
    have lo: "(2 :: nat) ^ (32 * n + ?l - 1) \<le> 2 ^ (32 * n) * unat (a ! n)"
      using l by (simp add: power_add flip: Nat.add_diff_assoc)
    have "au_val (take n a) < 2 ^ (32 * n)"
      using au_val_less [of "take n a"] Suc.prems by (simp add: power_mult)
    then have "au_val (take (Suc n) a) < 2 ^ (32 * n) * (unat (a ! n) + 1)" using v by simp
    also have "\<dots> \<le> 2 ^ (32 * n) * 2 ^ ?l" using l by (intro mult_le_mono2) simp
    finally show ?thesis using False l lo v by (simp add: power_add)
  qed
qed

lemma bits_down_zero: "n \<le> length a \<Longrightarrow> au_val (take n a) = 0 \<Longrightarrow> bits_down n a = 0"
  by (induction n) (auto simp: take_Suc_conv_app_nth au_val_append unat_eq_0)

lemma au_bits_zero: "au_ok a \<Longrightarrow> au_bits a = 0 \<longleftrightarrow> au_val a = 0"
  using bits_down_bounds [of WIDTH a] bits_down_zero [of WIDTH a]
  by (cases "au_val a = 0") (auto simp: au_ok_def au_bits_def)

lemma au_bits_bounds:
  assumes "au_ok a"
  shows "au_bits a \<le> 256" "au_val a < 2 ^ au_bits a" "au_val a \<noteq> 0 \<Longrightarrow> 2 ^ (au_bits a - 1) \<le> au_val a"
  using assms bits_down_bounds [of WIDTH a] bits_down_zero [of WIDTH a]
  by (cases "au_val a = 0"; simp add: au_ok_def au_bits_def WIDTH_def)+

subsection \<open>Division\<close>

lemma set_result_bit_ok [simp]: "au_ok pn \<Longrightarrow> au_ok (set_result_bit s pn)"
  by (simp add: au_ok_def set_result_bit_def)

lemma set_result_bit_val:
  assumes "au_ok pn" "s < 256"
  shows "au_val (set_result_bit s pn) = au_val pn OR 2 ^ s"
proof (rule bit_eqI)
  fix n
  have "bit (set_result_bit s pn ! (n div 32)) (n mod 32) \<longleftrightarrow>
      bit (pn ! (n div 32)) (n mod 32) \<or> n = s" if "n < 256"
  proof -
    have "n = s \<longleftrightarrow> n div 32 = s div 32 \<and> n mod 32 = s mod 32" by (metis div_mult_mod_eq)
    then show ?thesis using assms that
      by (auto simp: set_result_bit_def nth_list_update au_ok_def WIDTH_def bit_or_iff bit_push_bit_iff
          bit_1_iff bit_exp_iff)
  qed
  then show "bit (au_val (set_result_bit s pn)) n \<longleftrightarrow> bit (au_val pn OR 2 ^ s) n"
    using assms by (auto simp: bit_au_val bit_or_iff bit_exp_iff au_ok_def WIDTH_def set_result_bit_def)
qed

lemma div_loop_val:
  assumes "au_ok num" "au_ok d" "au_ok pn" "n \<le> 256"
    and "0 < n \<Longrightarrow> au_val d = b * 2 ^ (n - 1)"
    and "au_val num < b * 2 ^ n" and "2 ^ n dvd au_val pn"
  shows "au_ok (div_loop n num d pn) \<and> au_val (div_loop n num d pn) = au_val pn + au_val num div b"
  using assms
proof (induction n arbitrary: num d pn)
  case 0
  then show ?case by simp
next
  case (Suc s)
  have d: "au_val d = b * 2 ^ s" using Suc.prems(5) by simp
  have d': "0 < s \<Longrightarrow> au_val (au_shr d 1) = b * 2 ^ (s - 1)"
    using Suc.prems(2) by (cases s) (simp_all add: au_shr_val d)
  have b: "0 < b" using Suc.prems(6) by (cases b) auto
  show ?case
  proof (cases "au_val num < au_val d")
    case True
    have "2 ^ s dvd au_val pn" using Suc.prems(7) by (rule dvd_trans [rotated]) simp
    then show ?thesis
      using Suc.IH [of num "au_shr d 1" pn] Suc.prems d d' True by (simp add: CompareTo_val)
  next
    case False
    let ?num = "au_sub num d" and ?pn = "set_result_bit s pn"
    have num: "au_val ?num = au_val num - b * 2 ^ s"
      using False Suc.prems d by (simp add: au_sub_exact)
    obtain q where q: "au_val pn = 2 ^ Suc s * q" using Suc.prems(7) by blast
    have pn: "au_val ?pn = au_val pn + 2 ^ s"
    proof -
      have "au_val ?pn = push_bit (Suc s) q OR 2 ^ s"
        using Suc.prems q by (simp add: set_result_bit_val push_bit_eq_mult mult.commute)
      then show ?thesis using or_add_nat [of "2 ^ s" "Suc s" q] q by (simp add: mult.commute)
    qed
    have "2 ^ s dvd au_val ?pn" unfolding pn q by (simp add: mult.assoc)
    moreover have "au_val ?num < b * 2 ^ s" using num Suc.prems(6) False d by simp
    ultimately have IH: "au_ok (div_loop s ?num (au_shr d 1) ?pn) \<and>
        au_val (div_loop s ?num (au_shr d 1) ?pn) = au_val ?pn + au_val ?num div b"
      using Suc.IH [of ?num "au_shr d 1" ?pn] Suc.prems d' by simp
    have "au_val num = (au_val num - b * 2 ^ s) + 2 ^ s * b" using False d by simp
    then have "au_val num div b = 2 ^ s + (au_val num - b * 2 ^ s) div b"
      using b by (metis div_mult_self1 add.commute neq0_conv)
    then show ?thesis using IH False Suc.prems num pn by (simp add: CompareTo_val)
  qed
qed

lemma au_div_val:
  assumes a: "au_ok a" and b: "au_ok b"
  shows "au_val b = 0 \<Longrightarrow> au_div a b = Inl (UintError ''Division by zero'')"
    and "au_val b \<noteq> 0 \<Longrightarrow> \<exists>q. au_div a b = Inr q \<and> au_ok q \<and> au_val q = au_val a div au_val b"
proof -
  show "au_val b = 0 \<Longrightarrow> au_div a b = Inl (UintError ''Division by zero'')"
    using au_bits_zero [OF b] by (simp add: au_div_def)
next
  assume nz: "au_val b \<noteq> 0"
  let ?n = "au_bits a" and ?d = "au_bits b"
  have d0: "?d \<noteq> 0" using au_bits_zero [OF b] nz by simp
  note A = au_bits_bounds [OF a] and B = au_bits_bounds [OF b]
  show "\<exists>q. au_div a b = Inr q \<and> au_ok q \<and> au_val q = au_val a div au_val b"
  proof (cases "?n < ?d")
    case True
    have "au_val a < 2 ^ ?n" by (rule A)
    also have "(2 :: nat) ^ ?n \<le> 2 ^ (?d - 1)" using True by (intro power_increasing) auto
    also have "\<dots> \<le> au_val b" using B nz by blast
    finally show ?thesis using True d0 by (simp add: au_div_def)
  next
    case False
    let ?s = "?n - ?d"
    have n: "?d + ?s = ?n" and n': "(?d - 1) + Suc ?s = ?n" using False d0 by simp_all
    have "au_val b * 2 ^ ?s < 2 ^ ?d * 2 ^ ?s" using B(2) by simp
    also have "\<dots> = 2 ^ ?n" by (simp only: power_add [symmetric] n)
    also have "(2 :: nat) ^ ?n \<le> 2 ^ 256" using A(1) by (intro power_increasing) auto
    finally have sh: "au_val (au_shl b ?s) = au_val b * 2 ^ ?s" using b by (simp only: au_shl_val mod_less)
    have "au_val a < 2 ^ ?n" by (rule A)
    also have "(2 :: nat) ^ ?n = 2 ^ (?d - 1) * 2 ^ Suc ?s" by (simp only: power_add [symmetric] n')
    also have "\<dots> \<le> au_val b * 2 ^ Suc ?s" using B(3) nz by (intro mult_le_mono1) blast
    finally have num: "au_val a < au_val b * 2 ^ Suc ?s" .
    have "Suc ?s \<le> 256" using A(1) d0 by linarith
    then show ?thesis
      using div_loop_val [of a "au_shl b ?s" au_zero "Suc ?s" "au_val b"] a sh num False d0
      by (simp add: au_div_def Let_def del: div_loop.simps)
  qed
qed

subsection \<open>The numbers as an interface\<close>

text \<open>
  What the code that computes work relies on: a complement, a sum and a quotient of numbers below a
  modulus.  The work of a block is computed from its target by these three operations.
\<close>

locale modular_uint =
  fixes ok :: "'a \<Rightarrow> bool" and num_of :: "'a \<Rightarrow> nat" and modulus :: nat
    and compl :: "'a \<Rightarrow> 'a" and plus_mod :: "'a \<Rightarrow> 'a \<Rightarrow> 'a" and quot :: "'a \<Rightarrow> 'a \<Rightarrow> 'e + 'a" and one :: 'a
  assumes num_less: "ok a \<Longrightarrow> num_of a < modulus"
    and ok_one: "ok one" "num_of one = 1"
    and compl_val: "ok a \<Longrightarrow> ok (compl a) \<and> num_of (compl a) = modulus - 1 - num_of a"
    and plus_val: "ok a \<Longrightarrow> ok b \<Longrightarrow> ok (plus_mod a b) \<and> num_of (plus_mod a b) = (num_of a + num_of b) mod modulus"
    and quot_val: "ok a \<Longrightarrow> ok b \<Longrightarrow> num_of b \<noteq> 0 \<Longrightarrow>
      \<exists>q. quot a b = Inr q \<and> ok q \<and> num_of q = num_of a div num_of b"
begin

text \<open>\<open>modulus div (t + 1)\<close> is computed although the modulus itself is not representable.\<close>

lemma work_quotient:
  assumes t: "ok t" "0 < num_of t" "num_of t + 1 < modulus"
  shows "\<exists>q. quot (compl t) (plus_mod t one) = Inr q \<and> ok q \<and>
    ok (plus_mod q one) \<and> num_of (plus_mod q one) = modulus div (num_of t + 1)"
proof -
  have p: "ok (plus_mod t one)" "num_of (plus_mod t one) = num_of t + 1"
    using plus_val [OF t(1) ok_one(1)] ok_one(2) t(3) by simp_all
  obtain q where q: "quot (compl t) (plus_mod t one) = Inr q" "ok q"
    "num_of q = (modulus - 1 - num_of t) div (num_of t + 1)"
    using quot_val [of "compl t" "plus_mod t one"] compl_val [OF t(1)] p by auto
  have "modulus = (modulus - 1 - num_of t) + (num_of t + 1)" using t(3) by simp
  then have "modulus div (num_of t + 1) = ((modulus - 1 - num_of t) + (num_of t + 1)) div (num_of t + 1)"
    by simp
  also have "\<dots> = (modulus - 1 - num_of t) div (num_of t + 1) + 1" by (rule div_add_self2) simp
  finally have e: "modulus div (num_of t + 1) = num_of q + 1" using q(3) by simp
  moreover have "modulus div (num_of t + 1) < modulus"
    using t(2,3) by (intro div_less_dividend) simp_all
  ultimately show ?thesis using q plus_val [OF q(2) ok_one(1)] ok_one(2) by simp
qed

end

interpretation au: modular_uint au_ok au_val "2 ^ 256" au_not au_add au_div "au_of_u64 1"
proof unfold_locales
  fix a b :: arith_uint256
  show "au_ok a \<Longrightarrow> au_val a < 2 ^ 256" by (rule au_val_bound)
  show "au_ok (au_of_u64 1)" "au_val (au_of_u64 1) = 1" by (simp_all add: au_of_u64_val)
  show "au_ok a \<Longrightarrow> au_ok (au_not a) \<and> au_val (au_not a) = 2 ^ 256 - 1 - au_val a"
    by (simp only: au_ok_ops au_not_val simp_thms)
  show "au_ok a \<Longrightarrow> au_ok b \<Longrightarrow>
      au_ok (au_add a b) \<and> au_val (au_add a b) = (au_val a + au_val b) mod 2 ^ 256"
    by (simp only: au_ok_ops au_add_val simp_thms)
  show "au_ok a \<Longrightarrow> au_ok b \<Longrightarrow> au_val b \<noteq> 0 \<Longrightarrow>
      \<exists>q. au_div a b = Inr q \<and> au_ok q \<and> au_val q = au_val a div au_val b"
    by (rule au_div_val(2))
qed

text \<open>
  C13: The 256-bit arithmetic of the node is exact.  For any two numbers held in eight limbs, the
  limb loops of \<open>operator+=\<close>, \<open>operator-=\<close> and \<open>operator*=\<close> compute the sum, difference and product
  modulo \<open>2^256\<close>, the shifts multiply (modulo \<open>2^256\<close>) and divide by the power of two,
  \<open>CompareTo\<close> is the order of the numbers, \<open>bits\<close> the position of the highest one bit, and the
  shift-and-subtract loop of \<open>operator/=\<close> returns the quotient, or throws exactly on a zero divisor.
\<close>

theorem arith_uint256_exact:
  assumes "au_ok a" "au_ok b"
  shows "au_val (au_add a b) = (au_val a + au_val b) mod 2 ^ 256 \<and>
    au_val (au_sub a b) = (au_val a + (2 ^ 256 - au_val b)) mod 2 ^ 256 \<and>
    au_val (au_mul a b) = au_val a * au_val b mod 2 ^ 256 \<and>
    au_val (au_mul32 a w) = au_val a * unat w mod 2 ^ 256 \<and>
    au_val (au_shl a s) = au_val a * 2 ^ s mod 2 ^ 256 \<and>
    au_val (au_shr a s) = au_val a div 2 ^ s \<and>
    CompareTo a b = (if au_val a < au_val b then - 1 else if au_val b < au_val a then 1 else 0) \<and>
    au_bits a = (if au_val a = 0 then 0 else Suc (LEAST n. au_val a < 2 ^ Suc n)) \<and>
    (case au_div a b of Inl e \<Rightarrow> e = UintError ''Division by zero'' \<and> au_val b = 0
      | Inr q \<Rightarrow> au_val b \<noteq> 0 \<and> au_ok q \<and> au_val q = au_val a div au_val b)"
proof (intro conjI)
  show "au_bits a = (if au_val a = 0 then 0 else Suc (LEAST n. au_val a < 2 ^ Suc n))"
  proof (cases "au_val a = 0")
    case False
    note B = au_bits_bounds [OF assms(1)]
    have p: "Suc (au_bits a - 1) = au_bits a" using False au_bits_zero [OF assms(1)] by simp
    have "(LEAST n. au_val a < 2 ^ Suc n) = au_bits a - 1"
    proof (rule Least_equality)
      show "au_val a < 2 ^ Suc (au_bits a - 1)" using B(2) by (simp only: p)
    next
      fix y
      assume "au_val a < 2 ^ Suc y"
      then have "(2 :: nat) ^ (au_bits a - 1) < 2 ^ Suc y" using B(3) False by (meson le_less_trans)
      then show "au_bits a - 1 \<le> y" by (simp del: power_Suc)
    qed
    then show ?thesis using False p by simp
  qed (simp add: au_bits_zero [OF assms(1)])
  show "case au_div a b of Inl e \<Rightarrow> e = UintError ''Division by zero'' \<and> au_val b = 0
      | Inr q \<Rightarrow> au_val b \<noteq> 0 \<and> au_ok q \<and> au_val q = au_val a div au_val b"
    using au_div_val [OF assms] by (cases "au_val b = 0") auto
qed (use assms in \<open>simp_all only: au_add_val au_sub_val au_mul_val au_mul32_val au_shl_val au_shr_val
    CompareTo_val\<close>)

theorem arith_uint256_exact_witness:
  "au_val (au_mul (au_of_u64 0xffffffffffffffff) (au_of_u64 0x100000001)) =
    0xffffffffffffffff * 0x100000001"
  using arith_uint256_exact [of "au_of_u64 0xffffffffffffffff" "au_of_u64 0x100000001" 0 0]
  by (simp add: au_of_u64_val)

end
