(* ===== verification/SC_Compact.thy ===== *)
theory SC_Compact
  imports SC_ArithUint256
begin

text \<open>
  The compact ("nBits") format of targets, \<open>SetCompact\<close> and \<open>GetCompact\<close> of \<^verbatim>\<open>arith_uint256.cpp\<close>, and
  the conversions between \<open>arith_uint256\<close> and the byte string \<open>uint256\<close>.  A compact word is a byte
  count in the top byte and a 23-bit mantissa; encoding truncates a number to its leading bytes,
  decoding an encoded number gives the truncation back.
\<close>

subsection \<open>Conversions\<close>

definition SetCompact :: "u32 \<Rightarrow> arith_uint256 \<times> bool \<times> bool" where
  "SetCompact nCompact =
     (let nSize = unat (drop_bit 24 nCompact);
          nWord0 = nCompact AND 0x007fffff;
          nWord = (if nSize \<le> 3 then drop_bit (8 * (3 - nSize)) nWord0 else nWord0);
          r = (if nSize \<le> 3 then au_of_u64 (ucast nWord)
               else au_shl (au_of_u64 (ucast nWord)) (8 * (nSize - 3)));
          fNegative = (nWord \<noteq> 0 \<and> nCompact AND 0x00800000 \<noteq> 0);
          fOverflow = (nWord \<noteq> 0 \<and> (nSize > 34 \<or> nWord > 0xff \<and> nSize > 33 \<or>
                                     nWord > 0xffff \<and> nSize > 32))
      in (r, fNegative, fOverflow))"

definition GetCompact :: "arith_uint256 \<Rightarrow> bool \<Rightarrow> abort + u32" where
  "GetCompact a fNegative =
     (let nSize0 = (au_bits a + 7) div 8;
          nCompact0 = (if nSize0 \<le> 3 then ucast (push_bit (8 * (3 - nSize0)) (GetLow64 a))
                       else ucast (GetLow64 (au_shr a (8 * (nSize0 - 3))))) :: u32;
          sign = (nCompact0 AND 0x00800000 \<noteq> 0);
          nCompact1 = (if sign then drop_bit 8 nCompact0 else nCompact0);
          nSize = (if sign then nSize0 + 1 else nSize0)
      in if nCompact1 AND NOT 0x007fffff \<noteq> 0 then Inl AssertFails
         else if \<not> nSize < 256 then Inl AssertFails
         else let nCompact2 = nCompact1 OR push_bit 24 (of_nat nSize)
              in Inr (nCompact2 OR (if fNegative \<and> nCompact2 AND 0x007fffff \<noteq> 0
                                    then 0x00800000 else 0)))"

definition ArithToUint256 :: "arith_uint256 \<Rightarrow> uint256" where
  "ArithToUint256 a = concat (map WriteLE32 a)"

definition UintToArith256 :: "uint256 \<Rightarrow> arith_uint256" where
  "UintToArith256 a = map (\<lambda>x. ReadLE32 (drop (x * 4) a)) [0..<WIDTH]"

subsection \<open>The compact format\<close>

lemma GetLow64_val: "au_ok a \<Longrightarrow> unat (GetLow64 a) = au_val a mod 2 ^ 64"
proof -
  assume "au_ok a"
  then obtain x y z where e: "a = x # y # z"
    by (auto simp: au_ok_def WIDTH_def length_Suc_conv numeral_eq_Suc)
  have "unat (ucast x :: u64) < 2 ^ 32" by simp
  then have "push_bit 32 (ucast y) OR (ucast x :: u64) = push_bit 32 (ucast y) + ucast x"
    by (rule or_add_word)
  then have "GetLow64 a = push_bit 32 (ucast y) + ucast x"
    by (simp add: GetLow64_def e or.commute)
  moreover have "unat (push_bit 32 (ucast y :: u64)) = unat y * 4294967296"
    using unat_mult_u64 [of "ucast y" 4294967296] unat_u32_less [of y]
    by (simp add: push_bit_eq_mult del: unat_u32_less)
  ultimately have g: "unat (GetLow64 a) = unat y * 4294967296 + unat x"
    using unat_u32_less [of x] unat_u32_less [of y]
    by (simp add: unat_word_ariths del: unat_u32_less)
  have "au_val a = (unat y * 4294967296 + unat x) + 18446744073709551616 * au_val z" by (simp add: e)
  moreover have "unat y * 4294967296 + unat x < 18446744073709551616"
    using unat_u32_less [of x] unat_u32_less [of y] by linarith
  ultimately show ?thesis using g by simp
qed

lemma unat_push_bit: "unat (push_bit k (w :: 'a::len word)) = unat w * 2 ^ k mod 2 ^ LENGTH('a)"
  by (subst unsigned_push_bit_eq) (simp only: push_bit_eq_mult take_bit_eq_mod)

lemma unat_less_exp_and_not_mask:
  "unat (x :: u32) < 2 ^ 23 \<Longrightarrow> x AND NOT 0x007fffff = 0"
proof -
  assume "unat x < 2 ^ 23"
  then have "take_bit 23 x = x" by (simp add: word_unat_eq_iff unsigned_take_bit_eq take_bit_nat_eq_self)
  then have "x = x AND mask 23" by (simp only: take_bit_eq_mask)
  then have "x AND NOT (mask 23) = x AND (mask 23 AND NOT (mask 23))" by (metis and.assoc)
  then show ?thesis by (simp add: mask_eq_exp_minus_1)
qed

lemma sign_bit_iff: "unat (x :: u32) < 2 ^ 24 \<Longrightarrow> x AND 0x00800000 \<noteq> 0 \<longleftrightarrow> 2 ^ 23 \<le> unat x"
proof -
  assume x: "unat x < 2 ^ 24"
  have "x AND 0x00800000 \<noteq> 0 \<longleftrightarrow> bit x 23" using and_exp_eq_0_iff_not_bit [of x 23] by simp
  also have "\<dots> \<longleftrightarrow> odd (unat x div 2 ^ 23)" by (simp only: bit_unat bit_iff_odd)
  also have "\<dots> \<longleftrightarrow> 2 ^ 23 \<le> unat x"
  proof (cases "unat x < 2 ^ 23")
    case True
    then show ?thesis by (simp add: div_less)
  next
    case False
    then have "unat x div 2 ^ 23 = 1" using x by (intro div_nat_eqI) simp_all
    then show ?thesis using False by simp
  qed
  finally show ?thesis .
qed

lemma compact_overflow:
  fixes S M :: nat
  assumes "3 < S" "M < 2 ^ 23"
  shows "2 ^ 256 \<le> M * 256 ^ (S - 3) \<longleftrightarrow>
    M \<noteq> 0 \<and> (34 < S \<or> 0xff < M \<and> 33 < S \<or> 0xffff < M \<and> 32 < S)"
proof -
  consider "34 < S" | "S = 34" | "S = 33" | "S \<le> 32" by linarith
  then show ?thesis
  proof cases
    case 1
    have "(256 :: nat) ^ 32 \<le> 256 ^ (S - 3)" using 1 by (intro power_increasing) auto
    moreover have "(256 :: nat) ^ (S - 3) \<le> M * 256 ^ (S - 3)" if "M \<noteq> 0" using that by simp
    ultimately have "256 ^ 32 \<le> M * 256 ^ (S - 3)" if "M \<noteq> 0" using that by (blast intro: order_trans)
    then show ?thesis using 1 by (cases "M = 0") simp_all
  next
    case 4
    have "(256 :: nat) ^ (S - 3) \<le> 256 ^ 29" using 4 by (intro power_increasing) auto
    then have "M * 256 ^ (S - 3) < 2 ^ 23 * 256 ^ 29"
      using assms(2) by (intro mult_less_le_imp_less) simp_all
    then have "M * 256 ^ (S - 3) < 2 ^ 256" by simp
    then show ?thesis using 4 by simp
  qed (use assms in auto)
qed

text \<open>A compact word with a non-negative sign is \<open>S * 2^24 + M\<close>: \<open>S\<close> the byte count, \<open>M\<close> the mantissa.\<close>

lemma SetCompact_val:
  assumes c: "unat c = S * 2 ^ 24 + M" and M: "M < 2 ^ 23" and S: "S < 256"
  shows "\<exists>t. SetCompact c = (t, False, 3 < S \<and> 2 ^ 256 \<le> M * 256 ^ (S - 3)) \<and> au_ok t \<and>
    au_val t = (if S \<le> 3 then M div 256 ^ (3 - S) else M * 256 ^ (S - 3) mod 2 ^ 256)"
proof -
  have w: "unat (drop_bit 24 c) = S" using c M by (simp add: unat_drop_bit)
  have m: "unat (c AND 0x007fffff) = M"
  proof -
    have "unat c = M + 2 ^ 23 * (2 * S)" using c by simp
    then have "unat c mod 2 ^ 23 = M" using M by (simp only: mod_mult_self2 mod_less)
    then show ?thesis using unat_and_mask [of c 23] by (simp add: mask_eq_exp_minus_1)
  qed
  have neg: "c AND 0x00800000 = 0"
  proof -
    have "unat c div 2 ^ 23 = 2 * S" using c M by (intro div_nat_eqI) simp_all
    then have "\<not> bit c 23" by (simp add: bit_unat bit_iff_odd)
    then show ?thesis using and_exp_eq_0_iff_not_bit [of c 23] by simp
  qed
  show ?thesis
  proof (cases "S \<le> 3")
    case True
    have "unat (drop_bit (8 * (3 - S)) (c AND 0x007fffff)) = M div 256 ^ (3 - S)"
      by (simp only: unat_drop_bit m power_mult) simp
    then show ?thesis using True
      by (simp add: SetCompact_def Let_def w neg au_of_u64_val word_less_nat_alt)
  next
    case False
    have e: "(2 :: nat) ^ 256 = 256 ^ 32" by simp
    have le: "2 ^ 256 \<le> M * 256 ^ (S - 3) \<longleftrightarrow>
        M \<noteq> 0 \<and> (34 < S \<or> 0xff < M \<and> 33 < S \<or> 0xffff < M \<and> 32 < S)"
      by (rule compact_overflow) (use False M in simp_all)
    have "au_val (au_shl (au_of_u64 (ucast (c AND 0x007fffff))) (8 * (S - 3))) =
        M * 256 ^ (S - 3) mod 2 ^ 256"
      by (simp add: au_shl_val au_of_u64_val m power_mult)
    then show ?thesis using False le
      by (simp add: SetCompact_def Let_def w neg word_less_nat_alt m word_unat_eq_iff)
  qed
qed

lemma GetCompact_size:
  assumes a: "au_ok a" and v: "au_val a \<noteq> 0"
  defines "n \<equiv> (au_bits a + 7) div 8"
  shows "0 < n" "n \<le> 32" "au_val a < 256 ^ n" "256 ^ (n - 1) \<le> au_val a"
proof -
  note A = au_bits_bounds [OF a]
  have p: "0 < au_bits a" using au_bits_zero [OF a] v by simp
  have n: "au_bits a \<le> 8 * n" "8 * (n - 1) \<le> au_bits a - 1" "0 < n" "n \<le> 32"
    using p A(1) unfolding n_def by linarith+
  show "0 < n" "n \<le> 32" by (fact n)+
  have "au_val a < 2 ^ au_bits a" by (rule A)
  also have "(2 :: nat) ^ au_bits a \<le> 2 ^ (8 * n)" using n(1) by (intro power_increasing) auto
  finally show "au_val a < 256 ^ n" by (simp add: power_mult)
  have "(2 :: nat) ^ (8 * (n - 1)) \<le> 2 ^ (au_bits a - 1)" using n(2) by (intro power_increasing) auto
  also have "\<dots> \<le> au_val a" using A(3) v by blast
  finally show "256 ^ (n - 1) \<le> au_val a" by (simp add: power_mult)
qed

text \<open>The three leading bytes of a number of \<open>n\<close> bytes.\<close>

definition leading :: "nat \<Rightarrow> nat \<Rightarrow> nat" where
  "leading n v = (if n \<le> 3 then v * 256 ^ (3 - n) else v div 256 ^ (n - 3))"

lemma leading_0 [simp]: "leading n 0 = 0"
  by (simp add: leading_def)

lemma leading_Suc: "leading (Suc n) v = leading n v div 256"
proof -
  consider "n < 3" | "n = 3" | "3 < n" by linarith
  then show ?thesis
  proof cases
    case 1
    then have "3 - n = Suc (3 - Suc n)" by simp
    then show ?thesis using 1 by (simp add: leading_def)
  next
    case 3
    then have "Suc n - 3 = Suc (n - 3)" by simp
    then show ?thesis using 3 by (simp add: leading_def div_mult2_eq [symmetric] mult.commute)
  qed (simp add: leading_def)
qed

lemma leading_bounds:
  assumes "0 < n" "v < 256 ^ n" "256 ^ (n - 1) \<le> v"
  shows "leading n v < 2 ^ 24" "2 ^ 16 \<le> leading n v"
proof -
  consider "n \<le> 3" | "3 < n" by linarith
  then have "leading n v < 2 ^ 24 \<and> 2 ^ 16 \<le> leading n v"
  proof cases
    case 1
    have e: "(256 :: nat) ^ 3 = 256 ^ n * 256 ^ (3 - n)" "(256 :: nat) ^ 2 = 256 ^ (n - 1) * 256 ^ (3 - n)"
      using 1 assms(1) by (simp_all only: power_add [symmetric]) simp_all
    have "v * 256 ^ (3 - n) < 256 ^ 3" "256 ^ 2 \<le> v * 256 ^ (3 - n)"
      unfolding e using assms by simp_all
    then show ?thesis using 1 by (simp add: leading_def)
  next
    case 2
    have "3 + (n - 3) = n" "2 + (n - 3) = n - 1" using 2 by simp_all
    then have "256 ^ n = 256 ^ 3 * (256 :: nat) ^ (n - 3)" "256 ^ (n - 1) = 256 ^ 2 * (256 :: nat) ^ (n - 3)"
      by (simp_all only: power_add [symmetric])
    then have "v < 256 ^ 3 * 256 ^ (n - 3)" "256 ^ 2 * 256 ^ (n - 3) \<le> v" using assms by metis+
    then have "v div 256 ^ (n - 3) < 256 ^ 3" "256 ^ 2 \<le> v div 256 ^ (n - 3)"
      by (simp_all add: div_less_iff_less_mult less_eq_div_iff_mult_less_eq)
    then show ?thesis using 2 by (simp add: leading_def)
  qed
  then show "leading n v < 2 ^ 24" "2 ^ 16 \<le> leading n v" by blast+
qed

lemma compact_mantissa:
  assumes a: "au_ok a" and n: "n = (au_bits a + 7) div 8" and v: "au_val a \<noteq> 0"
  shows "unat (if n \<le> 3 then ucast (push_bit (8 * (3 - n)) (GetLow64 a))
    else ucast (GetLow64 (au_shr a (8 * (n - 3)))) :: u32) = leading n (au_val a)"
proof -
  note N = GetCompact_size [OF a v, folded n] and L = leading_bounds [OF N(1) N(3) N(4)]
  show ?thesis
  proof (cases "n \<le> 3")
    case True
    have "(256 :: nat) ^ n \<le> 256 ^ 3" using True by (intro power_increasing) auto
    then have low: "unat (GetLow64 a) = au_val a" using N(3) by (simp add: GetLow64_val [OF a])
    have "unat (push_bit (8 * (3 - n)) (GetLow64 a)) = leading n (au_val a) mod 2 ^ 64"
      using True by (simp only: unat_push_bit low leading_def power_mult) simp
    then show ?thesis using True L(1) by (simp add: unat_ucast)
  next
    case False
    have "au_val (au_shr a (8 * (n - 3))) = leading n (au_val a)"
      using False by (simp add: au_shr_val [OF a] leading_def power_mult)
    then have "unat (GetLow64 (au_shr a (8 * (n - 3)))) = leading n (au_val a)"
      using L(1) by (simp add: GetLow64_val)
    then show ?thesis using False L(1) by (simp add: unat_ucast)
  qed
qed

lemma compact_word:
  assumes "unat (m :: u32) < 2 ^ 23" "n < 256"
  shows "unat (m OR push_bit 24 (of_nat n)) = n * 2 ^ 24 + unat m"
proof -
  have u: "unat (push_bit 24 (of_nat n :: u32)) = n * 2 ^ 24"
    using assms(2) by (simp only: unat_push_bit unat_of_nat) simp
  have "unat m < 2 ^ 24" using assms(1) by simp
  then have "m OR push_bit 24 (of_nat n) = push_bit 24 (of_nat n) + m"
    using or_add_word [of m 24 "of_nat n"] by (simp only: or.commute)
  then show ?thesis using u assms by (simp add: unat_word_ariths)
qed

text \<open>
  \<open>GetCompact\<close> never fails one of its assertions.  It encodes a number by a byte count \<open>S\<close> and the
  leading bytes \<open>M\<close>, a mantissa of at least 16 bits.
\<close>

lemma GetCompact_val:
  assumes a: "au_ok a" and v: "au_val a \<noteq> 0"
  shows "\<exists>c S M. GetCompact a False = Inr c \<and> unat c = S * 2 ^ 24 + M \<and> M < 2 ^ 23 \<and> 2 ^ 15 \<le> M \<and>
    0 < S \<and> S \<le> 33 \<and> M = leading S (au_val a)"
proof -
  define n where "n = (au_bits a + 7) div 8"
  define m :: u32 where "m = (if n \<le> 3 then ucast (push_bit (8 * (3 - n)) (GetLow64 a))
    else ucast (GetLow64 (au_shr a (8 * (n - 3)))))"
  note N = GetCompact_size [OF a v, folded n_def]
  have m: "unat m = leading n (au_val a)" unfolding m_def by (rule compact_mantissa [OF a n_def v])
  note L = leading_bounds [OF N(1) N(3) N(4), folded m]
  note sgn = sign_bit_iff [OF L(1)]
  show ?thesis
  proof (cases "2 ^ 23 \<le> unat m")
    case True
    let ?m = "drop_bit 8 m"
    have um: "unat ?m = leading (Suc n) (au_val a)"
      by (simp add: unat_drop_bit m leading_Suc)
    have b: "unat ?m < 2 ^ 23" "2 ^ 15 \<le> unat ?m"
      using True L by (simp_all add: unat_drop_bit div_less_iff_less_mult less_eq_div_iff_mult_less_eq)
    have "GetCompact a False = Inr (?m OR push_bit 24 (of_nat (Suc n)))"
      using True sgn unat_less_exp_and_not_mask [OF b(1)] N(2)
      by (simp add: GetCompact_def Let_def flip: n_def m_def)
    then show ?thesis using compact_word [OF b(1), of "Suc n"] b um N(2) by (intro exI conjI) auto
  next
    case False
    then have b: "unat m < 2 ^ 23" by simp
    have "GetCompact a False = Inr (m OR push_bit 24 (of_nat n))"
      using False sgn unat_less_exp_and_not_mask [OF b] N(2)
      by (simp add: GetCompact_def Let_def flip: n_def m_def)
    then show ?thesis using compact_word [OF b, of n] b L(2) m N by (intro exI conjI) auto
  qed
qed

lemma GetCompact_zero:
  assumes a: "au_ok a" and v: "au_val a = 0"
  shows "GetCompact a False = Inr 0"
proof -
  have "au_bits a = 0" using au_bits_zero [OF a] v by simp
  moreover have "GetLow64 a = 0" using GetLow64_val [OF a] v by (simp add: unat_eq_0)
  ultimately show ?thesis by (simp add: GetCompact_def)
qed

subsection \<open>Encoding and decoding a number\<close>

lemma leading_antimono: "m \<le> n \<Longrightarrow> leading n v \<le> leading m v"
  by (rule lift_Suc_antimono_le [of "\<lambda>n. leading n v"]) (simp_all add: leading_Suc)

lemma leading_less: "m < n \<Longrightarrow> leading m v < 2 ^ 23 \<Longrightarrow> leading n v < 2 ^ 15"
  using leading_antimono [of "Suc m" n v] by (simp add: leading_Suc div_less_iff_less_mult)

lemma leading_unique:
  assumes "2 ^ 15 \<le> leading m v" "leading m v < 2 ^ 23" "2 ^ 15 \<le> leading n v" "leading n v < 2 ^ 23"
  shows "m = n"
  using assms leading_less [of m n v] leading_less [of n m v] by (cases m n rule: linorder_cases) auto

lemma leading_restore:
  assumes "2 ^ 15 \<le> leading S v"
  shows "(if S \<le> 3 then leading S v div 256 ^ (3 - S) else leading S v * 256 ^ (S - 3)) \<le> v"
    and "(v - (if S \<le> 3 then leading S v div 256 ^ (3 - S) else leading S v * 256 ^ (S - 3))) * 2 ^ 15 \<le> v"
    and "leading S (if S \<le> 3 then leading S v div 256 ^ (3 - S) else leading S v * 256 ^ (S - 3)) =
      leading S v"
proof -
  let ?K = "256 ^ (S - 3) :: nat"
  have m: "v - v div ?K * ?K = v mod ?K" by (simp add: minus_div_mult_eq_mod)
  have "(v mod ?K) * 2 ^ 15 \<le> v" if "2 ^ 15 \<le> v div ?K"
  proof -
    have "v mod ?K * 2 ^ 15 \<le> ?K * (v div ?K)"
      using that by (intro mult_le_mono) simp_all
    also have "\<dots> \<le> v" by simp
    finally show ?thesis .
  qed
  then show "(v - (if S \<le> 3 then leading S v div 256 ^ (3 - S) else leading S v * 256 ^ (S - 3))) * 2 ^ 15 \<le> v"
    using assms by (auto simp: leading_def m)
qed (auto simp: leading_def)

text \<open>What is decoded from the encoding of \<open>a\<close>, and that encoding it again changes nothing.\<close>

lemma compact_encode_decode:
  assumes a: "au_ok a"
  shows "\<exists>c t. GetCompact a False = Inr c \<and> SetCompact c = (t, False, False) \<and> au_ok t \<and>
    au_val t \<le> au_val a \<and> (au_val a - au_val t) * 2 ^ 15 \<le> au_val a \<and> GetCompact t False = Inr c"
proof (cases "au_val a = 0")
  case True
  obtain t where "SetCompact 0 = (t, False, False)" "au_ok t" "au_val t = 0"
    using SetCompact_val [of 0 0 0] by auto
  then show ?thesis using GetCompact_zero [OF a True] GetCompact_zero [of t] True by auto
next
  case False
  obtain c S M where c: "GetCompact a False = Inr c" and u: "unat c = S * 2 ^ 24 + M"
    and M: "M < 2 ^ 23" "2 ^ 15 \<le> M" and S: "0 < S" "S \<le> 33" and lead: "M = leading S (au_val a)"
    using GetCompact_val [OF a False] by blast
  let ?w = "if S \<le> 3 then M div 256 ^ (3 - S) else M * 256 ^ (S - 3)"
  note R = leading_restore [of S "au_val a", folded lead, OF M(2)]
  have w: "?w < 2 ^ 256" using R(1) au_val_bound [OF a] by (rule le_less_trans)
  have "\<not> (3 < S \<and> 2 ^ 256 \<le> M * 256 ^ (S - 3))" using w by (auto split: if_splits)
  moreover have "(if S \<le> 3 then M div 256 ^ (3 - S) else M * 256 ^ (S - 3) mod 2 ^ 256) = ?w"
    using w by (cases "S \<le> 3") simp_all
  ultimately obtain t where t: "SetCompact c = (t, False, False)" "au_ok t" "au_val t = ?w"
    using SetCompact_val [OF u M(1)] S(2) by auto
  have "GetCompact t False = Inr c"
  proof -
    have "leading S (au_val t) = M" using R(3) by (simp only: t(3) lead)
    then have "au_val t \<noteq> 0" using M(2) by (cases "au_val t = 0") simp_all
    from GetCompact_val [OF t(2) this] obtain c' S' M' where c': "GetCompact t False = Inr c'"
      "unat c' = S' * 2 ^ 24 + M'" "M' < 2 ^ 23" "2 ^ 15 \<le> M'" "M' = leading S' (au_val t)" by blast
    have "S = S'"
      by (rule leading_unique [of _ "au_val t"]) (use \<open>leading S (au_val t) = M\<close> M c' in simp_all)
    then have "M = M'" using c'(5) \<open>leading S (au_val t) = M\<close> by simp
    then have "c = c'" using u c'(2) \<open>S = S'\<close> by (simp add: word_unat_eq_iff)
    then show ?thesis using c'(1) by simp
  qed
  then show ?thesis using c t R(1,2) by (intro exI conjI) (assumption | simp only: t(3))+
qed

subsection \<open>Conversions to and from byte strings\<close>

lemma UintToArith256_ok [simp]: "au_ok (UintToArith256 h)"
  by (simp add: au_ok_def UintToArith256_def)

lemma limbs_of_bytes:
  "length h = 4 * n \<Longrightarrow> concat (map WriteLE32 (map (\<lambda>x. ReadLE32 (drop (x * 4) h)) [0..<n])) = h"
proof (induction n arbitrary: h)
  case 0
  then show ?case by simp
next
  case (Suc n)
  have "map (\<lambda>x. ReadLE32 (drop (x * 4) h)) [0..<Suc n] =
      ReadLE32 h # map (\<lambda>x. ReadLE32 (drop (x * 4) (drop 4 h))) [0..<n]"
    using map_upt_Suc [of "\<lambda>x. ReadLE32 (drop (x * 4) h)" n] by (simp add: add.commute del: upt_Suc)
  moreover have "WriteLE32 (ReadLE32 h) = take 4 h"
  proof -
    have "ReadLE32 h = ReadLE32 (take 4 h)" by (simp add: ReadLE32_def)
    then show ?thesis using Suc.prems by simp
  qed
  ultimately show ?case using Suc.IH [of "drop 4 h"] Suc.prems by simp
qed

lemma au_val_bytes: "au_val a = le_nat (concat (map WriteLE32 a))"
  by (induction a) (auto simp: le_nat_append WriteLE32_def)

lemma ArithToUint256_UintToArith256: "length h = 32 \<Longrightarrow> ArithToUint256 (UintToArith256 h) = h"
  using limbs_of_bytes [of h WIDTH] by (simp add: ArithToUint256_def UintToArith256_def WIDTH_def)

lemma UintToArith256_val: "length h = 32 \<Longrightarrow> au_val (UintToArith256 h) = le_nat h"
  using ArithToUint256_UintToArith256 [of h] by (simp add: au_val_bytes ArithToUint256_def)

lemma UintToArith256_ArithToUint256:
  assumes "au_ok a"
  shows "UintToArith256 (ArithToUint256 a) = a"
proof -
  have l: "length (concat (map WriteLE32 b)) = 4 * length b" for b by (induction b) auto
  then have "length (ArithToUint256 a) = 32" using assms by (simp add: ArithToUint256_def au_ok_def WIDTH_def)
  then have "au_val (UintToArith256 (ArithToUint256 a)) = au_val a"
    by (simp add: UintToArith256_val) (simp add: ArithToUint256_def au_val_bytes)
  then show ?thesis
    using au_val_inject [of "UintToArith256 (ArithToUint256 a)" a] assms UintToArith256_ok
    by (simp add: au_ok_def)
qed

text \<open>
  C32: The compact format of targets.  \<open>GetCompact\<close> fails none of its assertions; the word it returns
  decodes, without sign and overflow, to a number that is at most the encoded one and differs from
  it by at most one part in \<open>2^15\<close>; and encoding the decoded number gives the same word, so
  the target in force is exactly the one written in the block header.
\<close>

theorem compact_roundtrip_target:
  assumes "au_ok a"
  shows "\<exists>c t. GetCompact a False = Inr c \<and> SetCompact c = (t, False, False) \<and> au_ok t \<and>
    au_val t \<le> au_val a \<and> (au_val a - au_val t) * 2 ^ 15 \<le> au_val a \<and> GetCompact t False = Inr c"
  using assms by (rule compact_encode_decode)

theorem compact_roundtrip_target_witness:
  "\<exists>c t. GetCompact (au_of_u64 0x123456789) False = Inr c \<and> SetCompact c = (t, False, False) \<and>
    au_val t \<le> 0x123456789 \<and> (0x123456789 - au_val t) * 2 ^ 15 \<le> 0x123456789 \<and> GetCompact t False = Inr c"
  using compact_roundtrip_target [of "au_of_u64 0x123456789"] by (auto simp: au_of_u64_val)

end
