(* ===== verification/SC_Chain.thy ===== *)
theory SC_Chain
  imports SC_Block SC_Compact
begin

text \<open>
  The block index (\<^verbatim>\<open>chain.h\<close>, \<^verbatim>\<open>chain.cpp\<close>, and \<open>AddToBlockIndex\<close> of \<^verbatim>\<open>validation.cpp\<close>): the tree of block
  headers with its skip list, the median time, the work of a block, and the active chain.  The
  \<open>CBlockIndex\<close> objects live in a store, a list that only grows; a pointer is a position in it and
  \<open>nullptr\<close> is \<open>None\<close>.  Every store built by \<open>AddToBlockIndex\<close> is a forest in which heights count the
  steps to the root; in such a store the skip list finds the ancestor that walking back finds.
\<close>

subsection \<open>Entries of the block index\<close>

type_synonym pindex = nat

record CBlockIndex =
  phashBlock :: "uint256 option"
  pprev :: "pindex option"
  pskip :: "pindex option"
  nHeight :: int
  bi_nFile :: int
  nDataPos :: u32
  nUndoPos :: u32
  nChainWork :: arith_uint256
  nTx :: u32
  nChainTx :: u32
  nStatus :: u32
  bi_nVersion :: int
  bi_hashMerkleRoot :: uint256
  bi_nTime :: u32
  bi_nBits :: u32
  bi_nNonce :: u32
  nSequenceId :: int
  nTimeMax :: u32

type_synonym block_store = "CBlockIndex list"

record CDiskBlockPos =
  dp_nFile :: int
  dp_nPos :: u32

definition CDiskBlockPos_null :: CDiskBlockPos where
  "CDiskBlockPos_null = \<lparr>dp_nFile = - 1, dp_nPos = 0\<rparr>"

definition CDiskBlockPos_IsNull :: "CDiskBlockPos \<Rightarrow> bool" where
  "CDiskBlockPos_IsNull p \<longleftrightarrow> dp_nFile p = - 1"

definition BLOCK_VALID_UNKNOWN :: u32 where "BLOCK_VALID_UNKNOWN = 0"
definition BLOCK_VALID_HEADER :: u32 where "BLOCK_VALID_HEADER = 1"
definition BLOCK_VALID_TREE :: u32 where "BLOCK_VALID_TREE = 2"
definition BLOCK_VALID_TRANSACTIONS :: u32 where "BLOCK_VALID_TRANSACTIONS = 3"
definition BLOCK_VALID_CHAIN :: u32 where "BLOCK_VALID_CHAIN = 4"
definition BLOCK_VALID_SCRIPTS :: u32 where "BLOCK_VALID_SCRIPTS = 5"

definition BLOCK_VALID_MASK :: u32 where
  "BLOCK_VALID_MASK = BLOCK_VALID_HEADER OR BLOCK_VALID_TREE OR BLOCK_VALID_TRANSACTIONS OR
     BLOCK_VALID_CHAIN OR BLOCK_VALID_SCRIPTS"

definition BLOCK_HAVE_DATA :: u32 where "BLOCK_HAVE_DATA = 8"
definition BLOCK_HAVE_UNDO :: u32 where "BLOCK_HAVE_UNDO = 16"
definition BLOCK_HAVE_MASK :: u32 where "BLOCK_HAVE_MASK = BLOCK_HAVE_DATA OR BLOCK_HAVE_UNDO"
definition BLOCK_FAILED_VALID :: u32 where "BLOCK_FAILED_VALID = 32"
definition BLOCK_FAILED_CHILD :: u32 where "BLOCK_FAILED_CHILD = 64"
definition BLOCK_FAILED_MASK :: u32 where "BLOCK_FAILED_MASK = BLOCK_FAILED_VALID OR BLOCK_FAILED_CHILD"
definition BLOCK_OPT_WITNESS :: u32 where "BLOCK_OPT_WITNESS = 128"

lemmas block_status_defs [flag_defs] =
  BLOCK_VALID_UNKNOWN_def BLOCK_VALID_HEADER_def BLOCK_VALID_TREE_def BLOCK_VALID_TRANSACTIONS_def
  BLOCK_VALID_CHAIN_def BLOCK_VALID_SCRIPTS_def BLOCK_VALID_MASK_def BLOCK_HAVE_DATA_def
  BLOCK_HAVE_UNDO_def BLOCK_HAVE_MASK_def BLOCK_FAILED_VALID_def BLOCK_FAILED_CHILD_def
  BLOCK_FAILED_MASK_def BLOCK_OPT_WITNESS_def

definition CBlockIndex_null :: CBlockIndex where
  "CBlockIndex_null =
    \<lparr>phashBlock = None, pprev = None, pskip = None, nHeight = 0, bi_nFile = 0, nDataPos = 0, nUndoPos = 0,
     nChainWork = au_zero, nTx = 0, nChainTx = 0, nStatus = 0, bi_nVersion = 0,
     bi_hashMerkleRoot = uint256_null, bi_nTime = 0, bi_nBits = 0, bi_nNonce = 0, nSequenceId = 0,
     nTimeMax = 0\<rparr>"

definition CBlockIndex_of_header :: "('a) CBlockHeader_scheme \<Rightarrow> CBlockIndex" where
  "CBlockIndex_of_header block = CBlockIndex_null
    \<lparr>bi_nVersion := bh_nVersion block, bi_hashMerkleRoot := hashMerkleRoot block,
     bi_nTime := bh_nTime block, bi_nBits := bh_nBits block, bi_nNonce := bh_nNonce block\<rparr>"

definition GetBlockPos :: "CBlockIndex \<Rightarrow> CDiskBlockPos" where
  "GetBlockPos b = (if nStatus b AND BLOCK_HAVE_DATA \<noteq> 0
     then \<lparr>dp_nFile = bi_nFile b, dp_nPos = nDataPos b\<rparr> else CDiskBlockPos_null)"

definition GetUndoPos :: "CBlockIndex \<Rightarrow> CDiskBlockPos" where
  "GetUndoPos b = (if nStatus b AND BLOCK_HAVE_UNDO \<noteq> 0
     then \<lparr>dp_nFile = bi_nFile b, dp_nPos = nUndoPos b\<rparr> else CDiskBlockPos_null)"

definition GetBlockHash :: "CBlockIndex \<Rightarrow> uint256" where
  "GetBlockHash b = the (phashBlock b)"

definition CBlockIndex_GetBlockHeader :: "block_store \<Rightarrow> pindex \<Rightarrow> CBlockHeader" where
  "CBlockIndex_GetBlockHeader st p =
    \<lparr>bh_nVersion = bi_nVersion (st ! p),
     hashPrevBlock = (case pprev (st ! p) of None \<Rightarrow> uint256_null | Some q \<Rightarrow> GetBlockHash (st ! q)),
     hashMerkleRoot = bi_hashMerkleRoot (st ! p), bh_nTime = bi_nTime (st ! p),
     bh_nBits = bi_nBits (st ! p), bh_nNonce = bi_nNonce (st ! p)\<rparr>"

definition GetBlockTime :: "CBlockIndex \<Rightarrow> int" where
  "GetBlockTime b = uint (bi_nTime b)"

definition GetBlockTimeMax :: "CBlockIndex \<Rightarrow> int" where
  "GetBlockTimeMax b = uint (nTimeMax b)"

definition nMedianTimeSpan :: nat where
  "nMedianTimeSpan = 11"

fun median_times :: "nat \<Rightarrow> block_store \<Rightarrow> pindex option \<Rightarrow> int list \<Rightarrow> int list" where
  "median_times (Suc i) st (Some p) pbegin =
     median_times i st (pprev (st ! p)) (GetBlockTime (st ! p) # pbegin)"
| "median_times _ st _ pbegin = pbegin"

definition GetMedianTimePast :: "block_store \<Rightarrow> pindex \<Rightarrow> int" where
  "GetMedianTimePast st p =
     (let pmedian = sort (median_times nMedianTimeSpan st (Some p) []) in pmedian ! (length pmedian div 2))"

definition IsValid :: "u32 \<Rightarrow> CBlockIndex \<Rightarrow> abort + bool" where
  "IsValid nUpTo b =
     (if nUpTo AND NOT BLOCK_VALID_MASK \<noteq> 0 then Inl AssertFails
      else if nStatus b AND BLOCK_FAILED_MASK \<noteq> 0 then Inr False
      else Inr (nStatus b AND BLOCK_VALID_MASK \<ge> nUpTo))"

definition RaiseValidity :: "u32 \<Rightarrow> CBlockIndex \<Rightarrow> abort + bool \<times> CBlockIndex" where
  "RaiseValidity nUpTo b =
     (if nUpTo AND NOT BLOCK_VALID_MASK \<noteq> 0 then Inl AssertFails
      else if nStatus b AND BLOCK_FAILED_MASK \<noteq> 0 then Inr (False, b)
      else if nStatus b AND BLOCK_VALID_MASK < nUpTo
      then Inr (True, b\<lparr>nStatus := (nStatus b AND NOT BLOCK_VALID_MASK) OR nUpTo\<rparr>)
      else Inr (False, b))"

subsection \<open>The skip list\<close>

definition InvertLowestOne :: "int \<Rightarrow> int" where
  "InvertLowestOne n = n AND (n - 1)"

definition GetSkipHeight :: "int \<Rightarrow> int" where
  "GetSkipHeight height =
     (if height < 2 then 0
      else if height AND 1 \<noteq> 0 then InvertLowestOne (InvertLowestOne (height - 1)) + 1
      else InvertLowestOne height)"

lemma InvertLowestOne_bounds: "0 \<le> n \<Longrightarrow> 0 \<le> InvertLowestOne n \<and> InvertLowestOne n \<le> n"
  "0 < n \<Longrightarrow> InvertLowestOne n < n"
proof -
  show "0 \<le> n \<Longrightarrow> 0 \<le> InvertLowestOne n \<and> InvertLowestOne n \<le> n"
    by (simp add: InvertLowestOne_def AND_upper1)
  show "0 < n \<Longrightarrow> InvertLowestOne n < n"
    using AND_upper2 [of "n - 1" n] by (simp add: InvertLowestOne_def)
qed

lemma GetSkipHeight_bounds: "0 < h \<Longrightarrow> 0 \<le> GetSkipHeight h \<and> GetSkipHeight h < h"
  using InvertLowestOne_bounds(1) [of h] InvertLowestOne_bounds(2) [of h]
    InvertLowestOne_bounds(1) [of "h - 1"] InvertLowestOne_bounds(2) [of "h - 1"]
    InvertLowestOne_bounds(1) [of "InvertLowestOne (h - 1)"]
  by (auto simp: GetSkipHeight_def)

text \<open>
  The loop of \<open>GetAncestor\<close>.  A target height that is not negative has been established before it,
  hence its type; every round lowers \<open>heightWalk\<close>, whatever the store holds.
\<close>

function GetAncestor_loop :: "block_store \<Rightarrow> pindex \<Rightarrow> int \<Rightarrow> nat \<Rightarrow> abort + pindex" where
  "GetAncestor_loop st pindexWalk heightWalk height =
     (if heightWalk > int height
      then let heightSkip = GetSkipHeight heightWalk;
               heightSkipPrev = GetSkipHeight (heightWalk - 1)
           in case pskip (st ! pindexWalk) of
                Some q \<Rightarrow>
                  if heightSkip = int height \<or>
                     (heightSkip > int height \<and>
                      \<not> (heightSkipPrev < heightSkip - 2 \<and> heightSkipPrev \<ge> int height))
                  then GetAncestor_loop st q heightSkip height
                  else (case pprev (st ! pindexWalk) of
                          None \<Rightarrow> Inl AssertFails
                        | Some r \<Rightarrow> GetAncestor_loop st r (heightWalk - 1) height)
              | None \<Rightarrow>
                  (case pprev (st ! pindexWalk) of
                     None \<Rightarrow> Inl AssertFails
                   | Some r \<Rightarrow> GetAncestor_loop st r (heightWalk - 1) height)
      else Inr pindexWalk)"
  by pat_completeness auto
termination
  by (relation "measure (\<lambda>(st, p, hw, h). nat hw)")
    (auto simp: GetSkipHeight_bounds dest: order_le_less_trans [OF of_nat_0_le_iff])

declare GetAncestor_loop.simps [simp del]

definition GetAncestor :: "block_store \<Rightarrow> pindex \<Rightarrow> int \<Rightarrow> abort + pindex option" where
  "GetAncestor st this height =
     (if height > nHeight (st ! this) \<or> height < 0 then Inr None
      else err_bind (GetAncestor_loop st this (nHeight (st ! this)) (nat height)) (\<lambda>p. Inr (Some p)))"

definition BuildSkip :: "block_store \<Rightarrow> CBlockIndex \<Rightarrow> abort + CBlockIndex" where
  "BuildSkip st b =
     (case pprev b of
        None \<Rightarrow> Inr b
      | Some p \<Rightarrow> err_bind (GetAncestor st p (GetSkipHeight (nHeight b))) (\<lambda>q. Inr (b\<lparr>pskip := q\<rparr>)))"

subsection \<open>The work of a block\<close>

definition GetBlockProof :: "CBlockIndex \<Rightarrow> abort + arith_uint256" where
  "GetBlockProof block =
     (case SetCompact (bi_nBits block) of (bnTarget, fNegative, fOverflow) \<Rightarrow>
        if fNegative \<or> fOverflow \<or> EqualTo bnTarget 0 then Inr (au_of_u64 0)
        else err_bind (au_div (au_not bnTarget) (au_add bnTarget (au_of_u64 1)))
               (\<lambda>q. Inr (au_add q (au_of_u64 1))))"

definition GetBlockProofEquivalentTime ::
  "CBlockIndex \<Rightarrow> CBlockIndex \<Rightarrow> CBlockIndex \<Rightarrow> int \<Rightarrow> abort + int" where
  "GetBlockProofEquivalentTime to from tip nPowTargetSpacing =
     (let forward = CompareTo (nChainWork to) (nChainWork from) > 0;
          r = (if forward then au_sub (nChainWork to) (nChainWork from)
               else au_sub (nChainWork from) (nChainWork to));
          sign = (if forward then 1 else - 1 :: int)
      in err_bind (GetBlockProof tip) (\<lambda>proof.
         err_bind (au_div (au_mul r (au_of_u64 (of_int nPowTargetSpacing))) proof) (\<lambda>q.
         if au_bits q > 63 then Inr (sign * 9223372036854775807)
         else Inr (sint (of_int sign * GetLow64 q)))))"

subsection \<open>The block index and its growth\<close>

record block_index =
  mapBlockIndex :: "uint256 \<Rightarrow> pindex option"
  blocks :: block_store
  pindexBestHeader :: "pindex option"
  setDirtyBlockIndex :: "pindex set"

definition block_index_empty :: block_index where
  "block_index_empty =
    \<lparr>mapBlockIndex = (\<lambda>h. None), blocks = [], pindexBestHeader = None, setDirtyBlockIndex = {}\<rparr>"

definition best_header :: "block_store \<Rightarrow> pindex option \<Rightarrow> pindex \<Rightarrow> pindex option" where
  "best_header st best p =
     (case best of
        None \<Rightarrow> Some p
      | Some b \<Rightarrow> if CompareTo (nChainWork (st ! b)) (nChainWork (st ! p)) < 0 then Some p else Some b)"

definition AddToBlockIndex :: "('a) CBlockHeader_scheme \<Rightarrow> block_index \<Rightarrow> abort + pindex \<times> block_index" where
  "AddToBlockIndex block bx =
     (let hash = CBlockHeader_GetHash block
      in case mapBlockIndex bx hash of
           Some p \<Rightarrow> Inr (p, bx)
         | None \<Rightarrow>
             let pindexNew = length (blocks bx);
                 b0 = (CBlockIndex_of_header block)\<lparr>nSequenceId := 0, phashBlock := Some hash\<rparr>;
                 m = (mapBlockIndex bx)(hash \<mapsto> pindexNew)
             in err_bind
                  (case m (hashPrevBlock block) of
                     None \<Rightarrow> Inr b0
                   | Some q \<Rightarrow>
                       BuildSkip (blocks bx @ [b0])
                         (b0\<lparr>pprev := Some q, nHeight := s32 (nHeight ((blocks bx @ [b0]) ! q) + 1)\<rparr>))
                  (\<lambda>b1.
                let b2 = b1\<lparr>nTimeMax := (case pprev b1 of
                                  None \<Rightarrow> bi_nTime b1
                                | Some q \<Rightarrow> max (nTimeMax ((blocks bx @ [b1]) ! q)) (bi_nTime b1))\<rparr>
                in err_bind (GetBlockProof b2) (\<lambda>proof.
                let b3 = b2\<lparr>nChainWork := au_add (case pprev b2 of
                                  None \<Rightarrow> au_of_u64 0
                                | Some q \<Rightarrow> nChainWork ((blocks bx @ [b2]) ! q)) proof\<rparr>
                in err_bind (RaiseValidity BLOCK_VALID_TREE b3) (\<lambda>(changed, b4).
                let st = blocks bx @ [b4]
                in Inr (pindexNew,
                        bx\<lparr>mapBlockIndex := m, blocks := st,
                           pindexBestHeader := best_header st (pindexBestHeader bx) pindexNew,
                           setDirtyBlockIndex := insert pindexNew (setDirtyBlockIndex bx)\<rparr>)))))"

subsection \<open>The forest of headers\<close>

text \<open>Walking back along \<open>pprev\<close>: the specification of \<open>GetAncestor\<close>.\<close>

fun walk_back :: "block_store \<Rightarrow> pindex \<Rightarrow> nat \<Rightarrow> pindex option" where
  "walk_back st p 0 = Some p"
| "walk_back st p (Suc n) =
     (case pprev (st ! p) of None \<Rightarrow> None | Some q \<Rightarrow> walk_back st q n)"

definition node_ok :: "block_store \<Rightarrow> pindex \<Rightarrow> bool" where
  "node_ok st p \<longleftrightarrow>
     (case pprev (st ! p) of
        None \<Rightarrow> nHeight (st ! p) = 0 \<and> pskip (st ! p) = None
      | Some q \<Rightarrow> q < p \<and> nHeight (st ! p) = nHeight (st ! q) + 1 \<and>
          (case pskip (st ! p) of
             None \<Rightarrow> True
           | Some s \<Rightarrow> walk_back st p (nat (nHeight (st ! p) - GetSkipHeight (nHeight (st ! p)))) = Some s))"

definition forest :: "block_store \<Rightarrow> bool" where
  "forest st \<longleftrightarrow> (\<forall>p<length st. node_ok st p)"

lemma walk_back_add: "walk_back st p (m + n) = Option.bind (walk_back st p m) (\<lambda>q. walk_back st q n)"
  by (induction m arbitrary: p) (auto split: option.splits)

lemma entry_prev: "node_ok st p \<Longrightarrow> pprev (st ! p) = Some q \<Longrightarrow> q < p \<and> nHeight (st ! p) = nHeight (st ! q) + 1"
  by (auto simp: node_ok_def)

lemma entry_has_prev: "node_ok st p \<Longrightarrow> 0 < nHeight (st ! p) \<Longrightarrow> \<exists>q. pprev (st ! p) = Some q"
  by (cases "pprev (st ! p)") (auto simp: node_ok_def)

lemma forest_height:
  assumes "forest st" "p < length st"
  shows "0 \<le> nHeight (st ! p) \<and> nHeight (st ! p) \<le> int p"
  using assms(2)
proof (induction p rule: less_induct)
  case (less p)
  then have e: "node_ok st p" using assms(1) by (simp add: forest_def)
  show ?case
  proof (cases "pprev (st ! p)")
    case None
    then show ?thesis using e by (simp add: node_ok_def)
  next
    case (Some q)
    then show ?thesis using entry_prev [OF e Some] less.IH [of q] less.prems by auto
  qed
qed

lemma walk_back_total:
  assumes "forest st" "p < length st" "int n \<le> nHeight (st ! p)"
  shows "\<exists>q. walk_back st p n = Some q \<and> q \<le> p \<and> nHeight (st ! q) = nHeight (st ! p) - int n"
  using assms(2,3)
proof (induction n arbitrary: p)
  case 0
  then show ?case by simp
next
  case (Suc n)
  then have e: "node_ok st p" using assms(1) by (simp add: forest_def)
  then obtain q where q: "pprev (st ! p) = Some q" using entry_has_prev [OF e] Suc.prems by auto
  then show ?case using entry_prev [OF e q] Suc.IH [of q] Suc.prems by auto
qed

lemma GetAncestor_loop_walk:
  assumes "forest st" "p < length st" "int h \<le> nHeight (st ! p)"
  shows "\<exists>q. walk_back st p (nat (nHeight (st ! p) - int h)) = Some q \<and>
    GetAncestor_loop st p (nHeight (st ! p)) h = Inr q"
  using assms(2,3)
proof (induction "nat (nHeight (st ! p) - int h)" arbitrary: p rule: less_induct)
  case (less p)
  let ?hw = "nHeight (st ! p)"
  show ?case
  proof (cases "?hw > int h")
    case False
    then show ?thesis using less.prems by (simp add: GetAncestor_loop.simps)
  next
    case True
    have e: "node_ok st p" using assms(1) less.prems by (simp add: forest_def)
    obtain r where r: "pprev (st ! p) = Some r" using entry_has_prev [OF e] True by auto
    note rp = entry_prev [OF e r]
    have IHr: "\<exists>q. walk_back st r (nat (nHeight (st ! r) - int h)) = Some q \<and>
        GetAncestor_loop st r (nHeight (st ! r)) h = Inr q"
      using less.hyps [of r] rp True less.prems by auto
    have wr: "walk_back st p (nat (?hw - int h)) = walk_back st r (nat (nHeight (st ! r) - int h))"
    proof -
      have "nat (?hw - int h) = Suc (nat (nHeight (st ! r) - int h))" using rp True by simp
      then show ?thesis using r by simp
    qed
    show ?thesis
    proof (cases "\<exists>s. pskip (st ! p) = Some s \<and> (GetSkipHeight ?hw = int h \<or>
        (GetSkipHeight ?hw > int h \<and> \<not> (GetSkipHeight (?hw - 1) < GetSkipHeight ?hw - 2 \<and>
          GetSkipHeight (?hw - 1) \<ge> int h)))")
      case False
      then have "GetAncestor_loop st p ?hw h = GetAncestor_loop st r (nHeight (st ! r)) h"
        using True r rp
        by (subst GetAncestor_loop.simps) (auto simp: Let_def split: option.splits)
      then show ?thesis using IHr wr by simp
    next
      case skip: True
      then obtain s where s: "pskip (st ! p) = Some s" by blast
      let ?k = "GetSkipHeight ?hw"
      have k: "int h \<le> ?k" "?k < ?hw" using skip True GetSkipHeight_bounds [of ?hw] by auto
      have ws: "walk_back st p (nat (?hw - ?k)) = Some s" using e r s by (auto simp: node_ok_def)
      have sp: "s < length st" "nHeight (st ! s) = ?k"
        using walk_back_total [OF assms(1) less.prems(1), of "nat (?hw - ?k)"] ws k less.prems(1) by auto
      have "GetAncestor_loop st p ?hw h = GetAncestor_loop st s ?k h"
        using True skip s by (subst GetAncestor_loop.simps) (simp add: Let_def)
      moreover have "nat (?hw - int h) = nat (?hw - ?k) + nat (?k - int h)" using k by simp
      ultimately show ?thesis
        using less.hyps [of s] sp k ws by (simp add: walk_back_add)
    qed
  qed
qed

lemma GetAncestor_walk:
  assumes "forest st" "p < length st"
  shows "GetAncestor st p h =
    Inr (if 0 \<le> h \<and> h \<le> nHeight (st ! p) then walk_back st p (nat (nHeight (st ! p) - h)) else None)"
  using GetAncestor_loop_walk [OF assms, of "nat h"] by (auto simp: GetAncestor_def)

subsection \<open>Growth keeps the forest\<close>

lemma walk_back_append:
  assumes "forest st" "p < length st"
  shows "walk_back (st @ xs) p n = walk_back st p n"
  using assms(2)
proof (induction n arbitrary: p)
  case 0
  then show ?case by simp
next
  case (Suc n)
  then have e: "node_ok st p" using assms(1) by (simp add: forest_def)
  show ?case
  proof (cases "pprev (st ! p)")
    case None
    then show ?thesis using Suc.prems by (simp add: nth_append)
  next
    case (Some q)
    then show ?thesis using entry_prev [OF e Some] Suc by (simp add: nth_append)
  qed
qed

lemma node_ok_append:
  assumes "forest st" "p < length st"
  shows "node_ok (st @ xs) p"
proof -
  have e: "node_ok st p" using assms by (simp add: forest_def)
  show ?thesis
  proof (cases "pprev (st ! p)")
    case None
    then show ?thesis using e assms(2) by (simp add: node_ok_def nth_append)
  next
    case (Some q)
    then have "q < length st" using entry_prev [OF e Some] assms(2) by simp
    then show ?thesis using e Some assms
      by (cases "pskip (st ! p)") (auto simp: node_ok_def nth_append walk_back_append)
  qed
qed

lemma forest_snoc:
  assumes "forest st" "node_ok (st @ [b]) (length st)"
  shows "forest (st @ [b])"
  unfolding forest_def
proof (intro allI impI)
  fix p
  assume "p < length (st @ [b])"
  then show "node_ok (st @ [b]) p"
    using node_ok_append [OF assms(1)] assms(2) by (cases "p = length st") auto
qed

text \<open>An entry is added with the skip pointer that \<open>BuildSkip\<close> gives it.\<close>

lemma BuildSkip_forest:
  assumes "forest st" "q < length st" "pprev b = Some q" "nHeight b = nHeight (st ! q) + 1"
  shows "\<exists>s. BuildSkip st b = Inr (b\<lparr>pskip := Some s\<rparr>) \<and>
    walk_back st q (nat (nHeight (st ! q) - GetSkipHeight (nHeight b))) = Some s"
proof -
  let ?k = "GetSkipHeight (nHeight b)"
  have h: "0 \<le> nHeight (st ! q)" using forest_height [OF assms(1,2)] by simp
  then have k: "0 \<le> ?k" "?k \<le> nHeight (st ! q)" using GetSkipHeight_bounds [of "nHeight b"] assms(4) by auto
  obtain s where s: "walk_back st q (nat (nHeight (st ! q) - ?k)) = Some s"
    using walk_back_total [OF assms(1,2), of "nat (nHeight (st ! q) - ?k)"] k by auto
  then show ?thesis using k assms(3) GetAncestor_walk [OF assms(1,2), of ?k] by (simp add: BuildSkip_def)
qed

lemma SetCompact_small:
  assumes "SetCompact c = (t, False, False)"
  shows "au_ok t \<and> au_val t + 1 < 2 ^ 256"
proof -
  define S where "S = unat c div 2 ^ 24"
  define M where "M = unat c mod 2 ^ 23"
  have c: "unat c = S * 2 ^ 24 + unat c mod 2 ^ 24" unfolding S_def by simp
  have S: "S < 256" using unat_u32_less [of c] unfolding S_def by (simp add: div_less_iff_less_mult del: unat_u32_less)
  have w: "unat (drop_bit 24 c) = S" by (simp add: unat_drop_bit S_def)
  show ?thesis
  proof (cases "unat c mod 2 ^ 24 < 2 ^ 23")
    case True
    then obtain u where u: "SetCompact c = (u, False, 3 < S \<and> 2 ^ 256 \<le> (unat c mod 2 ^ 24) * 256 ^ (S - 3))"
      "au_ok u" "au_val u = (if S \<le> 3 then (unat c mod 2 ^ 24) div 256 ^ (3 - S)
        else (unat c mod 2 ^ 24) * 256 ^ (S - 3) mod 2 ^ 256)"
      using SetCompact_val [OF c True S] by blast
    have ut: "u = t" "\<not> (3 < S \<and> 2 ^ 256 \<le> (unat c mod 2 ^ 24) * 256 ^ (S - 3))" using u(1) assms by auto
    show ?thesis
    proof (cases "S \<le> 3")
      case s3: True
      have "(unat c mod 2 ^ 24) div 256 ^ (3 - S) < 2 ^ 23" using True by (rule le_less_trans [OF div_le_dividend])
      then show ?thesis using u ut s3 by simp
    next
      case False
      let ?v = "(unat c mod 2 ^ 24) * 256 ^ (S - 3)"
      have v: "au_val t = ?v" "?v < 2 ^ 256" using u ut False by simp_all
      have "even ?v" using False by simp
      moreover have "odd (2 ^ 256 - 1 :: nat)" by simp
      ultimately have "?v \<noteq> 2 ^ 256 - 1" by metis
      then have "au_val t + 1 < 2 ^ 256" using v by linarith
      then show ?thesis using u(2) ut(1) by blast
    qed
  next
    case False
    have "unat (c AND mask 24) = unat c mod 2 ^ 24" by (rule unat_and_mask)
    then have m: "(c AND mask 24) AND 0x00800000 \<noteq> 0" using False sign_bit_iff [of "c AND mask 24"] by simp
    have "(c AND mask 24) AND 0x00800000 = c AND 0x00800000"
      by (simp add: and.assoc mask_eq_exp_minus_1)
    then have neg: "c AND 0x00800000 \<noteq> 0" using m by simp
    let ?w = "if S \<le> 3 then drop_bit (8 * (3 - S)) (c AND 0x007fffff) else c AND 0x007fffff"
    have "?w = 0" "t = (if S \<le> 3 then au_of_u64 (ucast ?w) else au_shl (au_of_u64 (ucast ?w)) (8 * (S - 3)))"
      using assms neg by (auto simp: SetCompact_def Let_def w split: if_splits)
    then have "t = au_of_u64 0 \<or> t = au_shl (au_of_u64 0) (8 * (S - 3))" by (cases "S \<le> 3") simp_all
    then show ?thesis by (auto simp: au_shl_val au_of_u64_val)
  qed
qed

text \<open>The work of a block is the expected number of hashes \<open>2^256 div (target + 1)\<close>; never an error.\<close>

lemma GetBlockProof_val:
  "\<exists>w. GetBlockProof b = Inr w \<and> au_ok w \<and>
    au_val w = (case SetCompact (bi_nBits b) of (t, neg, ov) \<Rightarrow>
      if neg \<or> ov \<or> au_val t = 0 then 0 else 2 ^ 256 div (au_val t + 1))"
proof -
  obtain t neg ov where c: "SetCompact (bi_nBits b) = (t, neg, ov)" by (cases "SetCompact (bi_nBits b)")
  have ok: "au_ok t" using c by (auto simp: SetCompact_def Let_def split: if_splits)
  show ?thesis
  proof (cases "neg \<or> ov \<or> au_val t = 0")
    case True
    then show ?thesis using c by (simp add: GetBlockProof_def EqualTo_val [OF ok] au_of_u64_val)
  next
    case False
    then have "au_val t + 1 < 2 ^ 256" using c SetCompact_small [of "bi_nBits b" t] by simp
    then obtain q where "au_div (au_not t) (au_add t (au_of_u64 1)) = Inr q" "au_ok (au_add q (au_of_u64 1))"
      "au_val (au_add q (au_of_u64 1)) = 2 ^ 256 div (au_val t + 1)"
      using au.work_quotient [OF ok] False by auto
    then show ?thesis using False c by (simp add: GetBlockProof_def EqualTo_val [OF ok])
  qed
qed

lemma node_ok_root: "pprev b = None \<Longrightarrow> nHeight b = 0 \<Longrightarrow> pskip b = None \<Longrightarrow> node_ok (st @ [b]) (length st)"
  by (simp add: node_ok_def)

lemma node_ok_child:
  assumes "forest st" "q < length st" "pprev b = Some q" "nHeight b = nHeight (st ! q) + 1"
    and "pskip b = Some s" "walk_back st q (nat (nHeight (st ! q) - GetSkipHeight (nHeight b))) = Some s"
  shows "node_ok (st @ [b]) (length st)"
proof -
  have h: "0 \<le> nHeight (st ! q)" using forest_height [OF assms(1,2)] by simp
  then have "GetSkipHeight (nHeight b) \<le> nHeight (st ! q)" using GetSkipHeight_bounds [of "nHeight b"] assms(4) by auto
  then have "nat (nHeight b - GetSkipHeight (nHeight b)) =
      Suc (nat (nHeight (st ! q) - GetSkipHeight (nHeight b)))" using assms(4) by simp
  then show ?thesis using assms by (simp add: node_ok_def nth_append walk_back_append)
qed

text \<open>What a call for a header that is not yet known adds to the store.\<close>

lemma AddToBlockIndex_new:
  assumes f: "forest (blocks bx)" and new: "mapBlockIndex bx (CBlockHeader_GetHash block) = None"
    and own: "CBlockHeader_GetHash block \<noteq> hashPrevBlock block" and len: "length (blocks bx) < 2147483648"
    and map: "\<And>q. mapBlockIndex bx (hashPrevBlock block) = Some q \<Longrightarrow> q < length (blocks bx)"
  shows "\<exists>b bx'. AddToBlockIndex block bx = Inr (length (blocks bx), bx') \<and>
    blocks bx' = blocks bx @ [b] \<and> node_ok (blocks bx @ [b]) (length (blocks bx)) \<and>
    mapBlockIndex bx' = (mapBlockIndex bx)(CBlockHeader_GetHash block \<mapsto> length (blocks bx)) \<and>
    phashBlock b = Some (CBlockHeader_GetHash block) \<and> pprev b = mapBlockIndex bx (hashPrevBlock block) \<and>
    bi_nBits b = bh_nBits block \<and> bi_nTime b = bh_nTime block \<and>
    (\<exists>w. GetBlockProof b = Inr w \<and> nChainWork b =
      au_add (case pprev b of None \<Rightarrow> au_of_u64 0 | Some q \<Rightarrow> nChainWork (blocks bx ! q)) w)"
proof -
  let ?hash = "CBlockHeader_GetHash block" and ?st = "blocks bx"
  define b0 where "b0 = (CBlockIndex_of_header block)\<lparr>nSequenceId := 0, phashBlock := Some ?hash\<rparr>"
  have b0: "pprev b0 = None" "nHeight b0 = 0" "pskip b0 = None" "nStatus b0 = 0" "phashBlock b0 = Some ?hash"
    "bi_nBits b0 = bh_nBits block" "bi_nTime b0 = bh_nTime block"
    by (simp_all add: b0_def CBlockIndex_of_header_def CBlockIndex_null_def)
  have f0: "forest (?st @ [b0])" by (rule forest_snoc [OF f node_ok_root]) (simp_all add: b0)
  obtain b1 where b1: "(case ((mapBlockIndex bx)(?hash \<mapsto> length ?st)) (hashPrevBlock block) of
        None \<Rightarrow> Inr b0
      | Some q \<Rightarrow> BuildSkip (?st @ [b0])
          (b0\<lparr>pprev := Some q, nHeight := s32 (nHeight ((?st @ [b0]) ! q) + 1)\<rparr>)) = Inr b1"
    and e1: "pprev b' = pprev b1 \<Longrightarrow> nHeight b' = nHeight b1 \<Longrightarrow> pskip b' = pskip b1 \<Longrightarrow>
        node_ok (?st @ [b']) (length ?st)"
    and p1: "pprev b1 = mapBlockIndex bx (hashPrevBlock block)" "nStatus b1 = 0" "phashBlock b1 = Some ?hash"
      "bi_nBits b1 = bh_nBits block" "bi_nTime b1 = bh_nTime block" for b'
  proof (cases "mapBlockIndex bx (hashPrevBlock block)")
    case None
    show ?thesis
      by (rule that [of b0]) (use None own b0 in \<open>simp_all add: node_ok_root\<close>)
  next
    case (Some q)
    have q: "q < length ?st" using map Some by blast
    have "in_s32 (nHeight (?st ! q) + 1)" using forest_height [OF f q] q len by (simp add: in_s32_def)
    then have h: "s32 (nHeight ((?st @ [b0]) ! q) + 1) = nHeight (?st ! q) + 1" using q by (simp add: nth_append)
    let ?b = "b0\<lparr>pprev := Some q, nHeight := nHeight (?st ! q) + 1\<rparr>"
    obtain s where s: "BuildSkip (?st @ [b0]) ?b = Inr (?b\<lparr>pskip := Some s\<rparr>)"
      "walk_back ?st q (nat (nHeight (?st ! q) - GetSkipHeight (nHeight (?st ! q) + 1))) = Some s"
      using BuildSkip_forest [OF f0, of q ?b] q walk_back_append [OF f q] by (auto simp: nth_append)
    show ?thesis
    proof (rule that [of "?b\<lparr>pskip := Some s\<rparr>"])
      fix b' :: CBlockIndex
      assume "pprev b' = pprev (?b\<lparr>pskip := Some s\<rparr>)" "nHeight b' = nHeight (?b\<lparr>pskip := Some s\<rparr>)"
        "pskip b' = pskip (?b\<lparr>pskip := Some s\<rparr>)"
      then show "node_ok (?st @ [b']) (length ?st)" using node_ok_child [OF f q, of b' s] s(2) by simp
    qed (use Some own h s b0 in simp_all)
  qed
  define b2 where "b2 = b1\<lparr>nTimeMax := (case pprev b1 of None \<Rightarrow> bi_nTime b1
      | Some q \<Rightarrow> max (nTimeMax ((?st @ [b1]) ! q)) (bi_nTime b1))\<rparr>"
  obtain w where w: "GetBlockProof b2 = Inr w" using GetBlockProof_val by blast
  define b3 where "b3 = b2\<lparr>nChainWork := au_add (case pprev b2 of None \<Rightarrow> au_of_u64 0
      | Some q \<Rightarrow> nChainWork ((?st @ [b2]) ! q)) w\<rparr>"
  have "nStatus b3 = 0" by (simp add: b3_def b2_def p1)
  then have r: "RaiseValidity BLOCK_VALID_TREE b3 = Inr (True, b3\<lparr>nStatus := 2\<rparr>)"
    by (simp add: RaiseValidity_def block_status_defs)
  have "node_ok (?st @ [b3\<lparr>nStatus := 2\<rparr>]) (length ?st)" by (rule e1) (simp_all add: b3_def b2_def)
  moreover have "phashBlock (b3\<lparr>nStatus := 2\<rparr>) = Some ?hash"
    "pprev (b3\<lparr>nStatus := 2\<rparr>) = mapBlockIndex bx (hashPrevBlock block)"
    "bi_nBits (b3\<lparr>nStatus := 2\<rparr>) = bh_nBits block" "bi_nTime (b3\<lparr>nStatus := 2\<rparr>) = bh_nTime block"
    by (simp_all add: b3_def b2_def p1)
  moreover have "GetBlockProof (b3\<lparr>nStatus := 2\<rparr>) = Inr w" using w by (simp add: GetBlockProof_def b3_def)
  moreover have "nChainWork (b3\<lparr>nStatus := 2\<rparr>) = au_add (case pprev (b3\<lparr>nStatus := 2\<rparr>) of None \<Rightarrow> au_of_u64 0
      | Some q \<Rightarrow> nChainWork (?st ! q)) w"
    using map p1(1) by (auto simp: b3_def b2_def nth_append split: option.splits)
  moreover have "AddToBlockIndex block bx = Inr (length ?st,
      bx\<lparr>mapBlockIndex := (mapBlockIndex bx)(?hash \<mapsto> length ?st), blocks := ?st @ [b3\<lparr>nStatus := 2\<rparr>],
        pindexBestHeader := best_header (?st @ [b3\<lparr>nStatus := 2\<rparr>]) (pindexBestHeader bx) (length ?st),
        setDirtyBlockIndex := insert (length ?st) (setDirtyBlockIndex bx)\<rparr>)"
    by (simp only: AddToBlockIndex_def Let_def new option.case b0_def [symmetric] b1 err_bind_simps
        b2_def [symmetric] w b3_def [symmetric] r prod.case)
  ultimately show ?thesis by auto
qed

definition index_ok :: "block_index \<Rightarrow> bool" where
  "index_ok bx \<longleftrightarrow> forest (blocks bx) \<and>
     (\<forall>h p. mapBlockIndex bx h = Some p \<longrightarrow> p < length (blocks bx) \<and> phashBlock (blocks bx ! p) = Some h)"

text \<open>
  The states of the block index a node goes through.  A header never names its own hash as its
  predecessor: the callers look the predecessor up before the header is inserted.
\<close>

inductive index_reach :: "block_index \<Rightarrow> bool" where
  index_start: "index_reach block_index_empty"
| index_add: "index_reach bx \<Longrightarrow> CBlockHeader_GetHash (block :: CBlockHeader) \<noteq> hashPrevBlock block \<Longrightarrow>
    length (blocks bx) < 2147483648 \<Longrightarrow> AddToBlockIndex block bx = Inr (p, bx') \<Longrightarrow> index_reach bx'"

lemma AddToBlockIndex_ok:
  assumes "index_ok bx" "CBlockHeader_GetHash block \<noteq> hashPrevBlock block" "length (blocks bx) < 2147483648"
  shows "\<exists>p bx'. AddToBlockIndex block bx = Inr (p, bx') \<and> index_ok bx' \<and>
    mapBlockIndex bx' (CBlockHeader_GetHash block) = Some p"
proof (cases "mapBlockIndex bx (CBlockHeader_GetHash block)")
  case (Some p)
  then show ?thesis using assms(1) by (simp add: AddToBlockIndex_def)
next
  case None
  have f: "forest (blocks bx)" and m: "\<And>h p. mapBlockIndex bx h = Some p \<Longrightarrow> p < length (blocks bx) \<and>
      phashBlock (blocks bx ! p) = Some h" using assms(1) by (auto simp: index_ok_def)
  obtain b bx' where a: "AddToBlockIndex block bx = Inr (length (blocks bx), bx')" "blocks bx' = blocks bx @ [b]"
    "node_ok (blocks bx @ [b]) (length (blocks bx))"
    "mapBlockIndex bx' = (mapBlockIndex bx)(CBlockHeader_GetHash block \<mapsto> length (blocks bx))"
    "phashBlock b = Some (CBlockHeader_GetHash block)"
    using AddToBlockIndex_new [OF f None assms(2,3)] m by blast
  have "forest (blocks bx')" using forest_snoc [OF f a(3)] a(2) by simp
  moreover have "p < length (blocks bx') \<and> phashBlock (blocks bx' ! p) = Some h"
    if "mapBlockIndex bx' h = Some p" for h p
    using that m [of h p] a by (auto simp: nth_append split: if_splits)
  ultimately show ?thesis using a by (auto simp: index_ok_def)
qed

lemma index_reach_ok: "index_reach bx \<Longrightarrow> index_ok bx"
proof (induction rule: index_reach.induct)
  case index_start
  then show ?case by (simp add: index_ok_def block_index_empty_def forest_def)
next
  case (index_add bx block p bx')
  then show ?case using AddToBlockIndex_ok [of bx block] by auto
qed

lemma index_reach_genesis:
  "\<exists>bx. index_reach bx \<and> length (blocks bx) = 1 \<and> nHeight (blocks bx ! 0) = 0 \<and> bi_nBits (blocks bx ! 0) = n"
proof -
  let ?g = "CBlockHeader_null\<lparr>hashPrevBlock := [], bh_nBits := n\<rparr>"
  have h: "CBlockHeader_GetHash ?g \<noteq> hashPrevBlock ?g"
  proof -
    have "length (CBlockHeader_GetHash ?g) = 32" by (simp add: CBlockHeader_GetHash_eq)
    then show ?thesis by auto
  qed
  obtain b bx where a: "AddToBlockIndex ?g block_index_empty = Inr (0, bx)" "blocks bx = [b]"
    "node_ok [b] 0" "pprev b = None" "bi_nBits b = n"
    using AddToBlockIndex_new [of block_index_empty ?g] h by (auto simp: block_index_empty_def forest_def)
  then have "index_reach bx" using index_add [OF index_start h] by (simp add: block_index_empty_def)
  then show ?thesis using a by (auto simp: node_ok_def)
qed

text \<open>
  C12: In every block index the node can build, the skip-list search \<open>GetAncestor\<close> returns, fails none of
  its assertions, and finds exactly the block that walking back along \<open>pprev\<close> finds; for a height
  above the block or below zero it returns the null pointer.
\<close>

theorem GetAncestor_correct:
  assumes "index_reach bx" "p < length (blocks bx)"
  shows "GetAncestor (blocks bx) p h =
    Inr (if 0 \<le> h \<and> h \<le> nHeight (blocks bx ! p)
         then walk_back (blocks bx) p (nat (nHeight (blocks bx ! p) - h)) else None)"
  using GetAncestor_walk [of "blocks bx" p h] index_reach_ok [OF assms(1)] assms(2) by (simp add: index_ok_def)

theorem GetAncestor_correct_witness:
  "\<exists>bx. index_reach bx \<and> GetAncestor (blocks bx) 0 0 = Inr (Some 0) \<and> GetAncestor (blocks bx) 0 1 = Inr None"
proof -
  obtain bx where bx: "index_reach bx" "length (blocks bx) = 1" "nHeight (blocks bx ! 0) = 0"
    using index_reach_genesis by blast
  then show ?thesis using GetAncestor_correct [OF bx(1), of 0 0] GetAncestor_correct [OF bx(1), of 0 1] by auto
qed

end
