(* ===== verification/SC_MedianTime.thy ===== *)
theory SC_MedianTime
  imports SC_Chain "HOL-Library.Multiset"
begin

text \<open>
  The median time of a block (\<open>CBlockIndex::GetMedianTimePast\<close> of \<^verbatim>\<open>chain.h\<close>): it is a block time of the
  window, and it never decreases along a chain in which every block is later than the median time of
  its predecessor, which is what \<open>ContextualCheckBlockHeader\<close> asks of a header.
\<close>

subsection \<open>Medians of lists\<close>

definition count_below :: "int \<Rightarrow> int list \<Rightarrow> nat" where
  "count_below m xs = length (filter (\<lambda>x. x < m) xs)"

lemma count_below_append: "count_below m (xs @ ys) = count_below m xs + count_below m ys"
  by (simp add: count_below_def)

lemma count_below_sort: "count_below m (sort xs) = count_below m xs"
  unfolding count_below_def by (metis mset_sort mset_filter size_mset)

lemma sorted_nth_ge_iff:
  assumes "sorted ys" "k < length ys"
  shows "m \<le> ys ! k \<longleftrightarrow> count_below m ys \<le> k"
proof -
  have split: "count_below m ys = count_below m (take k ys) + count_below m (drop k ys)"
    using count_below_append [of m "take k ys" "drop k ys"] by simp
  have d: "drop k ys = ys ! k # drop (Suc k) ys" using assms(2) by (simp add: Cons_nth_drop_Suc)
  have ge: "\<forall>x\<in>set (drop k ys). ys ! k \<le> x"
    using assms by (auto simp: in_set_conv_nth intro!: sorted_nth_mono)
  show ?thesis
  proof
    assume m: "m \<le> ys ! k"
    then have "\<forall>x\<in>set (drop k ys). \<not> x < m" using ge by force
    then have "count_below m (drop k ys) = 0" by (simp add: count_below_def filter_empty_conv)
    moreover have "count_below m (take k ys) \<le> k"
      using length_filter_le [of "\<lambda>x. x < m" "take k ys"] by (simp add: count_below_def)
    ultimately show "count_below m ys \<le> k" using split by simp
  next
    assume c: "count_below m ys \<le> k"
    show "m \<le> ys ! k"
    proof (rule ccontr)
      assume "\<not> m \<le> ys ! k"
      then have lt: "ys ! k < m" by simp
      have "\<forall>x\<in>set (take k ys). x \<le> ys ! k"
        using assms by (auto simp: in_set_conv_nth intro!: sorted_nth_mono)
      then have "filter (\<lambda>x. x < m) (take k ys) = take k ys" using lt by (auto simp: filter_id_conv)
      then have "count_below m (take k ys) = k" using assms(2) by (simp add: count_below_def)
      moreover have "1 \<le> count_below m (drop k ys)" using lt d by (simp add: count_below_def)
      ultimately show False using split c by simp
    qed
  qed
qed

definition median :: "int list \<Rightarrow> int" where
  "median xs = sort xs ! (length xs div 2)"

lemma median_ge_iff: "xs \<noteq> [] \<Longrightarrow> m \<le> median xs \<longleftrightarrow> count_below m xs \<le> length xs div 2"
  unfolding median_def using sorted_nth_ge_iff [of "sort xs" "length xs div 2" m] by (simp add: count_below_sort)

lemma median_in: "xs \<noteq> [] \<Longrightarrow> median xs \<in> set xs"
proof -
  assume "xs \<noteq> []"
  then have "sort xs ! (length xs div 2) \<in> set (sort xs)" by (intro nth_mem) simp
  then show ?thesis by (simp add: median_def)
qed

text \<open>Sliding the window over a value that is not below the median does not lower the median.\<close>

lemma median_slide:
  assumes "pre @ xs \<noteq> []" "median (pre @ xs) \<le> t" "pre = [] \<or> length pre = 1"
  shows "median (pre @ xs) \<le> median (xs @ [t])"
proof -
  let ?m = "median (pre @ xs)"
  have "count_below ?m (pre @ xs) \<le> length (pre @ xs) div 2" using median_ge_iff [OF assms(1), of ?m] by simp
  moreover have "count_below ?m (xs @ [t]) \<le> count_below ?m (pre @ xs)"
    using assms(2) by (simp add: count_below_append) (simp add: count_below_def)
  ultimately have "count_below ?m (xs @ [t]) \<le> length (xs @ [t]) div 2" using assms(3) by auto
  then show ?thesis by (simp add: median_ge_iff)
qed

subsection \<open>The window of a block\<close>

lemma median_times_acc: "median_times n st p acc = median_times n st p [] @ acc"
proof (induction n arbitrary: p acc)
  case 0
  then show ?case by simp
next
  case (Suc n)
  show ?case
  proof (cases p)
    case (Some q)
    then show ?thesis using Suc [of "pprev (st ! q)" "GetBlockTime (st ! q) # acc"] Suc [of "pprev (st ! q)" "[GetBlockTime (st ! q)]"]
      by simp
  qed simp
qed

lemma median_times_Suc:
  "median_times (Suc n) st (Some p) [] = median_times n st (pprev (st ! p)) [] @ [GetBlockTime (st ! p)]"
  using median_times_acc [of n st "pprev (st ! p)" "[GetBlockTime (st ! p)]"] by simp

lemma median_times_drop:
  "\<exists>pre. median_times (Suc n) st p [] = pre @ median_times n st p [] \<and> (pre = [] \<or> length pre = 1)"
proof (induction n arbitrary: p)
  case 0
  then show ?case by (cases p) auto
next
  case (Suc n)
  show ?case
  proof (cases p)
    case (Some q)
    obtain pre where "median_times (Suc n) st (pprev (st ! q)) [] = pre @ median_times n st (pprev (st ! q)) []"
      "pre = [] \<or> length pre = 1" using Suc by blast
    then show ?thesis unfolding Some median_times_Suc [of "Suc n"] median_times_Suc [of n] by auto
  qed simp
qed

lemma GetMedianTimePast_median:
  "GetMedianTimePast st p = median (median_times 10 st (pprev (st ! p)) [] @ [GetBlockTime (st ! p)])"
  using median_times_Suc [of 10 st p] by (simp add: GetMedianTimePast_def nMedianTimeSpan_def median_def)

lemma median_times_range:
  "list_all (\<lambda>t. 0 \<le> t \<and> t < 2 ^ 32) (median_times n st p [])"
proof (induction n arbitrary: p)
  case (Suc n)
  show ?case
  proof (cases p)
    case (Some q)
    have "0 \<le> GetBlockTime (st ! q) \<and> GetBlockTime (st ! q) < 2 ^ 32"
      using uint_lt2p [of "bi_nTime (st ! q)"] by (simp add: GetBlockTime_def)
    then show ?thesis using Suc unfolding Some median_times_Suc by simp
  qed simp
qed simp

lemma GetMedianTimePast_range: "0 \<le> GetMedianTimePast st p \<and> GetMedianTimePast st p < 2 ^ 32"
proof -
  have "list_all (\<lambda>t. 0 \<le> t \<and> t < 2 ^ 32) (median_times 10 st (pprev (st ! p)) [] @ [GetBlockTime (st ! p)])"
    using median_times_range [of "Suc 10" st "Some p"] unfolding median_times_Suc .
  then show ?thesis
    unfolding GetMedianTimePast_median list_all_iff by (rule bspec) (rule median_in, simp)
qed

subsection \<open>Monotonicity\<close>

definition timely :: "block_store \<Rightarrow> bool" where
  "timely st \<longleftrightarrow>
     (\<forall>p<length st. \<forall>q. pprev (st ! p) = Some q \<longrightarrow> GetMedianTimePast st q < GetBlockTime (st ! p))"

lemma median_time_step:
  assumes "pprev (st ! p) = Some q" "GetMedianTimePast st q \<le> GetBlockTime (st ! p)"
  shows "GetMedianTimePast st q \<le> GetMedianTimePast st p"
proof -
  obtain pre where pre: "median_times (Suc 10) st (Some q) [] = pre @ median_times 10 st (Some q) []"
    "pre = [] \<or> length pre = 1" using median_times_drop by blast
  have q: "GetMedianTimePast st q = median (pre @ median_times 10 st (Some q) [])"
    using pre(1) unfolding GetMedianTimePast_median median_times_Suc by simp
  have "pre @ median_times 10 st (Some q) [] \<noteq> []" unfolding pre(1) [symmetric] median_times_Suc by simp
  then show ?thesis using median_slide [of pre "median_times 10 st (Some q) []"] pre(2) assms q
    by (simp add: GetMedianTimePast_median [of st p])
qed

lemma median_time_walk:
  assumes "forest st" "timely st" "p < length st" "walk_back st p n = Some q"
  shows "GetMedianTimePast st q \<le> GetMedianTimePast st p"
  using assms(3,4)
proof (induction n arbitrary: p)
  case (Suc n)
  then obtain r where r: "pprev (st ! p) = Some r" "walk_back st r n = Some q" by (auto split: option.splits)
  have "node_ok st p" using assms(1) Suc.prems(1) by (simp add: forest_def)
  then have "r < length st" using entry_prev [of st p r] r(1) Suc.prems(1) by auto
  then have "GetMedianTimePast st q \<le> GetMedianTimePast st r" by (rule Suc.IH [OF _ r(2)])
  also have "\<dots> \<le> GetMedianTimePast st p"
    using assms(2) Suc.prems(1) r(1) by (intro median_time_step) (auto simp: timely_def intro: less_imp_le)
  finally show ?case .
qed simp

text \<open>
  In a forest of headers in which every block is later than the median time of its predecessor, the
  median time never decreases along a chain: that of any ancestor found by \<open>GetAncestor\<close> is at most that
  of the block, although single block times may go back.
\<close>

theorem GetMedianTimePast_monotone:
  assumes "forest st" "timely st" "p < length st" "GetAncestor st p h = Inr (Some q)"
  shows "GetMedianTimePast st q \<le> GetMedianTimePast st p"
  using assms(4) median_time_walk [OF assms(1-3)] by (auto simp: GetAncestor_walk [OF assms(1,3)] split: if_splits)

definition example_store :: block_store where
  "example_store =
    [CBlockIndex_null\<lparr>bi_nTime := 10\<rparr>,
     CBlockIndex_null\<lparr>bi_nTime := 30, pprev := Some 0, pskip := Some 0, nHeight := 1\<rparr>,
     CBlockIndex_null\<lparr>bi_nTime := 31, pprev := Some 1, pskip := Some 0, nHeight := 2\<rparr>]"

lemma example_store_forest: "forest example_store"
  by (auto simp: forest_def node_ok_def example_store_def CBlockIndex_null_def less_Suc_eq GetSkipHeight_def
      InvertLowestOne_def numeral_2_eq_2 numeral_3_eq_3)

lemma example_store_times:
  "GetMedianTimePast example_store 0 = 10" "GetMedianTimePast example_store 1 = 30" "GetMedianTimePast example_store 2 = 30"
  by (code_simp, code_simp, code_simp)

lemma example_store_simps:
  "length example_store = 3"
  "pprev (example_store ! 0) = None" "pprev (example_store ! 1) = Some 0" "pprev (example_store ! 2) = Some 1"
  "nHeight (example_store ! 0) = 0" "nHeight (example_store ! 1) = 1" "nHeight (example_store ! 2) = 2"
  "GetBlockTime (example_store ! 1) = 30" "GetBlockTime (example_store ! 2) = 31"
  by (simp_all add: example_store_def CBlockIndex_null_def GetBlockTime_def)

lemma example_store_timely: "timely example_store"
  unfolding timely_def
proof (intro allI impI)
  fix p q
  assume "p < length example_store" and q: "pprev (example_store ! p) = Some q"
  then have "p = 0 \<or> p = 1 \<or> p = 2" by (auto simp: example_store_simps(1))
  then show "GetMedianTimePast example_store q < GetBlockTime (example_store ! p)"
    using q example_store_simps(2-4,8,9) example_store_times by fastforce
qed

theorem GetMedianTimePast_monotone_witness:
  "GetAncestor example_store 2 0 = Inr (Some 0) \<and> GetMedianTimePast example_store 0 \<le> GetMedianTimePast example_store 2"
proof -
  have w: "walk_back example_store 2 2 = Some 0"
    using example_store_simps(3,4) by (simp add: numeral_2_eq_2)
  have a: "GetAncestor example_store 2 0 = Inr (Some 0)"
    using GetAncestor_walk [OF example_store_forest, of 2 0] w by (simp add: example_store_simps)
  then show ?thesis
    using GetMedianTimePast_monotone [OF example_store_forest example_store_timely _ a]
    by (simp add: example_store_simps)
qed

end
