(* ===== verification/SC_TxVerify.thy ===== *)
theory SC_TxVerify
  imports SC_CashDB SC_VerifyScript SC_MedianTime
begin

text \<open>
  The validity of a transaction (\<^verbatim>\<open>consensus/tx_verify.cpp\<close>): the checks that need no context, the
  checks of its inputs against the unspent outputs, absolute and relative lock times, and the count
  of signature operations.  A rejection is the call on the validation state that reports it, with its
  score, code, reason and corruption flag; failed assertions, thrown exceptions and the use of a null
  pointer are errors of their own.  An operation that reads the cache returns the cache it leaves
  behind when it succeeds; the callers discard the cache after an error.
\<close>

subsection \<open>Rejections\<close>

datatype reject_code = REJECT_NO_CODE | REJECT_INVALID | REJECT_OBSOLETE | REJECT_NONSTANDARD | REJECT_CHECKPOINT

datatype val_error =
    DoS int reject_code string bool
  | Invalid reject_code string
  | ValAssert
  | ValNull
  | ValThrow string
  | StateError string
  | ValCash cash_error
  | ValAbort abort

definition or_abort :: "abort + 'a \<Rightarrow> val_error + 'a" where
  "or_abort r = (case r of Inl e \<Rightarrow> Inl (ValAbort e) | Inr x \<Rightarrow> Inr x)"

definition or_cash :: "cash_error + 'a \<Rightarrow> val_error + 'a" where
  "or_cash r = (case r of Inl e \<Rightarrow> Inl (ValCash e) | Inr x \<Rightarrow> Inr x)"

lemma or_simps [simp]:
  "or_abort (Inr x) = Inr x" "or_cash (Inr x) = Inr x"
  "or_abort (Inl e) = Inl (ValAbort e)" "or_cash (Inl ce) = Inl (ValCash ce)"
  by (simp_all add: or_abort_def or_cash_def)

subsection \<open>Lock times\<close>

definition IsFinalTx :: "('a) CMutableTransaction_scheme \<Rightarrow> int \<Rightarrow> int \<Rightarrow> bool" where
  "IsFinalTx tx nBlockHeight nBlockTime =
     (if nLockTime tx = 0 then True
      else if uint (nLockTime tx) < (if uint (nLockTime tx) < LOCKTIME_THRESHOLD then nBlockHeight else nBlockTime)
      then True
      else list_all (\<lambda>txin. nSequence txin = SEQUENCE_FINAL) (vin tx))"

definition cash_time :: "block_store \<Rightarrow> pindex \<Rightarrow> int \<Rightarrow> val_error + int" where
  "cash_time st block nCashHeight =
     err_bind (or_abort (GetAncestor st block (max (s32 (nCashHeight - 1)) 0))) (\<lambda>a.
       case a of None \<Rightarrow> Inl ValNull | Some q \<Rightarrow> Inr (GetMedianTimePast st q))"

fun sequence_locks_loop ::
  "block_store \<Rightarrow> pindex \<Rightarrow> CTxIn list \<Rightarrow> int list \<Rightarrow> int \<Rightarrow> int \<Rightarrow> val_error + (int \<times> int) \<times> int list" where
  "sequence_locks_loop st block [] hs nMinHeight nMinTime = Inr ((nMinHeight, nMinTime), hs)"
| "sequence_locks_loop st block (txin # ins) (nCashHeight # hs) nMinHeight nMinTime =
    (if nSequence txin AND SEQUENCE_LOCKTIME_DISABLE_FLAG \<noteq> 0 then
       err_bind (sequence_locks_loop st block ins hs nMinHeight nMinTime) (\<lambda>(lock, hs).
       Inr (lock, 0 # hs))
     else if nSequence txin AND SEQUENCE_LOCKTIME_TYPE_FLAG \<noteq> 0 then
       err_bind (cash_time st block nCashHeight) (\<lambda>nCashTime.
       err_bind (sequence_locks_loop st block ins hs nMinHeight
         (max nMinTime (s64 (nCashTime +
            uint (push_bit SEQUENCE_LOCKTIME_GRANULARITY (nSequence txin AND SEQUENCE_LOCKTIME_MASK)) - 1))))
       (\<lambda>(lock, hs). Inr (lock, nCashHeight # hs)))
     else
       err_bind (sequence_locks_loop st block ins hs
         (max nMinHeight (s32 (nCashHeight + uint (nSequence txin AND SEQUENCE_LOCKTIME_MASK) - 1))) nMinTime)
       (\<lambda>(lock, hs). Inr (lock, nCashHeight # hs)))"
| "sequence_locks_loop st block (txin # ins) [] nMinHeight nMinTime = Inl ValAssert"

definition fEnforceBIP68 :: "('a) CMutableTransaction_scheme \<Rightarrow> u32 \<Rightarrow> bool" where
  "fEnforceBIP68 tx flags \<longleftrightarrow> (of_int (nVersion tx) :: u32) \<ge> 2 \<and> flags AND LOCKTIME_VERIFY_SEQUENCE \<noteq> 0"

definition CalculateSequenceLocks ::
  "block_store \<Rightarrow> ('a) CMutableTransaction_scheme \<Rightarrow> u32 \<Rightarrow> int list \<Rightarrow> pindex \<Rightarrow> val_error + (int \<times> int) \<times> int list" where
  "CalculateSequenceLocks st tx flags prevHeights block =
     (if length prevHeights \<noteq> length (vin tx) then Inl ValAssert
      else if \<not> fEnforceBIP68 tx flags then Inr ((- 1, - 1), prevHeights)
      else sequence_locks_loop st block (vin tx) prevHeights (- 1) (- 1))"

definition EvaluateSequenceLocks :: "block_store \<Rightarrow> pindex \<Rightarrow> int \<times> int \<Rightarrow> val_error + bool" where
  "EvaluateSequenceLocks st block lockPair =
     (case pprev (st ! block) of
        None \<Rightarrow> Inl ValAssert
      | Some q \<Rightarrow>
          let nBlockTime = GetMedianTimePast st q in
          Inr (\<not> (fst lockPair \<ge> nHeight (st ! block) \<or> snd lockPair \<ge> nBlockTime)))"

definition SequenceLocks ::
  "block_store \<Rightarrow> ('a) CMutableTransaction_scheme \<Rightarrow> u32 \<Rightarrow> int list \<Rightarrow> pindex \<Rightarrow> val_error + bool \<times> int list" where
  "SequenceLocks st tx flags prevHeights block =
     err_bind (CalculateSequenceLocks st tx flags prevHeights block) (\<lambda>(lockPair, prevHeights).
     err_bind (EvaluateSequenceLocks st block lockPair) (\<lambda>ok. Inr (ok, prevHeights)))"

subsection \<open>Signature operations\<close>

definition GetLegacySigOpCount :: "('a) CMutableTransaction_scheme \<Rightarrow> u32" where
  "GetLegacySigOpCount tx =
     (let nSigOps = foldl (\<lambda>nSigOps txin. nSigOps + of_nat (GetSigOpCount False (scriptSig txin))) 0 (vin tx) in
      foldl (\<lambda>nSigOps txout. nSigOps + of_nat (GetSigOpCount False (scriptPubKey txout))) nSigOps (vout tx))"

fun p2sh_sigops ::
  "'v CCashView \<Rightarrow> CTxIn list \<Rightarrow> u32 \<Rightarrow> 'v CCashViewCache \<Rightarrow> val_error + u32 \<times> 'v CCashViewCache" where
  "p2sh_sigops V [] nSigOps c = Inr (nSigOps, c)"
| "p2sh_sigops V (txin # ins) nSigOps c =
    (let (cash, c) = AccessCash V (prevout txin) c in
     if Cash_IsSpent cash then Inl ValAssert
     else p2sh_sigops V ins
       (if IsPayToScriptHash (scriptPubKey (cash_out cash))
        then nSigOps + of_nat (GetSigOpCount_scriptSig (scriptPubKey (cash_out cash)) (scriptSig txin))
        else nSigOps) c)"

definition GetP2SHSigOpCount ::
  "'v CCashView \<Rightarrow> ('a) CMutableTransaction_scheme \<Rightarrow> 'v CCashViewCache \<Rightarrow> val_error + u32 \<times> 'v CCashViewCache" where
  "GetP2SHSigOpCount V tx inputs =
     (if IsCashBase tx then Inr (0, inputs) else p2sh_sigops V (vin tx) 0 inputs)"

fun witness_sigops ::
  "'v CCashView \<Rightarrow> u32 \<Rightarrow> CTxIn list \<Rightarrow> int \<Rightarrow> 'v CCashViewCache \<Rightarrow> val_error + int \<times> 'v CCashViewCache" where
  "witness_sigops V flags [] nSigOps c = Inr (nSigOps, c)"
| "witness_sigops V flags (txin # ins) nSigOps c =
    (let (cash, c) = AccessCash V (prevout txin) c in
     if Cash_IsSpent cash then Inl ValAssert
     else case CountWitnessSigOps (scriptSig txin) (scriptPubKey (cash_out cash)) (scriptWitness txin) flags of
         None \<Rightarrow> Inl ValAssert
       | Some n \<Rightarrow> witness_sigops V flags ins (s64 (nSigOps + int n)) c)"

definition GetTransactionSigOpCost ::
  "'v CCashView \<Rightarrow> ('a) CMutableTransaction_scheme \<Rightarrow> 'v CCashViewCache \<Rightarrow> u32 \<Rightarrow>
    val_error + int \<times> 'v CCashViewCache" where
  "GetTransactionSigOpCost V tx inputs flags =
     (let nSigOps = uint (GetLegacySigOpCount tx * of_nat WITNESS_SCALE_FACTOR) in
      if IsCashBase tx then Inr (nSigOps, inputs)
      else err_bind
        (if has_flag flags SCRIPT_VERIFY_P2SH
         then err_bind (GetP2SHSigOpCount V tx inputs) (\<lambda>(n, c).
                Inr (s64 (nSigOps + uint (n * of_nat WITNESS_SCALE_FACTOR)), c))
         else Inr (nSigOps, inputs))
        (\<lambda>(nSigOps, c). witness_sigops V flags (vin tx) nSigOps c))"

subsection \<open>Checks without context\<close>

fun check_outputs :: "CTxOut list \<Rightarrow> CAmount \<Rightarrow> val_error + unit" where
  "check_outputs [] nValueOut = Inr ()"
| "check_outputs (txout # outs) nValueOut =
    (if nValue txout < 0 then Inl (DoS 100 REJECT_INVALID ''bad-txns-vout-negative'' False)
     else if nValue txout > MAX_MONEY then Inl (DoS 100 REJECT_INVALID ''bad-txns-vout-toolarge'' False)
     else let nValueOut = s64 (nValueOut + nValue txout) in
       if \<not> MoneyRange nValueOut then Inl (DoS 100 REJECT_INVALID ''bad-txns-txouttotal-toolarge'' False)
       else check_outputs outs nValueOut)"

fun check_duplicates :: "CTxIn list \<Rightarrow> COutPoint set \<Rightarrow> val_error + unit" where
  "check_duplicates [] vInOutPoints = Inr ()"
| "check_duplicates (txin # ins) vInOutPoints =
    (if prevout txin \<in> vInOutPoints then Inl (DoS 100 REJECT_INVALID ''bad-txns-inputs-duplicate'' False)
     else check_duplicates ins (insert (prevout txin) vInOutPoints))"

definition CheckTransaction :: "('a) CMutableTransaction_scheme \<Rightarrow> bool \<Rightarrow> val_error + unit" where
  "CheckTransaction tx fCheckDuplicateInputs =
     (if vin tx = [] then Inl (DoS 10 REJECT_INVALID ''bad-txns-vin-empty'' False)
      else if vout tx = [] then Inl (DoS 10 REJECT_INVALID ''bad-txns-vout-empty'' False)
      else if length (SerializeTransaction False tx) * WITNESS_SCALE_FACTOR > MAX_BLOCK_WEIGHT
      then Inl (DoS 100 REJECT_INVALID ''bad-txns-oversize'' False)
      else err_bind (check_outputs (vout tx) 0) (\<lambda>_.
        err_bind (if fCheckDuplicateInputs then check_duplicates (vin tx) {} else Inr ()) (\<lambda>_.
        if IsCashBase tx then
          if length (scriptSig (vin tx ! 0)) < 2 \<or> length (scriptSig (vin tx ! 0)) > 100
          then Inl (DoS 100 REJECT_INVALID ''bad-cb-length'' False)
          else Inr ()
        else if list_ex (\<lambda>txin. COutPoint_IsNull (prevout txin)) (vin tx)
        then Inl (DoS 10 REJECT_INVALID ''bad-txns-prevout-null'' False)
        else Inr ())))"

subsection \<open>Checks of the inputs\<close>

fun check_inputs ::
  "'v CCashView \<Rightarrow> int \<Rightarrow> CTxIn list \<Rightarrow> CAmount \<Rightarrow> 'v CCashViewCache \<Rightarrow> val_error + CAmount \<times> 'v CCashViewCache" where
  "check_inputs V nSpendHeight [] nValueIn c = Inr (nValueIn, c)"
| "check_inputs V nSpendHeight (txin # ins) nValueIn c =
    (let (cash, c) = AccessCash V (prevout txin) c in
     if Cash_IsSpent cash then Inl ValAssert
     else if cash_fCashBase cash \<and> s32 (nSpendHeight - int (cash_nHeight cash)) < CASHBASE_MATURITY
     then Inl (Invalid REJECT_INVALID ''bad-txns-premature-spend-of-cashbase'')
     else let nValueIn = s64 (nValueIn + nValue (cash_out cash)) in
       if \<not> MoneyRange (nValue (cash_out cash)) \<or> \<not> MoneyRange nValueIn
       then Inl (DoS 100 REJECT_INVALID ''bad-txns-inputvalues-outofrange'' False)
       else check_inputs V nSpendHeight ins nValueIn c)"

definition CheckTxInputs ::
  "'v CCashView \<Rightarrow> ('a) CMutableTransaction_scheme \<Rightarrow> int \<Rightarrow> 'v CCashViewCache \<Rightarrow>
    val_error + CAmount \<times> 'v CCashViewCache" where
  "CheckTxInputs V tx nSpendHeight inputs =
     (let (have, c) = HaveInputs V tx inputs in
      if \<not> have then Inl (DoS 100 REJECT_INVALID ''bad-txns-inputs-missingorspent'' False)
      else err_bind (check_inputs V nSpendHeight (vin tx) 0 c) (\<lambda>(nValueIn, c).
        case GetValueOut tx of
          None \<Rightarrow> Inl (ValThrow ''GetValueOut: value out of range'')
        | Some value_out \<Rightarrow>
            if nValueIn < value_out then Inl (DoS 100 REJECT_INVALID ''bad-txns-in-belowout'' False)
            else let txfee_aux = s64 (nValueIn - value_out) in
              if \<not> MoneyRange txfee_aux then Inl (DoS 100 REJECT_INVALID ''bad-txns-fee-outofrange'' False)
              else Inr (txfee_aux, c)))"

subsection \<open>What \<open>CheckTransaction\<close> accepts\<close>

lemma check_outputs_Inr:
  "MoneyRange acc \<Longrightarrow> check_outputs outs acc = Inr () \<longleftrightarrow>
    list_all (\<lambda>t. MoneyRange (nValue t)) outs \<and> acc + sum_list (map nValue outs) \<le> MAX_MONEY"
proof -
  assume acc: "MoneyRange acc"
  then have "check_outputs outs acc = Inr () \<longleftrightarrow> (\<exists>v. sum_outputs outs acc = Some v)"
    by (induction outs arbitrary: acc) (auto simp: Let_def MoneyRange_def)
  then show ?thesis using sum_outputs_Some [OF acc] by auto
qed

lemma check_duplicates_Inr:
  "check_duplicates ins seen = Inr () \<longleftrightarrow> distinct (map prevout ins) \<and> set (map prevout ins) \<inter> seen = {}"
  by (induction ins arbitrary: seen) auto

text \<open>
  C34: The transactions \<open>CheckTransaction\<close> accepts are exactly those with an input and an output, of a
  stripped size within the block limit, whose output values are all in the money range together with
  their total, with no input repeated if that is asked for, and whose first input is a script of
  2 to 100 bytes if they are cashbases and whose inputs are all set otherwise.  No sum on the way
  overflows.
\<close>

theorem CheckTransaction_exact:
  "CheckTransaction tx fCheckDuplicateInputs = Inr () \<longleftrightarrow>
    vin tx \<noteq> [] \<and> vout tx \<noteq> [] \<and> 4 * length (SerializeTransaction False tx) \<le> 4000000 \<and>
    list_all (\<lambda>txout. MoneyRange (nValue txout)) (vout tx) \<and> sum_list (map nValue (vout tx)) \<le> MAX_MONEY \<and>
    (if fCheckDuplicateInputs then distinct (map prevout (vin tx)) else True) \<and>
    (if IsCashBase tx then length (scriptSig (hd (vin tx))) \<in> {2..100}
     else list_all (\<lambda>txin. \<not> COutPoint_IsNull (prevout txin)) (vin tx))"
proof -
  have z: "MoneyRange 0" by (simp add: MoneyRange_def MAX_MONEY_def CASH_def)
  have hd: "vin tx \<noteq> [] \<Longrightarrow> vin tx ! 0 = hd (vin tx)" by (simp add: hd_conv_nth)
  show ?thesis
    using check_outputs_Inr [OF z, of "vout tx"] check_duplicates_Inr [of "vin tx" "{}"] hd
    by (auto simp: CheckTransaction_def err_bind_Inr WITNESS_SCALE_FACTOR_def MAX_BLOCK_WEIGHT_def
        list_ex_iff list_all_iff not_le not_less)
qed

subsection \<open>What \<open>CheckTxInputs\<close> accepts\<close>

definition input_ok :: "utxo \<Rightarrow> int \<Rightarrow> CTxIn \<Rightarrow> bool" where
  "input_ok u nSpendHeight txin \<longleftrightarrow>
     (case u (prevout txin) of
        None \<Rightarrow> False
      | Some cash \<Rightarrow> MoneyRange (nValue (cash_out cash)) \<and>
          \<not> (cash_fCashBase cash \<and> s32 (nSpendHeight - int (cash_nHeight cash)) < CASHBASE_MATURITY))"

definition inputs_value :: "utxo \<Rightarrow> CTxIn list \<Rightarrow> CAmount" where
  "inputs_value u ins = sum_list (map (\<lambda>txin. value_at u (prevout txin)) ins)"

lemma input_ok_value: "input_ok u h txin \<Longrightarrow> MoneyRange (value_at u (prevout txin))"
  by (auto simp: input_ok_def value_at_def split: option.splits)

lemma inputs_value_nonneg: "list_all (input_ok u h) ins \<Longrightarrow> 0 \<le> inputs_value u ins"
  by (induction ins) (auto simp: inputs_value_def MoneyRange_def dest!: input_ok_value)

context cash_view
begin

lemma check_inputs_view:
  assumes "cinv c" "check_inputs V h ins n c = Inr (m, c')"
  shows "cinv c' \<and> cutxo c' = cutxo c \<and> cv_hashBlock c' = cv_hashBlock c"
  using assms
proof (induction ins arbitrary: n c)
  case (Cons t ins)
  obtain x c1 where x: "AccessCash V (prevout t) c = (x, c1)" by force
  show ?case
    using AccessCash_spec [OF Cons.prems(1) x] Cons.IH [of c1] Cons.prems(2) x by (auto simp: Let_def split: if_splits)
qed simp

lemma check_inputs_spec:
  assumes "cinv c" "MoneyRange n"
  shows "(\<exists>c'. check_inputs V h ins n c = Inr (m, c')) \<longleftrightarrow>
    list_all (input_ok (cutxo c) h) ins \<and> m = n + inputs_value (cutxo c) ins \<and> m \<le> MAX_MONEY"
  using assms
proof (induction ins arbitrary: n c)
  case Nil
  then show ?case by (auto simp: inputs_value_def MoneyRange_def)
next
  case (Cons t ins)
  obtain x c1 where x: "AccessCash V (prevout t) c = (x, c1)" by force
  note spec = AccessCash_spec [OF Cons.prems(1) x]
  show ?case
  proof (cases "input_ok (cutxo c) h t")
    case True
    then obtain y where y: "cutxo c (prevout t) = Some y" by (auto simp: input_ok_def split: option.splits)
    then have y': "y = x" "\<not> Cash_IsSpent x" using spec by (auto simp: live_def split: if_splits)
    have mr: "MoneyRange (nValue (cash_out x))" "\<not> (cash_fCashBase x \<and> s32 (h - int (cash_nHeight x)) < CASHBASE_MATURITY)"
      and v: "value_at (cutxo c) (prevout t) = nValue (cash_out x)"
      using True y y' by (simp_all add: input_ok_def value_at_def)
    have s: "s64 (n + nValue (cash_out x)) = n + nValue (cash_out x)" using MoneyRange_s64 [OF Cons.prems(2) mr(1)] .
    show ?thesis
    proof (cases "MoneyRange (n + nValue (cash_out x))")
      case r: True
      have step: "check_inputs V h (t # ins) n c = check_inputs V h ins (n + nValue (cash_out x)) c1"
        using x y' mr s r by (auto simp: Let_def)
      show ?thesis using Cons.IH [OF _ r, of c1] spec True v unfolding step by (simp add: inputs_value_def add.assoc)
    next
      case r: False
      then have "check_inputs V h (t # ins) n c \<noteq> Inr z" for z using x y' mr s by (auto simp: Let_def)
      moreover have "\<not> (list_all (input_ok (cutxo c) h) ins \<and> n + inputs_value (cutxo c) (t # ins) \<le> MAX_MONEY)"
        using r Cons.prems(2) mr(1) v inputs_value_nonneg [of "cutxo c" h ins] by (auto simp: MoneyRange_def inputs_value_def)
      ultimately show ?thesis by auto
    qed
  next
    case False
    then have "check_inputs V h (t # ins) n c \<noteq> Inr z" for z
      using x spec by (cases "cutxo c (prevout t)") (auto simp: input_ok_def Let_def live_def split: if_splits)
    then show ?thesis using False by simp
  qed
qed

lemma check_inputs_no_assert:
  assumes "cinv c" "list_all (\<lambda>txin. cutxo c (prevout txin) \<noteq> None) ins"
  shows "check_inputs V h ins n c \<noteq> Inl ValAssert"
  using assms
proof (induction ins arbitrary: n c)
  case (Cons t ins)
  obtain x c1 where x: "AccessCash V (prevout t) c = (x, c1)" by force
  note spec = AccessCash_spec [OF Cons.prems(1) x]
  have "\<not> Cash_IsSpent x" using spec Cons.prems(2) by (auto simp: live_def split: if_splits)
  then show ?case using Cons.IH [of c1] spec Cons.prems(2) x by (simp add: Let_def)
qed simp

lemma HaveInputs_spec:
  assumes "cinv c" "HaveInputs V tx c = (r, c')"
  shows "cinv c' \<and> cutxo c' = cutxo c \<and> cv_hashBlock c' = cv_hashBlock c \<and>
    r = (IsCashBase tx \<or> list_all (\<lambda>txin. cutxo c (prevout txin) \<noteq> None) (vin tx))"
  using assms have_inputs_spec [OF assms(1), of "vin tx" r c'] by (auto simp: HaveInputs_def split: if_splits)

lemma CheckTxInputs_view:
  assumes "cinv c" "CheckTxInputs V tx h c = Inr (fee, c')"
  shows "cinv c' \<and> cutxo c' = cutxo c \<and> cv_hashBlock c' = cv_hashBlock c"
proof -
  obtain r c1 where h: "HaveInputs V tx c = (r, c1)" by force
  show ?thesis
    using HaveInputs_spec [OF assms(1) h] assms(2) h check_inputs_view [of c1 h "vin tx" 0]
    by (auto simp: CheckTxInputs_def Let_def err_bind_Inr split: if_splits option.splits)
qed

lemma CheckTxInputs_no_assert:
  assumes "cinv c" "\<not> IsCashBase tx"
  shows "CheckTxInputs V tx h c \<noteq> Inl ValAssert"
proof -
  obtain r c1 where h: "HaveInputs V tx c = (r, c1)" by force
  note spec = HaveInputs_spec [OF assms(1) h]
  show ?thesis
  proof (cases r)
    case True
    then have "check_inputs V h (vin tx) 0 c1 \<noteq> Inl ValAssert" using spec assms(2) by (intro check_inputs_no_assert) auto
    then show ?thesis using h True
      by (cases "check_inputs V h (vin tx) 0 c1") (auto simp: CheckTxInputs_def Let_def split: option.splits if_splits)
  qed (use h in \<open>simp add: CheckTxInputs_def\<close>)
qed

lemma CheckTxInputs_spec:
  assumes "cinv c"
  shows "(\<exists>c'. CheckTxInputs V tx h c = Inr (fee, c')) \<longleftrightarrow>
      list_all (input_ok (cutxo c) h) (vin tx) \<and> inputs_value (cutxo c) (vin tx) \<le> MAX_MONEY \<and>
      list_all (\<lambda>txout. MoneyRange (nValue txout)) (vout tx) \<and>
      fee = inputs_value (cutxo c) (vin tx) - sum_list (map nValue (vout tx)) \<and> 0 \<le> fee"
    (is "_ \<longleftrightarrow> ?ins \<and> ?le \<and> ?outs \<and> ?fee \<and> _")
proof -
  have z: "MoneyRange 0" by (simp add: MoneyRange_def MAX_MONEY_def CASH_def)
  obtain r c1 where h: "HaveInputs V tx c = (r, c1)" by force
  note spec = HaveInputs_spec [OF assms(1) h]
  have r: "?ins \<Longrightarrow> r" using spec by (auto simp: input_ok_def list_all_iff split: option.splits)
  have outs: "?outs \<Longrightarrow> 0 \<le> sum_list (map nValue (vout tx))"
    by (induction "vout tx") (auto simp: MoneyRange_def list_all_iff intro!: sum_list_nonneg)
  have fee: "s64 (a - b) = a - b" if "0 \<le> b" "b \<le> a" "a \<le> MAX_MONEY" for a b
    using that by (intro s64_id) (simp add: in_s64_def MAX_MONEY_def CASH_def)
  have out: "GetValueOut tx = Some v \<longleftrightarrow> ?outs \<and> v = sum_list (map nValue (vout tx)) \<and> v \<le> MAX_MONEY" for v
    using sum_outputs_Some [OF z, of "vout tx" v] by (simp add: GetValueOut_def)
  have "(\<exists>c'. CheckTxInputs V tx h c = Inr (fee, c')) \<longleftrightarrow>
    r \<and> (\<exists>m c' v. check_inputs V h (vin tx) 0 c1 = Inr (m, c') \<and> GetValueOut tx = Some v \<and> v \<le> m \<and>
      fee = s64 (m - v) \<and> MoneyRange (s64 (m - v)))"
    using h by (cases "GetValueOut tx") (auto simp: CheckTxInputs_def Let_def err_bind_Inr not_less split: if_splits)
  also have "\<dots> \<longleftrightarrow> r \<and> (\<exists>m v. (\<exists>c'. check_inputs V h (vin tx) 0 c1 = Inr (m, c')) \<and> GetValueOut tx = Some v \<and> v \<le> m \<and>
      fee = s64 (m - v) \<and> MoneyRange (s64 (m - v)))" by blast
  also have "\<dots> \<longleftrightarrow> ?ins \<and> ?le \<and> ?outs \<and> ?fee \<and> 0 \<le> fee"
    using check_inputs_spec [OF _ z, of c1 h "vin tx"] spec r outs fee
    by (auto simp: out MoneyRange_def)
  finally show ?thesis .
qed

end

text \<open>
  C8: On the stack of caches over the database, \<open>CheckTxInputs\<close> accepts exactly the transactions whose
  inputs are all unspent, mature and in the money range with their total, whose outputs are in the
  money range, and which spend at least what they pay; the fee is the exact difference.  The check
  leaves the set of unspent outputs as it was, and its assertion cannot fail unless the transaction is
  a cashbase.
\<close>

theorem CheckTxInputs_exact:
  assumes "block_inv c"
  shows "((\<exists>c'. CheckTxInputs (tip_view full) tx h c = Inr (fee, c') \<and> block_inv c' \<and> block_utxo c' = block_utxo c) \<longleftrightarrow>
      list_all (input_ok (block_utxo c) h) (vin tx) \<and> inputs_value (block_utxo c) (vin tx) \<le> MAX_MONEY \<and>
      list_all (\<lambda>txout. MoneyRange (nValue txout)) (vout tx) \<and>
      fee = inputs_value (block_utxo c) (vin tx) - sum_list (map nValue (vout tx)) \<and> 0 \<le> fee) \<and>
    (CheckTxInputs (tip_view full) tx h c = Inl ValAssert \<longrightarrow> IsCashBase tx)"
  using tip.CheckTxInputs_spec [OF assms, of full tx h fee] tip.CheckTxInputs_view [OF assms, of full tx h fee]
    tip.CheckTxInputs_no_assert [OF assms, of tx full h] by blast

definition example_spend :: CMutableTransaction where
  "example_spend =
    \<lparr>nVersion = 2, vin = [\<lparr>prevout = out_at uint256_null 1, scriptSig = [], nSequence = 0, scriptWitness = []\<rparr>],
     vout = [\<lparr>nValue = 5, scriptPubKey = [OP_1]\<rparr>], nLockTime = 0\<rparr>"

abbreviation example_view :: "cash_db CCashViewCache CCashViewCache" where
  "example_view \<equiv> CCashViewCache_new (CCashViewCache_new example_db)"

lemma example_view_inv: "block_inv example_view"
  using example_db_inv by (simp add: cache_inv_def CCashViewCache_new_def map_ok_def)

lemma example_view_utxo: "block_utxo example_view = [out_at uint256_null 1 \<mapsto> example_cash]"
  by (simp add: cache_utxo_def CCashViewCache_new_def example_db_def)

theorem CheckTxInputs_exact_witness:
  "block_inv example_view \<and>
   (\<exists>c'. CheckTxInputs (tip_view (\<lambda>_. False)) example_spend 200 example_view = Inr (2, c'))"
  using CheckTxInputs_exact [OF example_view_inv, of "\<lambda>_. False" example_spend 200 2] example_view_inv
  by (auto simp: example_view_utxo example_spend_def input_ok_def inputs_value_def value_at_def example_cash_def
      MoneyRange_def MAX_MONEY_def CASH_def Cash_new_def)

subsection \<open>Relative lock times\<close>

definition lock_value :: "CTxIn \<Rightarrow> int" where
  "lock_value txin = uint (nSequence txin AND SEQUENCE_LOCKTIME_MASK)"

text \<open>The relative lock of one input, as BIP 68 states it: blocks, or units of 512 seconds.\<close>

definition lock_ok :: "block_store \<Rightarrow> pindex \<Rightarrow> pindex \<Rightarrow> CTxIn \<Rightarrow> int \<Rightarrow> bool" where
  "lock_ok st block prev txin nCashHeight \<longleftrightarrow>
     (if nSequence txin AND SEQUENCE_LOCKTIME_DISABLE_FLAG \<noteq> 0 then True
      else if nSequence txin AND SEQUENCE_LOCKTIME_TYPE_FLAG \<noteq> 0 then
        (case walk_back st block (nat (nHeight (st ! block) - max (nCashHeight - 1) 0)) of
           None \<Rightarrow> False
         | Some q \<Rightarrow> GetMedianTimePast st q + 512 * lock_value txin \<le> GetMedianTimePast st prev)
      else nCashHeight + lock_value txin \<le> nHeight (st ! block))"

lemma lock_value_range: "0 \<le> lock_value txin \<and> lock_value txin < 65536"
proof -
  have "nSequence txin AND SEQUENCE_LOCKTIME_MASK \<le> SEQUENCE_LOCKTIME_MASK" by (rule word_and_le1)
  then have "lock_value txin \<le> 65535" by (simp add: lock_value_def word_le_def SEQUENCE_LOCKTIME_MASK_def)
  then show ?thesis by (simp add: lock_value_def)
qed

lemma lock_value_shift:
  "uint (push_bit SEQUENCE_LOCKTIME_GRANULARITY (nSequence txin AND SEQUENCE_LOCKTIME_MASK)) = 512 * lock_value txin"
proof -
  have "uint (push_bit 9 w) = uint w * 512" if "uint w < 65536" for w :: u32
    using that by (simp add: push_bit_eq_mult uint_word_ariths(3))
  from this [of "nSequence txin AND SEQUENCE_LOCKTIME_MASK"] lock_value_range [of txin]
  show ?thesis by (simp add: lock_value_def)
qed

lemma cash_time_walk:
  assumes "forest st" "block < length st" "0 \<le> h" "h \<le> nHeight (st ! block)" "nHeight (st ! block) < 2 ^ 31"
  shows "\<exists>q. walk_back st block (nat (nHeight (st ! block) - max (h - 1) 0)) = Some q \<and>
    cash_time st block h = Inr (GetMedianTimePast st q)"
proof -
  let ?m = "max (h - 1) 0"
  have m: "s32 (h - 1) = h - 1" using assms by (intro s32_id) (simp add: in_s32_def)
  have b: "0 \<le> ?m" "?m \<le> nHeight (st ! block)" using assms(3,4) by auto
  then obtain q where q: "walk_back st block (nat (nHeight (st ! block) - ?m)) = Some q"
    using walk_back_total [OF assms(1,2), of "nat (nHeight (st ! block) - ?m)"] by auto
  have "GetAncestor st block ?m = Inr (Some q)" using GetAncestor_walk [OF assms(1,2), of ?m] b q by simp
  then show ?thesis using q by (simp add: cash_time_def m)
qed

lemma sequence_locks_loop_spec:
  assumes "forest st" "block < length st" "nHeight (st ! block) < 2 ^ 31 - 65536"
    and "length hs = length ins" "list_all (\<lambda>h. 0 \<le> h \<and> h \<le> nHeight (st ! block)) hs"
  shows "\<exists>a b hs'. sequence_locks_loop st block ins hs mh mt = Inr ((a, b), hs') \<and> length hs' = length hs \<and>
    (a < nHeight (st ! block) \<and> b < GetMedianTimePast st prev \<longleftrightarrow>
     mh < nHeight (st ! block) \<and> mt < GetMedianTimePast st prev \<and> list_all2 (lock_ok st block prev) ins hs)"
  using assms(4,5)
proof (induction ins arbitrary: hs mh mt)
  case Nil
  then show ?case by simp
next
  case (Cons t ins)
  then obtain h hs0 where hs: "hs = h # hs0" "length hs0 = length ins" by (cases hs) auto
  have h: "0 \<le> h" "h \<le> nHeight (st ! block)" "list_all (\<lambda>h. 0 \<le> h \<and> h \<le> nHeight (st ! block)) hs0"
    using Cons.prems hs by auto
  note IH = Cons.IH [OF hs(2) h(3)]
  consider (off) "nSequence t AND SEQUENCE_LOCKTIME_DISABLE_FLAG \<noteq> 0"
    | (time) "nSequence t AND SEQUENCE_LOCKTIME_DISABLE_FLAG = 0" "nSequence t AND SEQUENCE_LOCKTIME_TYPE_FLAG \<noteq> 0"
    | (height) "nSequence t AND SEQUENCE_LOCKTIME_DISABLE_FLAG = 0" "nSequence t AND SEQUENCE_LOCKTIME_TYPE_FLAG = 0"
    by blast
  then show ?case
  proof cases
    case off
    then have "lock_ok st block prev t h" by (simp add: lock_ok_def)
    with off show ?thesis using IH [of mh mt] by (auto simp: hs)
  next
    case time
    have "nHeight (st ! block) < 2 ^ 31" using assms(3) by simp
    then obtain q where q: "walk_back st block (nat (nHeight (st ! block) - max (h - 1) 0)) = Some q"
      "cash_time st block h = Inr (GetMedianTimePast st q)"
      using cash_time_walk [OF assms(1,2) h(1,2)] by blast
    have s: "s64 (GetMedianTimePast st q + 512 * lock_value t - 1) = GetMedianTimePast st q + 512 * lock_value t - 1"
      using GetMedianTimePast_range [of st q] lock_value_range [of t] by (intro s64_id) (simp add: in_s64_def)
    have "lock_ok st block prev t h \<longleftrightarrow> GetMedianTimePast st q + 512 * lock_value t - 1 < GetMedianTimePast st prev"
      using time q(1) by (auto simp: lock_ok_def)
    with time show ?thesis
      using IH [of mh "max mt (GetMedianTimePast st q + 512 * lock_value t - 1)"]
      by (auto simp: hs q lock_value_shift s simp del: push_bit_and)
  next
    case height
    have s: "s32 (h + lock_value t - 1) = h + lock_value t - 1"
      using h assms(3) lock_value_range [of t] by (intro s32_id) (simp add: in_s32_def)
    have "lock_ok st block prev t h \<longleftrightarrow> h + lock_value t - 1 < nHeight (st ! block)"
      using height by (auto simp: lock_ok_def)
    with height show ?thesis
      using IH [of "max mh (h + lock_value t - 1)" mt] s by (auto simp: hs lock_value_def)
  qed
qed

text \<open>
  C35: In a forest of headers, as every block index the node builds is, \<open>SequenceLocks\<close> returns, with no
  failed assertion and no null pointer, and holds exactly when relative lock times are not enforced
  for the transaction or every input satisfies its own: the block is at least as many blocks above the
  spent output as the sequence number asks for, or the median time before the block is at least as
  many units of 512 seconds after the median time before the output.
\<close>

theorem SequenceLocks_exact:
  assumes "forest st" "block < length st" "nHeight (st ! block) < 2147418112" "pprev (st ! block) = Some prev"
    and "length prevHeights = length (vin tx)" "list_all (\<lambda>h. 0 \<le> h \<and> h \<le> nHeight (st ! block)) prevHeights"
  shows "\<exists>ok hs. SequenceLocks st tx flags prevHeights block = Inr (ok, hs) \<and>
    ok = (if fEnforceBIP68 tx flags then list_all2 (lock_ok st block prev) (vin tx) prevHeights else True)"
proof -
  have e: "node_ok st block" using assms(1,2) by (simp add: forest_def)
  have p: "prev < length st" "nHeight (st ! block) = nHeight (st ! prev) + 1"
    using entry_prev [OF e assms(4)] assms(2) by auto
  have base: "- 1 < nHeight (st ! block)" "- 1 < GetMedianTimePast st prev"
    using forest_height [OF assms(1) p(1)] p(2) GetMedianTimePast_range [of st prev] by auto
  have bound: "nHeight (st ! block) < 2 ^ 31 - 65536" using assms(3) by simp
  show ?thesis
  proof (cases "fEnforceBIP68 tx flags")
    case True
    then show ?thesis
      using sequence_locks_loop_spec [OF assms(1,2) bound assms(5,6), of "- 1" "- 1" prev] base assms(4,5)
      by (auto simp: SequenceLocks_def CalculateSequenceLocks_def EvaluateSequenceLocks_def Let_def not_le)
  next
    case False
    then show ?thesis
      using base assms(4,5) by (auto simp: SequenceLocks_def CalculateSequenceLocks_def EvaluateSequenceLocks_def Let_def not_le)
  qed
qed

theorem SequenceLocks_exact_witness:
  "\<exists>hs hs'. SequenceLocks example_store (example_spend\<lparr>vin := map (nSequence_update (\<lambda>_. 1)) (vin example_spend)\<rparr>) 1 [1] 1 = Inr (False, hs) \<and>
    SequenceLocks example_store (example_spend\<lparr>vin := map (nSequence_update (\<lambda>_. 1)) (vin example_spend)\<rparr>) 1 [0] 1 = Inr (True, hs')"
proof -
  let ?tx = "example_spend\<lparr>vin := map (nSequence_update (\<lambda>_. 1)) (vin example_spend)\<rparr>"
  have st: "1 < length example_store" "nHeight (example_store ! 1) = 1" "pprev (example_store ! 1) = Some 0"
    using example_store_simps(1,3,6) by auto
  have en: "fEnforceBIP68 ?tx 1"
    by (simp add: fEnforceBIP68_def example_spend_def LOCKTIME_VERIFY_SEQUENCE_def)
  have lv: "lock_ok example_store 1 0 (vin ?tx ! 0) h \<longleftrightarrow> h + 1 \<le> 1" for h
    by (simp add: lock_ok_def example_spend_def lock_value_def SEQUENCE_LOCKTIME_DISABLE_FLAG_def
        SEQUENCE_LOCKTIME_TYPE_FLAG_def SEQUENCE_LOCKTIME_MASK_def st(2) [simplified])
  have vin: "list_all2 P (vin ?tx) [h] \<longleftrightarrow> P (vin ?tx ! 0) h" "length [h] = length (vin ?tx)" for P and h :: int
    by (simp_all add: example_spend_def)
  have "\<exists>ok hs. SequenceLocks example_store ?tx 1 [h] 1 = Inr (ok, hs) \<and> ok = (h + 1 \<le> 1)" if "0 \<le> h" "h \<le> 1" for h
  proof -
    have "list_all2 (lock_ok example_store 1 0) (vin ?tx) [h] \<longleftrightarrow> h + 1 \<le> 1"
      unfolding vin(1) by (rule lv)
    then show ?thesis
      using SequenceLocks_exact [OF example_store_forest st(1) _ st(3) vin(2), of h 1] en that st(2)
      by (simp add: st(2) [simplified])
  qed
  from this [of 1] this [of 0] show ?thesis by auto
qed

end
