(* ===== verification/SC_ActiveChain.thy ===== *)
theory SC_ActiveChain
  imports SC_Chain
begin

text \<open>
  The active chain \<open>CChain\<close> (\<^verbatim>\<open>chain.h\<close>, \<^verbatim>\<open>chain.cpp\<close>): a vector of pointers indexed by height that mirrors
  the path from the genesis block to the tip.  The loops that follow \<open>pprev\<close> are partial functions;
  on a forest of headers they are shown to return.
\<close>

subsection \<open>Operations\<close>

type_synonym CChain = "pindex option list"

definition Genesis :: "CChain \<Rightarrow> pindex option" where
  "Genesis vChain = (if length vChain > 0 then vChain ! 0 else None)"

definition Tip :: "CChain \<Rightarrow> pindex option" where
  "Tip vChain = (if length vChain > 0 then vChain ! (length vChain - 1) else None)"

definition at_height :: "CChain \<Rightarrow> int \<Rightarrow> pindex option" where
  "at_height vChain h = (if h < 0 \<or> h \<ge> int (length vChain) then None else vChain ! nat h)"

definition Contains :: "block_store \<Rightarrow> CChain \<Rightarrow> pindex \<Rightarrow> bool" where
  "Contains st vChain p \<longleftrightarrow> at_height vChain (nHeight (st ! p)) = Some p"

definition Next :: "block_store \<Rightarrow> CChain \<Rightarrow> pindex \<Rightarrow> pindex option" where
  "Next st vChain p = (if Contains st vChain p then at_height vChain (nHeight (st ! p) + 1) else None)"

definition Height :: "CChain \<Rightarrow> int" where
  "Height vChain = int (length vChain) - 1"

definition resize :: "nat \<Rightarrow> CChain \<Rightarrow> CChain" where
  "resize n vChain = take n vChain @ replicate (n - length vChain) None"

partial_function (option) SetTip_loop :: "block_store \<Rightarrow> pindex option \<Rightarrow> CChain \<Rightarrow> CChain option" where
  "SetTip_loop st pindex vChain =
     (case pindex of
        None \<Rightarrow> Some vChain
      | Some p \<Rightarrow>
          if vChain ! nat (nHeight (st ! p)) \<noteq> Some p
          then SetTip_loop st (pprev (st ! p)) (vChain[nat (nHeight (st ! p)) := Some p])
          else Some vChain)"

definition SetTip :: "block_store \<Rightarrow> pindex option \<Rightarrow> CChain \<Rightarrow> CChain option" where
  "SetTip st pindex vChain =
     (case pindex of
        None \<Rightarrow> Some []
      | Some p \<Rightarrow> SetTip_loop st (Some p) (resize (nat (nHeight (st ! p) + 1)) vChain))"

text \<open>The loop of \<open>GetLocator\<close>; \<open>None\<close> would be a loop that does not end.\<close>

partial_function (option) GetLocator_loop ::
  "block_store \<Rightarrow> CChain \<Rightarrow> pindex option \<Rightarrow> int \<Rightarrow> uint256 list \<Rightarrow> (abort + uint256 list) option" where
  "GetLocator_loop st vChain pindex nStep vHave =
     (case pindex of
        None \<Rightarrow> Some (Inr vHave)
      | Some p \<Rightarrow>
          let vHave1 = vHave @ [GetBlockHash (st ! p)]
          in if nHeight (st ! p) = 0 then Some (Inr vHave1)
             else let h = max (nHeight (st ! p) - nStep) 0;
                      nStep1 = (if length vHave1 > 10 then s32 (nStep * 2) else nStep)
                  in if Contains st vChain p then GetLocator_loop st vChain (at_height vChain h) nStep1 vHave1
                     else (case GetAncestor st p h of
                             Inl e \<Rightarrow> Some (Inl e)
                           | Inr q \<Rightarrow> GetLocator_loop st vChain q nStep1 vHave1))"

definition GetLocator :: "block_store \<Rightarrow> CChain \<Rightarrow> pindex option \<Rightarrow> (abort + CBlockLocator) option" where
  "GetLocator st vChain pindex =
     GetLocator_loop st vChain (case pindex of None \<Rightarrow> Tip vChain | Some p \<Rightarrow> Some p) 1 []"

partial_function (option) FindFork_loop :: "block_store \<Rightarrow> CChain \<Rightarrow> pindex option \<Rightarrow> pindex option option" where
  "FindFork_loop st vChain pindex =
     (case pindex of
        None \<Rightarrow> Some None
      | Some p \<Rightarrow> if \<not> Contains st vChain p then FindFork_loop st vChain (pprev (st ! p)) else Some (Some p))"

definition FindFork :: "block_store \<Rightarrow> CChain \<Rightarrow> pindex option \<Rightarrow> (abort + pindex option) option" where
  "FindFork st vChain pindex =
     (case pindex of
        None \<Rightarrow> Some (Inr None)
      | Some p \<Rightarrow>
          (case (if nHeight (st ! p) > Height vChain then GetAncestor st p (Height vChain) else Inr (Some p)) of
             Inl e \<Rightarrow> Some (Inl e)
           | Inr q \<Rightarrow> map_option Inr (FindFork_loop st vChain q)))"

text \<open>\<open>std::lower_bound\<close>: the binary search for the first element that does not satisfy the predicate.\<close>

function lower_bound :: "('a \<Rightarrow> bool) \<Rightarrow> 'a list \<Rightarrow> nat \<Rightarrow> nat \<Rightarrow> nat" where
  "lower_bound P xs first len =
     (if len > 0
      then let half = len div 2; middle = first + half
           in if P (xs ! middle) then lower_bound P xs (middle + 1) (len - half - 1)
              else lower_bound P xs first half
      else first)"
  by pat_completeness auto
termination
  by (relation "measure (\<lambda>(P, xs, first, len). len)") auto

declare lower_bound.simps [simp del]

definition FindEarliestAtLeast :: "block_store \<Rightarrow> CChain \<Rightarrow> int \<Rightarrow> pindex option" where
  "FindEarliestAtLeast st vChain nTime =
     (let lower = lower_bound (\<lambda>pBlock. GetBlockTimeMax (st ! the pBlock) < nTime) vChain 0 (length vChain)
      in if lower = length vChain then None else vChain ! lower)"

partial_function (option) common_ancestor_loop ::
  "block_store \<Rightarrow> pindex option \<Rightarrow> pindex option \<Rightarrow> (pindex option \<times> pindex option) option" where
  "common_ancestor_loop st pa pb =
     (if pa \<noteq> pb \<and> pa \<noteq> None \<and> pb \<noteq> None
      then common_ancestor_loop st (pprev (st ! the pa)) (pprev (st ! the pb))
      else Some (pa, pb))"

definition LastCommonAncestor :: "block_store \<Rightarrow> pindex \<Rightarrow> pindex \<Rightarrow> (abort + pindex option) option" where
  "LastCommonAncestor st pa pb =
     (let ra = (if nHeight (st ! pa) > nHeight (st ! pb) then GetAncestor st pa (nHeight (st ! pb)) else Inr (Some pa));
          rb = (if nHeight (st ! pb) > nHeight (st ! pa) then GetAncestor st pb (nHeight (st ! pa)) else Inr (Some pb))
      in case (ra, rb) of
           (Inr qa, Inr qb) \<Rightarrow>
             map_option (\<lambda>(x, y). if x = y then Inr x else Inl AssertFails) (common_ancestor_loop st qa qb)
         | (Inl e, _) \<Rightarrow> Some (Inl e)
         | (_, Inl e) \<Rightarrow> Some (Inl e))"

declare SetTip_loop.simps [code] GetLocator_loop.simps [code] FindFork_loop.simps [code]
  common_ancestor_loop.simps [code]

subsection \<open>The active chain is a path of the forest\<close>

definition link_ok :: "block_store \<Rightarrow> CChain \<Rightarrow> nat \<Rightarrow> bool" where
  "link_ok st c i \<longleftrightarrow> (case c ! i of
      None \<Rightarrow> True
    | Some q \<Rightarrow> q < length st \<and> nHeight (st ! q) = int i \<and> (0 < i \<longrightarrow> c ! (i - 1) = pprev (st ! q)))"

definition chain_ok :: "block_store \<Rightarrow> CChain \<Rightarrow> bool" where
  "chain_ok st c \<longleftrightarrow> (\<forall>i<length c. c ! i \<noteq> None \<and> link_ok st c i)"

lemma link_down:
  assumes "forest st" "\<And>i. i \<le> h \<Longrightarrow> link_ok st c i" "c ! h \<noteq> None" "i \<le> h"
  shows "c ! i \<noteq> None"
  using assms(2-4)
proof (induction h)
  case 0
  then show ?case by simp
next
  case (Suc h)
  show ?case
  proof (cases "i = Suc h")
    case True
    then show ?thesis using Suc.prems by simp
  next
    case False
    obtain q where q: "c ! Suc h = Some q" using Suc.prems by blast
    then have "q < length st" "nHeight (st ! q) = int (Suc h)" "c ! h = pprev (st ! q)"
      using Suc.prems(1) [of "Suc h"] by (simp_all add: link_ok_def)
    then have "c ! h \<noteq> None" using entry_has_prev [of st q] assms(1) by (auto simp: forest_def)
    then show ?thesis using Suc.IH Suc.prems False by simp
  qed
qed

lemma link_ok_update: "h \<noteq> i \<Longrightarrow> Suc h \<noteq> i \<Longrightarrow> link_ok st (c[h := x]) i = link_ok st c i"
  by (cases i; cases "c ! i") (simp_all add: link_ok_def)

lemma SetTip_loop_ok:
  assumes "forest st" "p < length st" "nHeight (st ! p) = int h" "h < length c"
    and "\<And>i. i \<le> h \<Longrightarrow> link_ok st c i"
    and "\<And>i. h < i \<Longrightarrow> i < length c \<Longrightarrow> c ! i \<noteq> None"
    and "\<And>i. Suc h < i \<Longrightarrow> i < length c \<Longrightarrow> link_ok st c i"
    and "Suc h < length c \<Longrightarrow> \<exists>q<length st. c ! Suc h = Some q \<and> nHeight (st ! q) = int (Suc h) \<and> pprev (st ! q) = Some p"
  shows "\<exists>c'. SetTip_loop st (Some p) c = Some c' \<and> chain_ok st c' \<and> length c' = length c \<and>
    c' ! h = Some p \<and> (\<forall>i>h. c' ! i = c ! i)"
  using assms(2-)
proof (induction p arbitrary: h c rule: less_induct)
  case (less p)
  have h: "nat (nHeight (st ! p)) = h" using less.prems(2) by simp
  have e: "node_ok st p" using assms(1) less.prems(1) by (simp add: forest_def)
  have top: "link_ok st c' (Suc h)" if "c' ! h = Some p" "\<And>i. h < i \<Longrightarrow> c' ! i = c ! i" "Suc h < length c" for c'
    using less.prems(7) [OF that(3)] that(1,2) by (auto simp: link_ok_def)
  show ?case
  proof (cases "c ! h = Some p")
    case True
    have "c ! i \<noteq> None \<and> link_ok st c i" if "i < length c" for i
      using link_down [OF assms(1) less.prems(4), of h i] less.prems(4-6) True that top [of c]
      by (cases i "Suc h" rule: linorder_cases) auto
    then show ?thesis using True h by (subst SetTip_loop.simps) (auto simp: chain_ok_def)
  next
    case False
    let ?c = "c[h := Some p]"
    have step: "SetTip_loop st (Some p) c = SetTip_loop st (pprev (st ! p)) ?c"
      using False h by (subst SetTip_loop.simps) simp
    have up: "link_ok st ?c i" if "h < i" "i < length c" for i
    proof (cases "i = Suc h")
      case True
      then show ?thesis using top [of ?c] less.prems(3) that by simp
    next
      case False
      then have "link_ok st c i" using less.prems(6) that by simp
      then show ?thesis using that False by (simp add: link_ok_update)
    qed
    show ?thesis
    proof (cases "pprev (st ! p)")
      case None
      then have "h = 0" using e less.prems(2) by (simp add: node_ok_def)
      moreover have "?c ! i \<noteq> None \<and> link_ok st ?c i" if "i < length c" for i
        using up [of i] that less.prems(1-3,5) \<open>h = 0\<close> by (cases "i = 0") (auto simp: link_ok_def)
      ultimately show ?thesis using step None less.prems(3)
        by (subst (asm) SetTip_loop.simps) (auto simp: chain_ok_def)
    next
      case (Some r)
      note rp = entry_prev [OF e Some]
      have "nHeight (st ! r) \<ge> 0" using forest_height [OF assms(1), of r] rp less.prems(1) by simp
      then obtain g where g: "h = Suc g" using rp less.prems(2) by (cases h) auto
      have "\<exists>c'. SetTip_loop st (Some r) ?c = Some c' \<and> chain_ok st c' \<and> length c' = length ?c \<and>
          c' ! g = Some r \<and> (\<forall>i>g. c' ! i = ?c ! i)"
      proof (rule less.IH)
        show "r < p" "r < length st" "nHeight (st ! r) = int g" "g < length ?c"
          using rp less.prems g by auto
        show "link_ok st ?c i" if "i \<le> g" for i
          using less.prems(4) [of i] that g by (simp add: link_ok_update)
        show "?c ! i \<noteq> None" if "g < i" "i < length ?c" for i
          using that less.prems(5) [of i] g by (cases "i = h") auto
        show "link_ok st ?c i" if "Suc g < i" "i < length ?c" for i using up [of i] that g by simp
        show "\<exists>q<length st. ?c ! Suc g = Some q \<and> nHeight (st ! q) = int (Suc g) \<and> pprev (st ! q) = Some r"
          using less.prems g Some by auto
      qed
      then show ?thesis using step Some g less.prems(3) by auto
    qed
  qed
qed

lemma chain_nth:
  "chain_ok st c \<Longrightarrow> i < length c \<Longrightarrow>
    \<exists>q<length st. c ! i = Some q \<and> nHeight (st ! q) = int i \<and> (0 < i \<longrightarrow> c ! (i - 1) = pprev (st ! q))"
  by (cases "c ! i") (auto simp: chain_ok_def link_ok_def)

lemma resize_link_ok: "chain_ok st c \<Longrightarrow> i < n \<Longrightarrow> link_ok st (resize n c) i"
  using chain_nth [of st c i] by (cases "i < length c") (auto simp: link_ok_def resize_def nth_append)

lemma SetTip_ok:
  assumes "forest st" "chain_ok st c" "p < length st"
  shows "\<exists>c'. SetTip st (Some p) c = Some c' \<and> chain_ok st c' \<and> int (length c') = nHeight (st ! p) + 1 \<and>
    Tip c' = Some p"
proof -
  have h: "0 \<le> nHeight (st ! p)" using forest_height [OF assms(1,3)] by simp
  let ?h = "nat (nHeight (st ! p))" and ?c = "resize (nat (nHeight (st ! p) + 1)) c"
  have len: "length ?c = Suc ?h" using h by (auto simp: resize_def)
  have "\<exists>c'. SetTip_loop st (Some p) ?c = Some c' \<and> chain_ok st c' \<and> length c' = length ?c \<and>
      c' ! ?h = Some p \<and> (\<forall>i>?h. c' ! i = ?c ! i)"
  proof (rule SetTip_loop_ok [OF assms(1,3)])
    show "nHeight (st ! p) = int ?h" "?h < length ?c" using h len by simp_all
    show "link_ok st ?c i" if "i \<le> ?h" for i using resize_link_ok [OF assms(2)] that h by simp
  qed (use len in auto)
  then show ?thesis using len h by (auto simp: SetTip_def Tip_def)
qed

lemma chain_walk:
  assumes "chain_ok st c" "j < length c" "c ! j = Some p" "i \<le> j"
  shows "walk_back st p (j - i) = c ! i"
  using assms(2-4)
proof (induction "j - i" arbitrary: j p)
  case 0
  then show ?case by simp
next
  case (Suc n)
  have "j - 1 < length c" using Suc.prems by simp
  then obtain q where q: "c ! (j - 1) = Some q" using chain_nth [OF assms(1)] by blast
  then have "pprev (st ! p) = Some q" using chain_nth [OF assms(1), of j] Suc.hyps(2) Suc.prems by auto
  moreover have "j - i = Suc (j - 1 - i)" using Suc.hyps(2) by simp
  ultimately show ?case using Suc.hyps(1) [of "j - 1" q] Suc.hyps(2) Suc.prems q by simp
qed

lemma Contains_walk:
  assumes "chain_ok st c" "Contains st c p" "0 \<le> h" "h \<le> nHeight (st ! p)"
  shows "at_height c h = walk_back st p (nat (nHeight (st ! p) - h))"
proof -
  have c: "nHeight (st ! p) < int (length c)" "c ! nat (nHeight (st ! p)) = Some p"
    using assms(2,3,4) by (auto simp: Contains_def at_height_def split: if_splits)
  have "nat (nHeight (st ! p) - h) = nat (nHeight (st ! p)) - nat h" using assms(3,4) by (simp add: nat_diff_distrib)
  then show ?thesis
    using chain_walk [OF assms(1), of "nat (nHeight (st ! p))" p "nat h"] c assms(3,4)
    by (simp add: at_height_def)
qed

subsection \<open>Forks\<close>

text \<open>The last block of a branch that is on the chain: the specification of \<open>FindFork\<close>.\<close>

definition fork_of :: "block_store \<Rightarrow> CChain \<Rightarrow> pindex \<Rightarrow> pindex option \<Rightarrow> bool" where
  "fork_of st c p r \<longleftrightarrow> (case r of
      None \<Rightarrow> \<forall>n q. walk_back st p n = Some q \<longrightarrow> \<not> Contains st c q
    | Some q \<Rightarrow> \<exists>n. walk_back st p n = Some q \<and> Contains st c q \<and>
        (\<forall>m<n. \<forall>x. walk_back st p m = Some x \<longrightarrow> \<not> Contains st c x))"

lemma fork_of_skip:
  assumes "walk_back st p k = Some q" "\<And>m x. m < k \<Longrightarrow> walk_back st p m = Some x \<Longrightarrow> \<not> Contains st c x"
    and "fork_of st c q r"
  shows "fork_of st c p r"
proof (cases r)
  case None
  have "\<not> Contains st c x" if "walk_back st p n = Some x" for n x
  proof (cases "n < k")
    case True
    then show ?thesis using assms(2) that by blast
  next
    case False
    then have "walk_back st q (n - k) = Some x" using walk_back_add [of st p k "n - k"] assms(1) that by simp
    then show ?thesis using assms(3) None by (auto simp: fork_of_def)
  qed
  then show ?thesis using None by (auto simp: fork_of_def)
next
  case (Some y)
  then obtain n where n: "walk_back st q n = Some y" "Contains st c y"
    "\<And>m x. m < n \<Longrightarrow> walk_back st q m = Some x \<Longrightarrow> \<not> Contains st c x" using assms(3) by (auto simp: fork_of_def)
  have "\<not> Contains st c x" if "m < k + n" "walk_back st p m = Some x" for m x
  proof (cases "m < k")
    case True
    then show ?thesis using assms(2) that by blast
  next
    case False
    then have "walk_back st q (m - k) = Some x" using walk_back_add [of st p k "m - k"] assms(1) that by simp
    then show ?thesis using n(3) [of "m - k"] that False by simp
  qed
  moreover have "walk_back st p (k + n) = Some y" using n(1) assms(1) by (simp add: walk_back_add)
  ultimately show ?thesis using Some n(2) by (auto simp: fork_of_def)
qed

lemma FindFork_loop_fork:
  assumes "forest st" "p < length st"
  shows "\<exists>r. FindFork_loop st c (Some p) = Some r \<and> fork_of st c p r"
  using assms(2)
proof (induction p rule: less_induct)
  case (less p)
  have e: "node_ok st p" using assms(1) less.prems by (simp add: forest_def)
  show ?case
  proof (cases "Contains st c p")
    case True
    then have "fork_of st c p (Some p)" by (auto simp: fork_of_def intro: exI [of _ 0])
    then show ?thesis using True by (subst FindFork_loop.simps) simp
  next
    case False
    then have step: "FindFork_loop st c (Some p) = FindFork_loop st c (pprev (st ! p))"
      by (subst FindFork_loop.simps) simp
    show ?thesis
    proof (cases "pprev (st ! p)")
      case None
      have "fork_of st c p None"
      proof -
        have "\<not> Contains st c q" if "walk_back st p n = Some q" for n q
          using that False None by (cases n) auto
        then show ?thesis by (simp add: fork_of_def)
      qed
      then show ?thesis using step None by (subst (asm) (2) FindFork_loop.simps) simp
    next
      case (Some q)
      then obtain r where r: "FindFork_loop st c (Some q) = Some r" "fork_of st c q r"
        using less.IH [of q] entry_prev [OF e Some] less.prems by auto
      have "fork_of st c p r"
        by (rule fork_of_skip [of st p 1 q]) (use Some False r in auto)
      then show ?thesis using r step Some by auto
    qed
  qed
qed

lemma FindFork_fork:
  assumes f: "forest st" and p: "p < length st"
  shows "\<exists>r. FindFork st c (Some p) = Some (Inr r) \<and> fork_of st c p r"
proof (cases "nHeight (st ! p) > Height c")
  case False
  then show ?thesis using FindFork_loop_fork [OF assms, of c] by (auto simp: FindFork_def)
next
  case True
  have high: "\<not> Contains st c x" if "nHeight (st ! x) > Height c" for x
    using that by (auto simp: Contains_def at_height_def Height_def)
  show ?thesis
  proof (cases "Height c < 0")
    case neg: True
    then have "c = []" by (auto simp: Height_def)
    then have "fork_of st c p None" by (auto simp: fork_of_def Contains_def at_height_def)
    moreover have "FindFork_loop st c None = Some None" by (subst FindFork_loop.simps) simp
    ultimately show ?thesis using True neg by (auto simp: FindFork_def GetAncestor_def)
  next
    case False
    let ?k = "nat (nHeight (st ! p) - Height c)"
    obtain q where q: "walk_back st p ?k = Some q" "q \<le> p"
      using walk_back_total [OF assms, of ?k] True False by auto
    then obtain r where r: "FindFork_loop st c (Some q) = Some r" "fork_of st c q r"
      using FindFork_loop_fork [OF f, of q c] p by auto
    have "fork_of st c p r"
    proof (rule fork_of_skip [OF q(1) _ r(2)])
      fix m x
      assume m: "m < ?k" "walk_back st p m = Some x"
      then have "nHeight (st ! x) = nHeight (st ! p) - int m"
        using walk_back_total [OF assms, of m] True False by auto
      then show "\<not> Contains st c x" using high [of x] m(1) by linarith
    qed
    moreover have "GetAncestor st p (Height c) = Inr (Some q)"
      using GetAncestor_walk [OF assms, of "Height c"] q True False by simp
    ultimately show ?thesis using True r by (simp add: FindFork_def)
  qed
qed

subsection \<open>The last common ancestor\<close>

definition common_ancestor :: "block_store \<Rightarrow> pindex \<Rightarrow> pindex \<Rightarrow> pindex \<Rightarrow> bool" where
  "common_ancestor st a b x \<longleftrightarrow> (\<exists>m n. walk_back st a m = Some x \<and> walk_back st b n = Some x)"

text \<open>The common ancestor of greatest height, if the two blocks are in one tree.\<close>

definition last_common :: "block_store \<Rightarrow> pindex \<Rightarrow> pindex \<Rightarrow> pindex option \<Rightarrow> bool" where
  "last_common st a b r \<longleftrightarrow> (case r of
      None \<Rightarrow> \<forall>x. \<not> common_ancestor st a b x
    | Some q \<Rightarrow> common_ancestor st a b q \<and> (\<forall>x. common_ancestor st a b x \<longrightarrow> nHeight (st ! x) \<le> nHeight (st ! q)))"

lemma last_common_cong:
  "(\<And>x. common_ancestor st a b x = common_ancestor st a' b' x) \<Longrightarrow> last_common st a b r = last_common st a' b' r"
  by (simp add: last_common_def cong: option.case_cong)

lemma walk_back_height:
  assumes "forest st" "p < length st" "walk_back st p n = Some q"
  shows "nHeight (st ! q) = nHeight (st ! p) - int n \<and> q \<le> p"
  using assms(2,3)
proof (induction n arbitrary: p)
  case 0
  then show ?case by simp
next
  case (Suc n)
  then obtain r where r: "pprev (st ! p) = Some r" "walk_back st r n = Some q" by (auto split: option.splits)
  have "node_ok st p" using assms(1) Suc.prems by (simp add: forest_def)
  then show ?case using entry_prev [of st p r] r Suc.IH [of r] Suc.prems by auto
qed

lemma forest_root:
  assumes "forest st" "p < length st" "nHeight (st ! p) = 0"
  shows "pprev (st ! p) = None"
proof (cases "pprev (st ! p)")
  case (Some q)
  have "node_ok st p" using assms by (simp add: forest_def)
  then have "q < length st" "nHeight (st ! q) = - 1" using entry_prev [OF _ Some] assms(2,3) by auto
  then show ?thesis using forest_height [OF assms(1), of q] by simp
qed

lemma common_ancestor_step:
  assumes "forest st" "a < length st" "b < length st" "nHeight (st ! a) = nHeight (st ! b)" "a \<noteq> b"
  shows "common_ancestor st a b x \<longleftrightarrow>
    (\<exists>a' b'. pprev (st ! a) = Some a' \<and> pprev (st ! b) = Some b' \<and> common_ancestor st a' b' x)"
proof
  assume "common_ancestor st a b x"
  then obtain m n where w: "walk_back st a m = Some x" "walk_back st b n = Some x" by (auto simp: common_ancestor_def)
  then have "m = n" using walk_back_height [OF assms(1,2) w(1)] walk_back_height [OF assms(1,3) w(2)] assms(4) by simp
  moreover have "m \<noteq> 0" using w calculation assms(5) by (cases m) auto
  ultimately obtain k where "m = Suc k" "n = Suc k" by (cases m) auto
  then show "\<exists>a' b'. pprev (st ! a) = Some a' \<and> pprev (st ! b) = Some b' \<and> common_ancestor st a' b' x"
    using w by (auto simp: common_ancestor_def split: option.splits)
next
  assume "\<exists>a' b'. pprev (st ! a) = Some a' \<and> pprev (st ! b) = Some b' \<and> common_ancestor st a' b' x"
  then obtain a' b' m n where "pprev (st ! a) = Some a'" "pprev (st ! b) = Some b'"
    "walk_back st a' m = Some x" "walk_back st b' n = Some x" by (auto simp: common_ancestor_def)
  then have "walk_back st a (Suc m) = Some x" "walk_back st b (Suc n) = Some x" by simp_all
  then show "common_ancestor st a b x" unfolding common_ancestor_def by blast
qed

lemma common_ancestor_loop_last:
  assumes "forest st" "a < length st" "b < length st" "nHeight (st ! a) = nHeight (st ! b)"
  shows "\<exists>r. common_ancestor_loop st (Some a) (Some b) = Some (r, r) \<and> last_common st a b r"
  using assms(2-)
proof (induction a arbitrary: b rule: less_induct)
  case (less a)
  have e: "node_ok st a" "node_ok st b" using assms(1) less.prems by (simp_all add: forest_def)
  show ?case
  proof (cases "a = b")
    case True
    have "common_ancestor st a a a" by (auto simp: common_ancestor_def intro: exI [of _ 0])
    moreover have "nHeight (st ! x) \<le> nHeight (st ! a)" if "common_ancestor st a a x" for x
      using that walk_back_height [OF assms(1) less.prems(1)] by (auto simp: common_ancestor_def)
    ultimately have "last_common st a b (Some a)" using True by (simp add: last_common_def)
    then show ?thesis using True by (subst common_ancestor_loop.simps) auto
  next
    case False
    note step = common_ancestor_step [OF assms(1) less.prems False]
    have loop: "common_ancestor_loop st (Some a) (Some b) = common_ancestor_loop st (pprev (st ! a)) (pprev (st ! b))"
      using False by (subst common_ancestor_loop.simps) simp
    show ?thesis
    proof (cases "nHeight (st ! a) = 0")
      case True
      then have n: "pprev (st ! a) = None" "pprev (st ! b) = None"
        using forest_root [OF assms(1)] less.prems by simp_all
      then have "last_common st a b None" using step by (simp add: last_common_def)
      moreover have "common_ancestor_loop st None None = Some (None, None)"
        by (subst common_ancestor_loop.simps) simp
      ultimately show ?thesis using loop n by auto
    next
      case pos: False
      then have "0 < nHeight (st ! a)" "0 < nHeight (st ! b)"
        using forest_height [OF assms(1) less.prems(1)] less.prems(3) by auto
      then obtain a' b' where p: "pprev (st ! a) = Some a'" "pprev (st ! b) = Some b'"
        using entry_has_prev e by blast
      have "a' < a" "b' < b" "nHeight (st ! a') = nHeight (st ! b')"
        using entry_prev [OF e(1) p(1)] entry_prev [OF e(2) p(2)] less.prems(3) by auto
      then obtain r where r: "common_ancestor_loop st (Some a') (Some b') = Some (r, r)" "last_common st a' b' r"
        using less.IH [of a' b'] less.prems by auto
      have "common_ancestor st a b x = common_ancestor st a' b' x" for x using step p by auto
      then have "last_common st a b r" using r(2) last_common_cong by blast
      then show ?thesis using r loop p by auto
    qed
  qed
qed

lemma common_ancestor_jump:
  assumes "forest st" "a < length st" "b < length st" "nHeight (st ! b) \<le> nHeight (st ! a)"
    and "walk_back st a (nat (nHeight (st ! a) - nHeight (st ! b))) = Some a'"
  shows "common_ancestor st a b x = common_ancestor st a' b x"
proof -
  let ?k = "nat (nHeight (st ! a) - nHeight (st ! b))"
  have "\<exists>m. walk_back st a' m = Some x" if "walk_back st a m = Some x" "walk_back st b n = Some x" for m n
  proof -
    have "?k \<le> m" using walk_back_height [OF assms(1,2) that(1)] walk_back_height [OF assms(1,3) that(2)] by linarith
    then show ?thesis using walk_back_add [of st a ?k "m - ?k"] assms(5) that(1) by auto
  qed
  moreover have "walk_back st a (?k + m) = Some x" if "walk_back st a' m = Some x" for m
    using that assms(5) by (simp add: walk_back_add)
  ultimately show ?thesis by (auto simp: common_ancestor_def)
qed

lemma common_ancestor_sym: "common_ancestor st a b x = common_ancestor st b a x"
  by (auto simp: common_ancestor_def)

lemma LastCommonAncestor_last:
  assumes f: "forest st" and a: "a < length st" and b: "b < length st"
  shows "\<exists>r. LastCommonAncestor st a b = Some (Inr r) \<and> last_common st a b r"
proof -
  have ha: "0 \<le> nHeight (st ! a)" and hb: "0 \<le> nHeight (st ! b)" using forest_height [OF f] a b by auto
  consider "nHeight (st ! b) < nHeight (st ! a)" | "nHeight (st ! a) < nHeight (st ! b)" | "nHeight (st ! a) = nHeight (st ! b)"
    by linarith
  then show ?thesis
  proof cases
    case 1
    obtain q where q: "walk_back st a (nat (nHeight (st ! a) - nHeight (st ! b))) = Some q" "q \<le> a"
      "nHeight (st ! q) = nHeight (st ! b)"
      using walk_back_total [OF f a, of "nat (nHeight (st ! a) - nHeight (st ! b))"] 1 hb by auto
    obtain r where "common_ancestor_loop st (Some q) (Some b) = Some (r, r)" "last_common st q b r"
      using common_ancestor_loop_last [OF f, of q b] q a b by auto
    moreover have "last_common st a b r = last_common st q b r"
      by (rule last_common_cong) (rule common_ancestor_jump [OF f a b], use 1 q in auto)
    ultimately show ?thesis
      using 1 q(1) hb GetAncestor_walk [OF f a, of "nHeight (st ! b)"] by (auto simp: LastCommonAncestor_def)
  next
    case 2
    obtain q where q: "walk_back st b (nat (nHeight (st ! b) - nHeight (st ! a))) = Some q" "q \<le> b"
      "nHeight (st ! q) = nHeight (st ! a)"
      using walk_back_total [OF f b, of "nat (nHeight (st ! b) - nHeight (st ! a))"] 2 ha by auto
    obtain r where "common_ancestor_loop st (Some a) (Some q) = Some (r, r)" "last_common st a q r"
      using common_ancestor_loop_last [OF f, of a q] q a b by auto
    moreover have "last_common st a b r = last_common st a q r"
      by (rule last_common_cong) (use common_ancestor_jump [OF f b a _ q(1)] 2 in \<open>auto simp: common_ancestor_sym [of st a]\<close>)
    ultimately show ?thesis
      using 2 q(1) ha GetAncestor_walk [OF f b, of "nHeight (st ! a)"] by (auto simp: LastCommonAncestor_def)
  next
    case 3
    then show ?thesis using common_ancestor_loop_last [OF f a b] by (auto simp: LastCommonAncestor_def)
  qed
qed

subsection \<open>Locators\<close>

text \<open>The step taken from a block: both ways of finding the next block give the same one.\<close>

lemma locator_next:
  assumes "forest st" "chain_ok st c" "p < length st" "0 \<le> h" "h < nHeight (st ! p)"
  shows "\<exists>q<p. nHeight (st ! q) = h \<and> (\<exists>n. walk_back st p n = Some q) \<and> GetAncestor st p h = Inr (Some q) \<and>
    (Contains st c p \<longrightarrow> at_height c h = Some q)"
proof -
  let ?n = "nat (nHeight (st ! p) - h)"
  obtain q where q: "walk_back st p ?n = Some q" "q \<le> p" "nHeight (st ! q) = h"
    using walk_back_total [OF assms(1,3), of ?n] assms(4,5) by auto
  then have "q < p" using assms(5) by (cases "q = p") auto
  then show ?thesis
    using q GetAncestor_walk [OF assms(1,3), of h] Contains_walk [OF assms(2), of p h] assms(4,5) by auto
qed

lemma GetLocator_loop_returns:
  assumes "forest st" "chain_ok st c" "p < length st" "1 \<le> nStep" "nHeight (st ! p) + nStep \<le> 2147483648"
  shows "\<exists>ps. GetLocator_loop st c (Some p) nStep v = Some (Inr (v @ map (\<lambda>q. GetBlockHash (st ! q)) ps)) \<and>
    ps \<noteq> [] \<and> hd ps = p \<and> nHeight (st ! last ps) = 0 \<and> (\<forall>q\<in>set ps. \<exists>n. walk_back st p n = Some q)"
  using assms(3-)
proof (induction p arbitrary: nStep v rule: less_induct)
  case (less p)
  let ?v = "v @ [GetBlockHash (st ! p)]"
  have here: "\<exists>n. walk_back st p n = Some p" by (rule exI [of _ 0]) simp
  show ?case
  proof (cases "nHeight (st ! p) = 0")
    case True
    then show ?thesis using here by (subst GetLocator_loop.simps) (auto simp: Let_def intro!: exI [of _ "[p]"])
  next
    case False
    then have pos: "0 < nHeight (st ! p)" using forest_height [OF assms(1) less.prems(1)] by simp
    let ?h = "max (nHeight (st ! p) - nStep) 0"
    obtain q where q: "q < p" "nHeight (st ! q) = ?h" "\<exists>n. walk_back st p n = Some q"
      "GetAncestor st p ?h = Inr (Some q)" "Contains st c p \<longrightarrow> at_height c ?h = Some q"
      using locator_next [OF assms(1,2) less.prems(1), of ?h] pos less.prems(2) by auto
    define k where "k = (if length ?v > 10 then s32 (nStep * 2) else nStep)"
    have loop: "GetLocator_loop st c (Some p) nStep v = GetLocator_loop st c (Some q) k ?v"
      using False q by (subst GetLocator_loop.simps) (auto simp: Let_def k_def)
    have "\<exists>ps. GetLocator_loop st c (Some q) k ?v = Some (Inr (?v @ map (\<lambda>q. GetBlockHash (st ! q)) ps)) \<and>
        ps \<noteq> [] \<and> hd ps = q \<and> nHeight (st ! last ps) = 0 \<and> (\<forall>x\<in>set ps. \<exists>n. walk_back st q n = Some x)"
    proof (cases "nHeight (st ! q) = 0")
      case True
      then show ?thesis
        by (subst GetLocator_loop.simps) (auto simp: Let_def intro!: exI [of _ "[q]"] exI [of _ 0])
    next
      case qpos: False
      then have h: "nHeight (st ! q) = nHeight (st ! p) - nStep" "0 < nHeight (st ! p) - nStep" using q(2) by auto
      then have "k = (if length ?v > 10 then nStep * 2 else nStep)"
        using less.prems(2,3) by (simp add: k_def in_s32_def)
      then show ?thesis using less.IH [OF q(1), of k ?v] less.prems h q(1) by (auto split: if_splits)
    qed
    then obtain ps where ps: "GetLocator_loop st c (Some q) k ?v = Some (Inr (?v @ map (\<lambda>q. GetBlockHash (st ! q)) ps))"
      "ps \<noteq> []" "nHeight (st ! last ps) = 0" "\<And>x. x \<in> set ps \<Longrightarrow> \<exists>n. walk_back st q n = Some x" by blast
    have "\<exists>n. walk_back st p n = Some x" if x: "x \<in> set ps" for x
    proof -
      obtain m n where "walk_back st p m = Some q" "walk_back st q n = Some x" using q(3) ps(4) [OF x] by blast
      then have "walk_back st p (m + n) = Some x" by (simp add: walk_back_add)
      then show ?thesis by blast
    qed
    then show ?thesis using loop ps here by (intro exI [of _ "p # ps"]) auto
  qed
qed

subsection \<open>The first block of a time\<close>

lemma lower_bound_spec:
  assumes "first + len \<le> length xs"
    and "\<And>i j. i \<le> j \<Longrightarrow> j < length xs \<Longrightarrow> P (xs ! j) \<Longrightarrow> P (xs ! i)"
  shows "first \<le> lower_bound P xs first len \<and> lower_bound P xs first len \<le> first + len \<and>
    (\<forall>i. first \<le> i \<and> i < lower_bound P xs first len \<longrightarrow> P (xs ! i)) \<and>
    (\<forall>i. lower_bound P xs first len \<le> i \<and> i < first + len \<longrightarrow> \<not> P (xs ! i))"
  using assms
proof (induction P xs first len rule: lower_bound.induct)
  case (1 P xs first len)
  show ?case
  proof (cases "len > 0")
    case False
    then show ?thesis by (auto simp: lower_bound.simps)
  next
    case True
    let ?half = "len div 2"
    let ?mid = "first + ?half"
    have hl: "?half < len" using True by simp
    show ?thesis
    proof (cases "P (xs ! ?mid)")
      case p: True
      have eq: "lower_bound P xs first len = lower_bound P xs (?mid + 1) (len - ?half - 1)"
        using True p by (subst lower_bound.simps) (simp add: Let_def)
      have below: "P (xs ! i)" if "i \<le> ?mid" for i using 1(4) [OF that _ p] 1(3) hl by simp
      let ?r = "lower_bound P xs (?mid + 1) (len - ?half - 1)"
      have end_eq: "?mid + 1 + (len - ?half - 1) = first + len" using hl by simp
      have IH: "?mid + 1 \<le> ?r" "?r \<le> first + len" "\<And>i. ?mid + 1 \<le> i \<Longrightarrow> i < ?r \<Longrightarrow> P (xs ! i)"
        "\<And>i. ?r \<le> i \<Longrightarrow> i < first + len \<Longrightarrow> \<not> P (xs ! i)"
        using 1(1) [OF True refl refl p] 1(3,4) end_eq by auto
      show ?thesis unfolding eq
      proof (intro conjI allI impI)
        show "first \<le> ?r" "?r \<le> first + len" using IH(1,2) by simp_all
        show "P (xs ! i)" if "first \<le> i \<and> i < ?r" for i
          using IH(3) [of i] below [of i] that by (cases "i \<le> ?mid") auto
        show "\<not> P (xs ! i)" if "?r \<le> i \<and> i < first + len" for i using IH(4) [of i] that by blast
      qed
    next
      case np: False
      have eq: "lower_bound P xs first len = lower_bound P xs first ?half"
        using True np by (subst lower_bound.simps) (simp add: Let_def)
      have above: "\<not> P (xs ! i)" if "?mid \<le> i" "i < length xs" for i using 1(4) [OF that] np by blast
      let ?r = "lower_bound P xs first ?half"
      have IH: "first \<le> ?r" "?r \<le> first + ?half" "\<And>i. first \<le> i \<Longrightarrow> i < ?r \<Longrightarrow> P (xs ! i)"
        "\<And>i. ?r \<le> i \<Longrightarrow> i < first + ?half \<Longrightarrow> \<not> P (xs ! i)"
        using 1(2) [OF True refl refl np] 1(3,4) hl by auto
      show ?thesis unfolding eq
      proof (intro conjI allI impI)
        show "first \<le> ?r" "?r \<le> first + len" using IH(1,2) hl by simp_all
        show "P (xs ! i)" if "first \<le> i \<and> i < ?r" for i using IH(3) [of i] that by blast
        show "\<not> P (xs ! i)" if "?r \<le> i \<and> i < first + len" for i
          using IH(4) [of i] above [of i] that 1(3) by (cases "i < ?mid") auto
      qed
    qed
  qed
qed

text \<open>With \<open>nTimeMax\<close> non-decreasing along the chain, the block found is the first one not before the time.\<close>

lemma FindEarliestAtLeast_first:
  assumes "chain_ok st c"
    and "\<And>i j. i \<le> j \<Longrightarrow> j < length c \<Longrightarrow> GetBlockTimeMax (st ! the (c ! i)) \<le> GetBlockTimeMax (st ! the (c ! j))"
  shows "case FindEarliestAtLeast st c t of
      None \<Rightarrow> \<forall>i<length c. GetBlockTimeMax (st ! the (c ! i)) < t
    | Some p \<Rightarrow> \<exists>i<length c. c ! i = Some p \<and> t \<le> GetBlockTimeMax (st ! p) \<and>
        (\<forall>j<i. GetBlockTimeMax (st ! the (c ! j)) < t)"
proof -
  let ?P = "\<lambda>b. GetBlockTimeMax (st ! the b) < t"
  let ?l = "lower_bound ?P c 0 (length c)"
  have mono: "?P (c ! i)" if "i \<le> j" "j < length c" "?P (c ! j)" for i j
    using assms(2) [OF that(1,2)] that(3) by linarith
  have l: "?l \<le> length c" "\<And>i. i < ?l \<Longrightarrow> ?P (c ! i)" "\<And>i. ?l \<le> i \<Longrightarrow> i < length c \<Longrightarrow> \<not> ?P (c ! i)"
    using lower_bound_spec [of 0 "length c" c ?P, OF _ mono] by simp_all
  show ?thesis
  proof (cases "?l = length c")
    case True
    then show ?thesis using l(2) by (simp add: FindEarliestAtLeast_def)
  next
    case False
    then have lt: "?l < length c" using l(1) by simp
    then obtain p where "c ! ?l = Some p" using chain_nth [OF assms(1)] by blast
    then show ?thesis using False lt l(2) l(3) [of ?l] by (auto simp: FindEarliestAtLeast_def intro!: exI [of _ ?l])
  qed
qed

text \<open>
  C14: On every block index the node can build, the loops over the active chain end and give what they
  promise.  \<open>SetTip\<close> makes the chain the path from the root to the new tip; \<open>FindFork\<close> returns the last
  block of a branch that is on the chain; \<open>LastCommonAncestor\<close> returns the common ancestor of greatest
  height; and \<open>GetLocator\<close> lists the hashes of ancestors of the tip from the tip down to the root.
\<close>

theorem active_chain_returns:
  assumes "index_reach bx" "length (blocks bx) \<le> 2147483648" "chain_ok (blocks bx) c"
    and "p < length (blocks bx)" "q < length (blocks bx)"
  shows "(\<exists>c'. SetTip (blocks bx) (Some p) c = Some c' \<and> chain_ok (blocks bx) c' \<and> Tip c' = Some p \<and>
      int (length c') = nHeight (blocks bx ! p) + 1) \<and>
    (\<exists>r. FindFork (blocks bx) c (Some p) = Some (Inr r) \<and> fork_of (blocks bx) c p r) \<and>
    (\<exists>r. LastCommonAncestor (blocks bx) p q = Some (Inr r) \<and> last_common (blocks bx) p q r) \<and>
    (\<exists>ps. GetLocator (blocks bx) c (Some p) = Some (Inr (map (\<lambda>x. GetBlockHash (blocks bx ! x)) ps)) \<and>
      ps \<noteq> [] \<and> hd ps = p \<and> nHeight (blocks bx ! last ps) = 0 \<and>
      list_all (\<lambda>x. \<exists>n. walk_back (blocks bx) p n = Some x) ps)"
proof -
  have f: "forest (blocks bx)" using index_reach_ok [OF assms(1)] by (simp add: index_ok_def)
  have "nHeight (blocks bx ! p) + 1 \<le> 2147483648" using forest_height [OF f assms(4)] assms(2,4) by linarith
  then show ?thesis
    using SetTip_ok [OF f assms(3,4)] FindFork_fork [OF f assms(4), of c]
      LastCommonAncestor_last [OF f assms(4,5)] GetLocator_loop_returns [OF f assms(3,4), of 1 "[]"]
    by (auto simp: GetLocator_def list_all_iff)
qed

theorem active_chain_returns_witness:
  "\<exists>bx c. index_reach bx \<and> SetTip (blocks bx) (Some 0) [] = Some c \<and> Tip c = Some 0"
proof -
  obtain bx where bx: "index_reach bx" "length (blocks bx) = 1"
    using index_reach_genesis by blast
  then show ?thesis using active_chain_returns [OF bx(1), of "[]" 0 0] by (auto simp: chain_ok_def)
qed

end
