(* ===== verification/SC_Pow.thy ===== *)
theory SC_Pow
  imports SC_Chain "HOL-Library.Signed_Division"
begin

text \<open>
  Proof of work (\<^verbatim>\<open>pow.cpp\<close>) and the consensus parameters it reads (\<^verbatim>\<open>consensus/params.h\<close>): the target required
  of the next block, its adjustment after every difficulty period, and the check of a block hash
  against its target.  Signed division and remainder of the source truncate towards zero (\<open>sdiv\<close>,
  \<open>smod\<close>).  The adjustment is shown to stay within a factor of four and below the limit.
\<close>

subsection \<open>Consensus parameters\<close>

datatype DeploymentPos = DEPLOYMENT_TESTDUMMY | DEPLOYMENT_CSV | DEPLOYMENT_SEGWIT

record BIP9Deployment =
  dep_bit :: int
  nStartTime :: int
  nTimeout :: int

definition NO_TIMEOUT :: int where
  "NO_TIMEOUT = 9223372036854775807"

definition ALWAYS_ACTIVE :: int where
  "ALWAYS_ACTIVE = - 1"

record ConsensusParams =
  hashGenesisBlock :: uint256
  nSubsidyHalvingInterval :: int
  BIP16Height :: int
  BIP34Height :: int
  BIP34Hash :: uint256
  BIP65Height :: int
  BIP66Height :: int
  nRuleChangeActivationThreshold :: u32
  nMinerConfirmationWindow :: u32
  vDeployments :: "DeploymentPos \<Rightarrow> BIP9Deployment"
  powLimit :: uint256
  fPowAllowMinDifficultyBlocks :: bool
  fPowNoRetargeting :: bool
  nPowTargetSpacing :: int
  nPowTargetTimespan :: int
  nMinimumChainWork :: uint256
  defaultAssumeValid :: uint256

definition DifficultyAdjustmentInterval :: "ConsensusParams \<Rightarrow> int" where
  "DifficultyAdjustmentInterval params = nPowTargetTimespan params sdiv nPowTargetSpacing params"

subsection \<open>The required target\<close>

definition clamp_timespan :: "int \<Rightarrow> int \<Rightarrow> int" where
  "clamp_timespan timespan actual =
     (let a = (if actual < timespan sdiv 4 then timespan sdiv 4 else actual)
      in if a > timespan * 4 then timespan * 4 else a)"

text \<open>The product selects \<open>operator*=(uint32_t)\<close>: an integral conversion is preferred to a constructor.\<close>

definition CalculateNextWorkRequired :: "CBlockIndex \<Rightarrow> int \<Rightarrow> ConsensusParams \<Rightarrow> abort + u32" where
  "CalculateNextWorkRequired pindexLast nFirstBlockTime params =
     (if fPowNoRetargeting params then Inr (bi_nBits pindexLast)
      else let nActualTimespan = clamp_timespan (nPowTargetTimespan params)
                 (s64 (GetBlockTime pindexLast - nFirstBlockTime));
               bnPowLimit = UintToArith256 (powLimit params);
               bnNew = fst (SetCompact (bi_nBits pindexLast))
           in err_bind (au_div (au_mul32 bnNew (of_int nActualTimespan))
                          (au_of_u64 (of_int (nPowTargetTimespan params)))) (\<lambda>bnNew.
              GetCompact (if CompareTo bnNew bnPowLimit > 0 then bnPowLimit else bnNew) False))"

partial_function (option) last_special :: "block_store \<Rightarrow> int \<Rightarrow> u32 \<Rightarrow> pindex \<Rightarrow> pindex option" where
  "last_special st interval limit p =
     (case pprev (st ! p) of
        Some q \<Rightarrow>
          if nHeight (st ! p) smod interval \<noteq> 0 \<and> bi_nBits (st ! p) = limit
          then last_special st interval limit q else Some p
      | None \<Rightarrow> Some p)"

declare last_special.simps [code]

definition GetNextWorkRequired ::
  "block_store \<Rightarrow> pindex option \<Rightarrow> ('a) CBlockHeader_scheme \<Rightarrow> ConsensusParams \<Rightarrow> (abort + u32) option" where
  "GetNextWorkRequired st pindexLast pblock params =
     (case pindexLast of
        None \<Rightarrow> Some (Inl AssertFails)
      | Some p \<Rightarrow>
          (case GetCompact (UintToArith256 (powLimit params)) False of
             Inl e \<Rightarrow> Some (Inl e)
           | Inr nProofOfWorkLimit \<Rightarrow>
               let interval = DifficultyAdjustmentInterval params in
               if (nHeight (st ! p) + 1) smod interval \<noteq> 0
               then if fPowAllowMinDifficultyBlocks params
                    then if CBlockHeader_GetBlockTime pblock > GetBlockTime (st ! p) + nPowTargetSpacing params * 2
                         then Some (Inr nProofOfWorkLimit)
                         else map_option (\<lambda>q. Inr (bi_nBits (st ! q))) (last_special st interval nProofOfWorkLimit p)
                    else Some (Inr (bi_nBits (st ! p)))
               else let nHeightFirst = nHeight (st ! p) - (interval - 1) in
                    if \<not> nHeightFirst \<ge> 0 then Some (Inl AssertFails)
                    else (case GetAncestor st p nHeightFirst of
                            Inl e \<Rightarrow> Some (Inl e)
                          | Inr None \<Rightarrow> Some (Inl AssertFails)
                          | Inr (Some pindexFirst) \<Rightarrow>
                              Some (CalculateNextWorkRequired (st ! p) (GetBlockTime (st ! pindexFirst)) params))))"

definition CheckProofOfWork :: "uint256 \<Rightarrow> u32 \<Rightarrow> ConsensusParams \<Rightarrow> bool" where
  "CheckProofOfWork hash nBits params =
     (case SetCompact nBits of (bnTarget, fNegative, fOverflow) \<Rightarrow>
        if fNegative \<or> EqualTo bnTarget 0 \<or> fOverflow \<or> CompareTo bnTarget (UintToArith256 (powLimit params)) > 0
        then False
        else if CompareTo (UintToArith256 hash) bnTarget > 0 then False
        else True)"

subsection \<open>What the checks decide\<close>

lemma SetCompact_ok: "SetCompact c = (t, neg, ov) \<Longrightarrow> au_ok t"
  by (auto simp: SetCompact_def Let_def split: if_splits)

lemma CheckProofOfWork_iff:
  assumes "length hash = 32" "length (powLimit params) = 32"
  shows "CheckProofOfWork hash nBits params \<longleftrightarrow>
    (\<exists>t. SetCompact nBits = (t, False, False) \<and> 0 < au_val t \<and> au_val t \<le> le_nat (powLimit params) \<and>
      le_nat hash \<le> au_val t)"
proof -
  obtain t neg ov where c: "SetCompact nBits = (t, neg, ov)" by (cases "SetCompact nBits")
  note ok = SetCompact_ok [OF c]
  show ?thesis using assms
    by (auto simp: CheckProofOfWork_def c EqualTo_val [OF ok] CompareTo_val [OF ok] CompareTo_val [OF _ ok]
        UintToArith256_val split: if_splits)
qed

text \<open>The parameters of a network with retargeting: positive periods, and no overflow in the product.\<close>

definition pow_params_ok :: "ConsensusParams \<Rightarrow> bool" where
  "pow_params_ok params \<longleftrightarrow>
     4 \<le> nPowTargetTimespan params \<and> nPowTargetTimespan params * 4 < 2 ^ 32 \<and>
     0 < nPowTargetSpacing params \<and> nPowTargetSpacing params \<le> nPowTargetTimespan params \<and>
     length (powLimit params) = 32 \<and> le_nat (powLimit params) * nat (nPowTargetTimespan params * 4) < 2 ^ 256"

lemma sdiv_pos: "0 \<le> a \<Longrightarrow> 0 < b \<Longrightarrow> a sdiv b = (a :: int) div b"
  by (simp add: signed_divide_int_def sgn_if)

lemma smod_pos: "0 \<le> a \<Longrightarrow> 0 < b \<Longrightarrow> a smod b = (a :: int) mod b"
  by (cases "a = 0") (simp_all add: signed_modulo_int_def)

lemma clamp_timespan_bounds:
  "4 \<le> t \<Longrightarrow> t div 4 \<le> clamp_timespan t a \<and> clamp_timespan t a \<le> t * 4 \<and>
    (t div 4 \<le> a \<and> a \<le> t * 4 \<longrightarrow> clamp_timespan t a = a)"
  by (auto simp: clamp_timespan_def sdiv_pos Let_def)

text \<open>
  The adjusted target: the old one times the clamped timespan over the intended one, at most the
  limit, and truncated by the compact format.
\<close>

lemma CalculateNextWorkRequired_val:
  assumes p: "pow_params_ok params" "\<not> fPowNoRetargeting params"
    and t: "SetCompact (bi_nBits b) = (t, False, False)" "au_val t \<le> le_nat (powLimit params)"
    and a: "a = nat (clamp_timespan (nPowTargetTimespan params) (s64 (GetBlockTime b - first)))"
    and n: "n = min (au_val t * a div nat (nPowTargetTimespan params)) (le_nat (powLimit params))"
  shows "\<exists>c t'. CalculateNextWorkRequired b first params = Inr c \<and> SetCompact c = (t', False, False) \<and>
    au_val t' \<le> n \<and> (n - au_val t') * 2 ^ 15 \<le> n"
proof -
  let ?T = "nPowTargetTimespan params"
  have T: "4 \<le> ?T" "?T * 4 < 2 ^ 32" and l: "length (powLimit params) = 32"
    and prod: "le_nat (powLimit params) * nat (?T * 4) < 2 ^ 256" using p(1) by (auto simp: pow_params_ok_def)
  note clamp = clamp_timespan_bounds [OF T(1), of "s64 (GetBlockTime b - first)"]
  have ab: "a \<le> nat (?T * 4)" "int a = clamp_timespan ?T (s64 (GetBlockTime b - first))"
    using clamp T(1) a by auto
  have ua: "unat (of_int (int a) :: u32) = a" using ab(1) T(2) by (simp add: unat_of_nat)
  have uT: "unat (of_int ?T :: u64) = nat ?T"
  proof -
    obtain k where k: "?T = int k" using T(1) by (metis nonneg_int_cases order_trans zero_le_numeral)
    then show ?thesis using T by (simp add: unat_of_nat)
  qed
  have ok: "au_ok t" using SetCompact_ok [OF t(1)] .
  have "au_val t * a \<le> le_nat (powLimit params) * nat (?T * 4)" using t(2) ab(1) by (intro mult_le_mono)
  then have m: "au_val (au_mul32 t (of_int (int a))) = au_val t * a"
    using prod by (simp only: au_mul32_val [OF ok] ua mod_less)
  obtain q where q: "au_div (au_mul32 t (of_int (int a))) (au_of_u64 (of_int ?T)) = Inr q" "au_ok q"
    "au_val q = au_val t * a div nat ?T"
    using au_div_val(2) [of "au_mul32 t (of_int (int a))" "au_of_u64 (of_int ?T)"] ok m uT T(1)
    by (auto simp: au_of_u64_val)
  let ?lim = "UintToArith256 (powLimit params)"
  let ?r = "if CompareTo q ?lim > 0 then ?lim else q"
  have r: "au_ok ?r" "au_val ?r = n" using q l n by (auto simp: CompareTo_val UintToArith256_val)
  have "CalculateNextWorkRequired b first params = GetCompact ?r False"
    using p(2) t(1) q(1) ab(2) by (simp add: CalculateNextWorkRequired_def Let_def)
  then show ?thesis using compact_encode_decode [OF r(1)] r(2) by auto
qed

lemma GetBlockTime_bounds: "0 \<le> GetBlockTime b \<and> GetBlockTime b < 4294967296"
  using unsigned_less [of "bi_nTime b"] by (simp add: GetBlockTime_def)

lemma interval_pos: "pow_params_ok params \<Longrightarrow> 0 < DifficultyAdjustmentInterval params"
  by (auto simp: pow_params_ok_def DifficultyAdjustmentInterval_def sdiv_pos intro!: pos_imp_zdiv_pos_iff [THEN iffD2])

lemma last_special_returns:
  assumes "forest st" "p < length st"
  shows "\<exists>q n. last_special st interval limit p = Some q \<and> walk_back st p n = Some q"
  using assms(2)
proof (induction p rule: less_induct)
  case (less p)
  have e: "node_ok st p" using assms(1) less.prems by (simp add: forest_def)
  have here: "walk_back st p 0 = Some p" by simp
  show ?case
  proof (cases "pprev (st ! p)")
    case None
    then have "last_special st interval limit p = Some p" by (subst last_special.simps) simp
    then show ?thesis using here by blast
  next
    case (Some q)
    show ?thesis
    proof (cases "nHeight (st ! p) smod interval \<noteq> 0 \<and> bi_nBits (st ! p) = limit")
      case True
      then have step: "last_special st interval limit p = last_special st interval limit q"
        using Some by (subst last_special.simps) simp
      obtain r n where "last_special st interval limit q = Some r" "walk_back st q n = Some r"
        using less.IH [of q] entry_prev [OF e Some] less.prems by auto
      then have "last_special st interval limit p = Some r" "walk_back st p (Suc n) = Some r"
        using step Some by simp_all
      then show ?thesis by blast
    next
      case False
      then have "last_special st interval limit p = Some p" using Some by (subst last_special.simps) auto
      then show ?thesis using here by blast
    qed
  qed
qed

text \<open>Where a period ends, and which block began it.\<close>

lemma period_end:
  assumes "forest st" "p < length st" "0 < N" "(nHeight (st ! p) + 1) smod N = 0"
  shows "0 \<le> nHeight (st ! p) - (N - 1) \<and>
    (\<exists>q. walk_back st p (nat (N - 1)) = Some q \<and> GetAncestor st p (nHeight (st ! p) - (N - 1)) = Inr (Some q))"
proof -
  have h: "0 \<le> nHeight (st ! p)" using forest_height [OF assms(1,2)] by simp
  then have "N dvd nHeight (st ! p) + 1" using assms(3,4) by (simp add: smod_pos dvd_eq_mod_eq_0)
  then have le: "N \<le> nHeight (st ! p) + 1" using h by (intro zdvd_imp_le) simp_all
  obtain q where "walk_back st p (nat (N - 1)) = Some q"
    using walk_back_total [OF assms(1,2), of "nat (N - 1)"] le assms(3) by auto
  then show ?thesis using GetAncestor_walk [OF assms(1,2), of "nHeight (st ! p) - (N - 1)"] le assms(3) by simp
qed

text \<open>
  C33: The target required of the next block, on a network that retargets.  Within a difficulty period it
  is the target of the last block (without the special rule of test networks).  At the end of a period
  no assertion fails and nothing overflows: with \<open>t\<close> the old target, \<open>T\<close> the intended timespan and \<open>a\<close> the
  time between the first and the last block of the period, clamped to \<open>[T/4, 4T]\<close>, the new target is
  \<open>min (t * a / T) powLimit\<close>, truncated by at most one part in \<open>2^15\<close>; it is never above the limit nor
  more than four times the old one.
\<close>

theorem GetNextWorkRequired_bounds:
  assumes "index_reach bx" "p < length (blocks bx)" "pow_params_ok params" "\<not> fPowNoRetargeting params"
    and "SetCompact (bi_nBits (blocks bx ! p)) = (t, False, False)" "au_val t \<le> le_nat (powLimit params)"
  shows "if (nHeight (blocks bx ! p) + 1) mod DifficultyAdjustmentInterval params \<noteq> 0
    then \<not> fPowAllowMinDifficultyBlocks params \<longrightarrow>
      GetNextWorkRequired (blocks bx) (Some p) header params = Some (Inr (bi_nBits (blocks bx ! p)))
    else \<exists>first c t' a n.
      walk_back (blocks bx) p (nat (DifficultyAdjustmentInterval params - 1)) = Some first \<and>
      a = clamp_timespan (nPowTargetTimespan params)
        (GetBlockTime (blocks bx ! p) - GetBlockTime (blocks bx ! first)) \<and>
      nPowTargetTimespan params div 4 \<le> a \<and> a \<le> nPowTargetTimespan params * 4 \<and>
      n = min (au_val t * nat a div nat (nPowTargetTimespan params)) (le_nat (powLimit params)) \<and>
      GetNextWorkRequired (blocks bx) (Some p) header params = Some (Inr c) \<and>
      SetCompact c = (t', False, False) \<and> au_val t' \<le> n \<and> (n - au_val t') * 2 ^ 15 \<le> n \<and>
      au_val t' \<le> 4 * au_val t"
proof -
  let ?st = "blocks bx" and ?N = "DifficultyAdjustmentInterval params" and ?T = "nPowTargetTimespan params"
  have f: "forest ?st" using index_reach_ok [OF assms(1)] by (simp add: index_ok_def)
  have N: "0 < ?N" by (rule interval_pos [OF assms(3)])
  have h: "0 \<le> nHeight (?st ! p)" using forest_height [OF f assms(2)] by simp
  have sm: "(nHeight (?st ! p) + 1) smod ?N = (nHeight (?st ! p) + 1) mod ?N" using h N by (intro smod_pos) simp_all
  obtain limit where limit: "GetCompact (UintToArith256 (powLimit params)) False = Inr limit"
    using compact_encode_decode [OF UintToArith256_ok] by blast
  show ?thesis
  proof (cases "(nHeight (?st ! p) + 1) mod ?N = 0")
    case False
    then show ?thesis using limit sm by (simp add: GetNextWorkRequired_def Let_def)
  next
    case True
    obtain first where w: "walk_back ?st p (nat (?N - 1)) = Some first"
      "GetAncestor ?st p (nHeight (?st ! p) - (?N - 1)) = Inr (Some first)" "0 \<le> nHeight (?st ! p) - (?N - 1)"
      using period_end [OF f assms(2) N] True sm by auto
    let ?d = "GetBlockTime (?st ! p) - GetBlockTime (?st ! first)"
    let ?a = "clamp_timespan ?T ?d"
    let ?n = "min (au_val t * nat ?a div nat ?T) (le_nat (powLimit params))"
    have d: "s64 ?d = ?d"
      using GetBlockTime_bounds [of "?st ! p"] GetBlockTime_bounds [of "?st ! first"]
      by (intro s64_id) (simp add: in_s64_def)
    obtain c t' where c: "CalculateNextWorkRequired (?st ! p) (GetBlockTime (?st ! first)) params = Inr c"
      "SetCompact c = (t', False, False)" "au_val t' \<le> ?n" "(?n - au_val t') * 2 ^ 15 \<le> ?n"
      using CalculateNextWorkRequired_val [OF assms(3-6) refl refl, of "GetBlockTime (?st ! first)"] d by auto
    have T: "4 \<le> ?T" using assms(3) by (simp add: pow_params_ok_def)
    note cl = clamp_timespan_bounds [OF T, of ?d]
    have "?n \<le> au_val t * nat ?a div nat ?T" by simp
    also have "\<dots> \<le> au_val t * (4 * nat ?T) div nat ?T"
      using cl by (intro div_le_mono mult_le_mono2) (simp add: nat_le_iff)
    also have "\<dots> = 4 * au_val t" using T by simp
    finally have "au_val t' \<le> 4 * au_val t" by (rule le_trans [OF c(3)])
    moreover have "GetNextWorkRequired ?st (Some p) header params = Some (Inr c)"
      using limit sm True w c(1) by (simp add: GetNextWorkRequired_def Let_def)
    ultimately show ?thesis using True w(1) cl c by auto
  qed
qed

definition example_params :: ConsensusParams where
  "example_params =
    \<lparr>hashGenesisBlock = uint256_null, nSubsidyHalvingInterval = 210000, BIP16Height = 173805,
     BIP34Height = 227931, BIP34Hash = uint256_null, BIP65Height = 388381, BIP66Height = 363725,
     nRuleChangeActivationThreshold = 1916, nMinerConfirmationWindow = 2016,
     vDeployments = (\<lambda>d. \<lparr>dep_bit = 0, nStartTime = 0, nTimeout = 1\<rparr>),
     powLimit = replicate 28 0xff @ replicate 4 0, fPowAllowMinDifficultyBlocks = False,
     fPowNoRetargeting = False, nPowTargetSpacing = 1209600, nPowTargetTimespan = 1209600,
     nMinimumChainWork = uint256_null, defaultAssumeValid = uint256_null\<rparr>"

lemma le_nat_replicate: "le_nat (replicate n 0xff) + 1 = 256 ^ n" "le_nat (replicate n 0) = 0"
  by (induction n) auto

lemma example_limit: "le_nat (powLimit example_params) = 256 ^ 28 - 1"
  using le_nat_replicate(1) [of 28] by (simp add: example_params_def le_nat_append le_nat_replicate(2))

lemma example_params_ok: "pow_params_ok example_params"
  by (simp add: pow_params_ok_def example_limit) (simp add: example_params_def)

theorem GetNextWorkRequired_bounds_witness:
  "\<exists>bx c t. index_reach bx \<and> SetCompact (bi_nBits (blocks bx ! 0)) = (t, False, False) \<and> 0 < au_val t \<and>
    GetNextWorkRequired (blocks bx) (Some 0) CBlockHeader_null example_params = Some (Inr c)"
proof -
  obtain bx where bx: "index_reach bx" "length (blocks bx) = 1" "nHeight (blocks bx ! 0) = 0"
    "bi_nBits (blocks bx ! 0) = 0x1d00ffff"
    using index_reach_genesis by blast
  obtain t where t: "SetCompact 0x1d00ffff = (t, False, False)" "au_val t = 0xffff * 256 ^ 26"
    using SetCompact_val [of "0x1d00ffff" 29 "0xffff"] by auto
  have lim: "au_val t \<le> le_nat (powLimit example_params)"
    by (simp add: t(2) example_limit)
  have i: "DifficultyAdjustmentInterval example_params = 1" "\<not> fPowNoRetargeting example_params"
    by (simp_all add: DifficultyAdjustmentInterval_def example_params_def sdiv_pos)
  have "(nHeight (blocks bx ! 0) + 1) mod DifficultyAdjustmentInterval example_params = 0" by (simp add: bx i)
  then have "\<exists>c. GetNextWorkRequired (blocks bx) (Some 0) CBlockHeader_null example_params = Some (Inr c)"
    using GetNextWorkRequired_bounds [OF bx(1) _ example_params_ok i(2) _ lim, of 0 CBlockHeader_null] bx t(1)
    by (simp only: if_False simp_thms less_one zero_less_one) blast
  then show ?thesis using bx t by auto
qed

end
