(* ===== verification/SC_VersionBits.thy ===== *)
theory SC_VersionBits
  imports SC_TxVerify SC_ActiveChain SC_Pow
begin

text \<open>
  Deployments by version bits, BIP 9 (\<^verbatim>\<open>versionbits.h\<close>, \<^verbatim>\<open>versionbits.cpp\<close>).  The abstract checker is a record
  of its virtual functions, applied to the consensus parameters; the cache of states is a partial
  function on block pointers.  The two loops of \<open>GetStateFor\<close>, back to a known state and forward again,
  are compared with the state machine defined period by period, without a cache.  A loop that need
  not end for a period that is not positive is a partial function: \<open>None\<close> means that it does not return.
\<close>

subsection \<open>States and checkers\<close>

definition VERSIONBITS_LAST_OLD_BLOCK_VERSION :: int where
  "VERSIONBITS_LAST_OLD_BLOCK_VERSION = 4"

definition VERSIONBITS_TOP_BITS :: u32 where
  "VERSIONBITS_TOP_BITS = 0x20000000"

definition VERSIONBITS_TOP_MASK :: u32 where
  "VERSIONBITS_TOP_MASK = 0xE0000000"

definition VERSIONBITS_NUM_BITS :: nat where
  "VERSIONBITS_NUM_BITS = 29"

datatype ThresholdState =
    THRESHOLD_DEFINED
  | THRESHOLD_STARTED
  | THRESHOLD_LOCKED_IN
  | THRESHOLD_ACTIVE
  | THRESHOLD_FAILED

type_synonym ThresholdConditionCache = "pindex option \<Rightarrow> ThresholdState option"

record BIP9Stats =
  st_period :: int
  st_threshold :: int
  st_elapsed :: int
  st_count :: int
  st_possible :: bool

record AbstractThresholdConditionChecker =
  BeginTime :: int
  EndTime :: int
  Period :: int
  Threshold :: int
  Condition :: "pindex \<Rightarrow> bool"

subsection \<open>The state of a block\<close>

partial_function (option) find_known ::
  "block_store \<Rightarrow> AbstractThresholdConditionChecker \<Rightarrow> pindex option \<Rightarrow> pindex list \<Rightarrow> ThresholdConditionCache \<Rightarrow>
    (val_error + pindex option \<times> pindex list \<times> ThresholdConditionCache) option" where
  "find_known st ck pindexPrev vToCompute cache =
     (if cache pindexPrev \<noteq> None then Some (Inr (pindexPrev, vToCompute, cache))
      else case pindexPrev of
          None \<Rightarrow> Some (Inr (None, vToCompute, cache(None \<mapsto> THRESHOLD_DEFINED)))
        | Some p \<Rightarrow>
            if GetMedianTimePast st p < BeginTime ck
            then Some (Inr (Some p, vToCompute, cache(Some p \<mapsto> THRESHOLD_DEFINED)))
            else (case GetAncestor st p (nHeight (st ! p) - Period ck) of
                    Inl e \<Rightarrow> Some (Inl (ValAbort e))
                  | Inr q \<Rightarrow> find_known st ck q (p # vToCompute) cache))"

fun count_signals :: "block_store \<Rightarrow> AbstractThresholdConditionChecker \<Rightarrow> nat \<Rightarrow> pindex option \<Rightarrow> int \<Rightarrow> val_error + int" where
  "count_signals st ck 0 pindexCount cnt = Inr cnt"
| "count_signals st ck (Suc i) None cnt = Inl ValNull"
| "count_signals st ck (Suc i) (Some p) cnt =
     count_signals st ck i (pprev (st ! p)) (if Condition ck p then cnt + 1 else cnt)"

definition state_next :: "block_store \<Rightarrow> AbstractThresholdConditionChecker \<Rightarrow> ThresholdState \<Rightarrow> pindex \<Rightarrow> val_error + ThresholdState" where
  "state_next st ck state p =
     (case state of
        THRESHOLD_DEFINED \<Rightarrow>
          if GetMedianTimePast st p \<ge> EndTime ck then Inr THRESHOLD_FAILED
          else if GetMedianTimePast st p \<ge> BeginTime ck then Inr THRESHOLD_STARTED
          else Inr state
      | THRESHOLD_STARTED \<Rightarrow>
          if GetMedianTimePast st p \<ge> EndTime ck then Inr THRESHOLD_FAILED
          else err_bind (count_signals st ck (nat (Period ck)) (Some p) 0) (\<lambda>cnt.
            if cnt \<ge> Threshold ck then Inr THRESHOLD_LOCKED_IN else Inr state)
      | THRESHOLD_LOCKED_IN \<Rightarrow> Inr THRESHOLD_ACTIVE
      | THRESHOLD_FAILED \<Rightarrow> Inr state
      | THRESHOLD_ACTIVE \<Rightarrow> Inr state)"

fun walk_forward ::
  "block_store \<Rightarrow> AbstractThresholdConditionChecker \<Rightarrow> ThresholdState \<Rightarrow> pindex list \<Rightarrow> ThresholdConditionCache \<Rightarrow>
    val_error + ThresholdState \<times> ThresholdConditionCache" where
  "walk_forward st ck state [] cache = Inr (state, cache)"
| "walk_forward st ck state (p # vToCompute) cache =
     err_bind (state_next st ck state p) (\<lambda>stateNext.
       walk_forward st ck stateNext vToCompute (cache(Some p \<mapsto> stateNext)))"

definition period_parent :: "block_store \<Rightarrow> AbstractThresholdConditionChecker \<Rightarrow> pindex \<Rightarrow> val_error + pindex option" where
  "period_parent st ck p =
     or_abort (GetAncestor st p (nHeight (st ! p) - (nHeight (st ! p) + 1) smod Period ck))"

definition GetStateFor ::
  "block_store \<Rightarrow> AbstractThresholdConditionChecker \<Rightarrow> pindex option \<Rightarrow> ThresholdConditionCache \<Rightarrow>
    (val_error + ThresholdState \<times> ThresholdConditionCache) option" where
  "GetStateFor st ck pindexPrev cache =
     (if BeginTime ck = ALWAYS_ACTIVE then Some (Inr (THRESHOLD_ACTIVE, cache))
      else case (case pindexPrev of None \<Rightarrow> Inr None | Some p \<Rightarrow> period_parent st ck p) of
          Inl e \<Rightarrow> Some (Inl e)
        | Inr pindexPrev \<Rightarrow>
            map_option (\<lambda>r. err_bind r (\<lambda>(pindexPrev, vToCompute, cache).
                case cache pindexPrev of
                  None \<Rightarrow> Inl ValAssert
                | Some state \<Rightarrow> walk_forward st ck state vToCompute cache))
              (find_known st ck pindexPrev [] cache))"

partial_function (option) count_since ::
  "block_store \<Rightarrow> AbstractThresholdConditionChecker \<Rightarrow> pindex \<Rightarrow> pindex option \<Rightarrow> int \<Rightarrow> (val_error + int) option" where
  "count_since st ck pindexEndOfPrevPeriod currentIndex cnt =
     (case currentIndex of
        None \<Rightarrow> Some (Inl ValNull)
      | Some p \<Rightarrow>
          if nHeight (st ! pindexEndOfPrevPeriod) \<noteq> nHeight (st ! p)
          then count_since st ck pindexEndOfPrevPeriod (pprev (st ! p)) (if Condition ck p then cnt + 1 else cnt)
          else Some (Inr cnt))"

definition GetStateStatisticsFor ::
  "block_store \<Rightarrow> AbstractThresholdConditionChecker \<Rightarrow> pindex option \<Rightarrow> (val_error + BIP9Stats) option" where
  "GetStateStatisticsFor st ck pindex =
     (let stats = \<lparr>st_period = Period ck, st_threshold = Threshold ck, st_elapsed = 0, st_count = 0, st_possible = False\<rparr> in
      case pindex of
        None \<Rightarrow> Some (Inr stats)
      | Some p \<Rightarrow>
          (case period_parent st ck p of
             Inl e \<Rightarrow> Some (Inl e)
           | Inr None \<Rightarrow> Some (Inl ValNull)
           | Inr (Some q) \<Rightarrow>
               map_option (\<lambda>r. err_bind r (\<lambda>cnt.
                   let elapsed = nHeight (st ! p) - nHeight (st ! q) in
                   Inr (stats\<lparr>st_elapsed := elapsed, st_count := cnt,
                              st_possible := Period ck - Threshold ck \<ge> elapsed - cnt\<rparr>)))
                 (count_since st ck q (Some p) 0)))"

partial_function (option) since_loop ::
  "block_store \<Rightarrow> AbstractThresholdConditionChecker \<Rightarrow> ThresholdState \<Rightarrow> pindex \<Rightarrow> ThresholdConditionCache \<Rightarrow>
    (val_error + int \<times> ThresholdConditionCache) option" where
  "since_loop st ck initialState p cache =
     (case GetAncestor st p (nHeight (st ! p) - Period ck) of
        Inl e \<Rightarrow> Some (Inl (ValAbort e))
      | Inr None \<Rightarrow> Some (Inr (nHeight (st ! p) + 1, cache))
      | Inr (Some previousPeriodParent) \<Rightarrow>
          Option.bind (GetStateFor st ck (Some previousPeriodParent) cache) (\<lambda>r.
            case r of
              Inl e \<Rightarrow> Some (Inl e)
            | Inr (state, cache) \<Rightarrow>
                if state = initialState then since_loop st ck initialState previousPeriodParent cache
                else Some (Inr (nHeight (st ! p) + 1, cache))))"

definition GetStateSinceHeightFor ::
  "block_store \<Rightarrow> AbstractThresholdConditionChecker \<Rightarrow> pindex option \<Rightarrow> ThresholdConditionCache \<Rightarrow>
    (val_error + int \<times> ThresholdConditionCache) option" where
  "GetStateSinceHeightFor st ck pindexPrev cache =
     (if BeginTime ck = ALWAYS_ACTIVE then Some (Inr (0, cache))
      else Option.bind (GetStateFor st ck pindexPrev cache) (\<lambda>r.
        case r of
          Inl e \<Rightarrow> Some (Inl e)
        | Inr (initialState, cache) \<Rightarrow>
            if initialState = THRESHOLD_DEFINED then Some (Inr (0, cache))
            else (case pindexPrev of
                    None \<Rightarrow> Some (Inl ValNull)
                  | Some p \<Rightarrow>
                      (case period_parent st ck p of
                         Inl e \<Rightarrow> Some (Inl e)
                       | Inr None \<Rightarrow> Some (Inl ValNull)
                       | Inr (Some q) \<Rightarrow> since_loop st ck initialState q cache))))"

subsection \<open>The deployments\<close>

definition VersionBitsMask :: "ConsensusParams \<Rightarrow> DeploymentPos \<Rightarrow> u32" where
  "VersionBitsMask params pos = push_bit (nat (dep_bit (vDeployments params pos))) 1"

definition VersionBitsConditionChecker :: "block_store \<Rightarrow> ConsensusParams \<Rightarrow> DeploymentPos \<Rightarrow> AbstractThresholdConditionChecker" where
  "VersionBitsConditionChecker st params pos =
     \<lparr>BeginTime = nStartTime (vDeployments params pos), EndTime = nTimeout (vDeployments params pos),
      Period = sint (nMinerConfirmationWindow params), Threshold = sint (nRuleChangeActivationThreshold params),
      Condition = (\<lambda>p. let v = of_int (bi_nVersion (st ! p)) :: u32 in
        v AND VERSIONBITS_TOP_MASK = VERSIONBITS_TOP_BITS \<and> v AND VersionBitsMask params pos \<noteq> 0)\<rparr>"

type_synonym VersionBitsCache = "DeploymentPos \<Rightarrow> ThresholdConditionCache"

definition VersionBitsCache_Clear :: "VersionBitsCache \<Rightarrow> VersionBitsCache" where
  "VersionBitsCache_Clear cache = (\<lambda>d k. None)"

definition VersionBitsState ::
  "block_store \<Rightarrow> pindex option \<Rightarrow> ConsensusParams \<Rightarrow> DeploymentPos \<Rightarrow> VersionBitsCache \<Rightarrow>
    (val_error + ThresholdState \<times> VersionBitsCache) option" where
  "VersionBitsState st pindexPrev params pos cache =
     map_option (\<lambda>r. err_bind r (\<lambda>(state, c). Inr (state, cache(pos := c))))
       (GetStateFor st (VersionBitsConditionChecker st params pos) pindexPrev (cache pos))"

definition VersionBitsStatistics ::
  "block_store \<Rightarrow> pindex option \<Rightarrow> ConsensusParams \<Rightarrow> DeploymentPos \<Rightarrow> (val_error + BIP9Stats) option" where
  "VersionBitsStatistics st pindexPrev params pos =
     GetStateStatisticsFor st (VersionBitsConditionChecker st params pos) pindexPrev"

definition VersionBitsStateSinceHeight ::
  "block_store \<Rightarrow> pindex option \<Rightarrow> ConsensusParams \<Rightarrow> DeploymentPos \<Rightarrow> VersionBitsCache \<Rightarrow>
    (val_error + int \<times> VersionBitsCache) option" where
  "VersionBitsStateSinceHeight st pindexPrev params pos cache =
     map_option (\<lambda>r. err_bind r (\<lambda>(h, c). Inr (h, cache(pos := c))))
       (GetStateSinceHeightFor st (VersionBitsConditionChecker st params pos) pindexPrev (cache pos))"

subsection \<open>The state machine without a cache\<close>

text \<open>
  A period ends at the blocks whose height is one below a multiple of the period; \<open>period_state\<close> runs the
  machine over the ends of the first periods of a chain, and \<open>state_of\<close> is the state it assigns to the
  block after such an end, or to the first block for \<open>None\<close>.
\<close>

definition signals :: "block_store \<Rightarrow> AbstractThresholdConditionChecker \<Rightarrow> pindex \<Rightarrow> nat" where
  "signals st ck p =
     length (filter (\<lambda>i. case walk_back st p i of None \<Rightarrow> False | Some q \<Rightarrow> Condition ck q) [0..<nat (Period ck)])"

fun bip9_next :: "block_store \<Rightarrow> AbstractThresholdConditionChecker \<Rightarrow> ThresholdState \<Rightarrow> pindex \<Rightarrow> ThresholdState" where
  "bip9_next st ck THRESHOLD_DEFINED p =
     (if EndTime ck \<le> GetMedianTimePast st p then THRESHOLD_FAILED
      else if BeginTime ck \<le> GetMedianTimePast st p then THRESHOLD_STARTED else THRESHOLD_DEFINED)"
| "bip9_next st ck THRESHOLD_STARTED p =
     (if EndTime ck \<le> GetMedianTimePast st p then THRESHOLD_FAILED
      else if Threshold ck \<le> int (signals st ck p) then THRESHOLD_LOCKED_IN else THRESHOLD_STARTED)"
| "bip9_next st ck THRESHOLD_LOCKED_IN p = THRESHOLD_ACTIVE"
| "bip9_next st ck THRESHOLD_ACTIVE p = THRESHOLD_ACTIVE"
| "bip9_next st ck THRESHOLD_FAILED p = THRESHOLD_FAILED"

fun period_state :: "block_store \<Rightarrow> AbstractThresholdConditionChecker \<Rightarrow> nat \<Rightarrow> pindex \<Rightarrow> ThresholdState" where
  "period_state st ck 0 p = bip9_next st ck THRESHOLD_DEFINED p"
| "period_state st ck (Suc k) p =
     bip9_next st ck
       (case walk_back st p (nat (Period ck)) of None \<Rightarrow> THRESHOLD_DEFINED | Some q \<Rightarrow> period_state st ck k q) p"

definition state_of :: "block_store \<Rightarrow> AbstractThresholdConditionChecker \<Rightarrow> pindex option \<Rightarrow> ThresholdState" where
  "state_of st ck e =
     (case e of None \<Rightarrow> THRESHOLD_DEFINED
      | Some p \<Rightarrow> period_state st ck (nat (nHeight (st ! p) div Period ck)) p)"

definition period_end_of :: "block_store \<Rightarrow> AbstractThresholdConditionChecker \<Rightarrow> pindex option \<Rightarrow> pindex option" where
  "period_end_of st ck b =
     (case b of None \<Rightarrow> None
      | Some p \<Rightarrow> let r = (nHeight (st ! p) + 1) mod Period ck in
          if r \<le> nHeight (st ! p) then walk_back st p (nat r) else None)"

definition bip9_state :: "block_store \<Rightarrow> AbstractThresholdConditionChecker \<Rightarrow> pindex option \<Rightarrow> ThresholdState" where
  "bip9_state st ck b =
     (if BeginTime ck = ALWAYS_ACTIVE then THRESHOLD_ACTIVE else state_of st ck (period_end_of st ck b))"

definition prev_end :: "block_store \<Rightarrow> AbstractThresholdConditionChecker \<Rightarrow> pindex \<Rightarrow> pindex option" where
  "prev_end st ck p =
     (if Period ck \<le> nHeight (st ! p) then walk_back st p (nat (Period ck)) else None)"

definition is_end :: "block_store \<Rightarrow> AbstractThresholdConditionChecker \<Rightarrow> pindex \<Rightarrow> bool" where
  "is_end st ck p \<longleftrightarrow> p < length st \<and> (nHeight (st ! p) + 1) mod Period ck = 0"

definition cache_valid :: "block_store \<Rightarrow> AbstractThresholdConditionChecker \<Rightarrow> ThresholdConditionCache \<Rightarrow> bool" where
  "cache_valid st ck cache \<longleftrightarrow> (\<forall>e s. cache e = Some s \<longrightarrow> s = state_of st ck e)"

text \<open>The setting of all results: a chain of headers with rising median times and a proper deployment.\<close>

definition deployment_ok :: "block_store \<Rightarrow> AbstractThresholdConditionChecker \<Rightarrow> bool" where
  "deployment_ok st ck \<longleftrightarrow> forest st \<and> timely st \<and> 0 < Period ck \<and> BeginTime ck \<le> EndTime ck"

lemma deployment_facts:
  assumes "deployment_ok st ck"
  shows "forest st" "timely st" "0 < Period ck" "BeginTime ck \<le> EndTime ck"
  using assms by (simp_all add: deployment_ok_def)

lemma cache_valid_upd: "cache_valid st ck cache \<Longrightarrow> s = state_of st ck e \<Longrightarrow> cache_valid st ck (cache(e \<mapsto> s))"
  by (auto simp: cache_valid_def)

lemma end_height:
  assumes "0 < P" "(h + 1) mod P = 0" "0 \<le> h"
  shows "(h::int) div P = (h + 1) div P - 1" "P - 1 \<le> h"
proof -
  obtain k where k: "h + 1 = P * k" using assms(2) by (auto simp: mod_eq_0_iff_dvd)
  then have h: "h = P * (k - 1) + (P - 1)" by (simp add: algebra_simps)
  have "h div P = k - 1" unfolding h using assms(1) by (simp add: div_pos_pos_trivial)
  moreover have "(h + 1) div P = k" using k assms(1) by simp
  ultimately show "h div P = (h + 1) div P - 1" by simp
  have "1 \<le> k" using k assms(1,3) by (metis add_nonneg_pos int_one_le_iff_zero_less zero_less_mult_pos zero_less_one)
  then have "P * 1 \<le> P * k" using assms(1) by (intro mult_left_mono) auto
  then show "P - 1 \<le> h" using k by simp
qed

lemma prev_end_facts:
  assumes "deployment_ok st ck" "is_end st ck p"
  shows "GetAncestor st p (nHeight (st ! p) - Period ck) = Inr (prev_end st ck p)"
    and "prev_end st ck p = Some q \<Longrightarrow>
      walk_back st p (nat (Period ck)) = Some q \<and> is_end st ck q \<and> nHeight (st ! q) = nHeight (st ! p) - Period ck"
    and "state_of st ck (Some p) = bip9_next st ck (state_of st ck (prev_end st ck p)) p"
proof -
  note d = deployment_facts [OF assms(1)]
  have p: "p < length st" "(nHeight (st ! p) + 1) mod Period ck = 0" using assms(2) by (auto simp: is_end_def)
  note h = forest_height [OF d(1) p(1)]
  show "GetAncestor st p (nHeight (st ! p) - Period ck) = Inr (prev_end st ck p)"
    using GetAncestor_walk [OF d(1) p(1), of "nHeight (st ! p) - Period ck"] d(3) by (auto simp: prev_end_def)
  show pe: "walk_back st p (nat (Period ck)) = Some q \<and> is_end st ck q \<and> nHeight (st ! q) = nHeight (st ! p) - Period ck"
    if q: "prev_end st ck p = Some q" for q
  proof -
    have le: "Period ck \<le> nHeight (st ! p)" and w: "walk_back st p (nat (Period ck)) = Some q"
      using q by (auto simp: prev_end_def split: if_splits)
    obtain q' where "walk_back st p (nat (Period ck)) = Some q'" "q' \<le> p"
      "nHeight (st ! q') = nHeight (st ! p) - int (nat (Period ck))"
      using walk_back_total [OF d(1) p(1), of "nat (Period ck)"] le d(3) by auto
    then have q': "q < length st" "nHeight (st ! q) = nHeight (st ! p) - Period ck" using w p(1) d(3) by auto
    moreover have "nHeight (st ! p) - Period ck + 1 = nHeight (st ! p) + 1 + Period ck * (- 1)" by simp
    then have "(nHeight (st ! p) - Period ck + 1) mod Period ck = 0" using p(2) by (simp only: mod_mult_self2)
    ultimately show ?thesis using w by (simp add: is_end_def)
  qed
  have div: "nHeight (st ! q) div Period ck = nHeight (st ! p) div Period ck - 1" if "prev_end st ck p = Some q" for q
    using pe [OF that] d(3) div_mult_self2 [of "Period ck" "nHeight (st ! p)" "- 1"] by simp
  show "state_of st ck (Some p) = bip9_next st ck (state_of st ck (prev_end st ck p)) p"
  proof (cases "prev_end st ck p")
    case None
    then have lt: "nHeight (st ! p) < Period ck"
      using walk_back_total [OF d(1) p(1), of "nat (Period ck)"] d(3) by (force simp: prev_end_def split: if_splits)
    then have "nHeight (st ! p) div Period ck = 0" using h by (simp add: div_pos_pos_trivial)
    then show ?thesis using None by (simp add: state_of_def)
  next
    case (Some q)
    have "0 \<le> nHeight (st ! q) div Period ck"
      using forest_height [OF d(1), of q] pe [OF Some] d(3) by (simp add: is_end_def pos_imp_zdiv_nonneg_iff)
    then have "nat (nHeight (st ! p) div Period ck) = Suc (nat (nHeight (st ! q) div Period ck))"
      using div [OF Some] by simp
    then show ?thesis using Some pe [OF Some] by (simp add: state_of_def)
  qed
qed

lemma before_start:
  assumes "deployment_ok st ck" "is_end st ck p" "GetMedianTimePast st p < BeginTime ck"
  shows "state_of st ck (Some p) = THRESHOLD_DEFINED"
  using assms(2,3)
proof (induction p rule: measure_induct_rule [of "\<lambda>p. nat (nHeight (st ! p))"])
  case (less p)
  note d = deployment_facts [OF assms(1)]
  have "state_of st ck (prev_end st ck p) = THRESHOLD_DEFINED"
  proof (cases "prev_end st ck p")
    case (Some q)
    note q = prev_end_facts(2) [OF assms(1) less.prems(1) Some]
    have "GetMedianTimePast st q \<le> GetMedianTimePast st p"
      using median_time_walk [OF d(1,2)] q less.prems(1) by (auto simp: is_end_def)
    moreover have "nat (nHeight (st ! q)) < nat (nHeight (st ! p))"
      using q d(3) forest_height [OF d(1), of q] by (auto simp: is_end_def)
    ultimately show ?thesis using less.IH [of q] q less.prems(2) Some by auto
  qed (simp add: state_of_def)
  then show ?case using prev_end_facts(3) [OF assms(1) less.prems(1)] less.prems(2) d(4) by simp
qed

subsection \<open>The two loops\<close>

lemma count_signals_walk:
  assumes "\<forall>j<n. \<exists>q. walk_back st p (i + j) = Some q"
  shows "count_signals st ck n (walk_back st p i) c =
    Inr (c + int (length (filter (\<lambda>i. case walk_back st p i of None \<Rightarrow> False | Some q \<Rightarrow> Condition ck q) [i..<i + n])))"
  using assms
proof (induction n arbitrary: i c)
  case (Suc n)
  obtain q where q: "walk_back st p i = Some q" using Suc.prems by (metis add_0_right zero_less_Suc)
  have nxt: "pprev (st ! q) = walk_back st p (Suc i)"
    using walk_back_add [of st p i 1] q by (auto split: option.splits)
  have "\<forall>j<n. \<exists>q. walk_back st p (Suc i + j) = Some q" using Suc.prems by (metis Suc_less_eq add_Suc_shift)
  note IH = Suc.IH [OF this]
  have "[i..<i + Suc n] = i # [Suc i..<Suc i + n]" by (simp add: upt_conv_Cons)
  then show ?case using IH q by (simp add: nxt)
qed simp

lemma state_next_eq:
  assumes "deployment_ok st ck" "is_end st ck p"
  shows "state_next st ck s p = Inr (bip9_next st ck s p)"
proof -
  note d = deployment_facts [OF assms(1)]
  have p: "p < length st" "(nHeight (st ! p) + 1) mod Period ck = 0" using assms(2) by (auto simp: is_end_def)
  have "Period ck - 1 \<le> nHeight (st ! p)" using end_height(2) [OF d(3) p(2)] forest_height [OF d(1) p(1)] by simp
  then have "\<exists>q. walk_back st p j = Some q" if "j < nat (Period ck)" for j
    using walk_back_total [OF d(1) p(1), of j] that by fastforce
  then have "count_signals st ck (nat (Period ck)) (Some p) 0 = Inr (int (signals st ck p))"
    using count_signals_walk [of "nat (Period ck)" st p 0 ck 0] by (simp add: signals_def)
  then show ?thesis by (cases s) (simp_all add: state_next_def not_less)
qed

text \<open>The blocks to compute lead from the known state to the wanted one.\<close>

fun leads :: "block_store \<Rightarrow> AbstractThresholdConditionChecker \<Rightarrow> pindex option \<Rightarrow> pindex list \<Rightarrow> pindex option \<Rightarrow> bool" where
  "leads st ck e [] e' \<longleftrightarrow> e = e'"
| "leads st ck e (p # ps) e' \<longleftrightarrow> is_end st ck p \<and> prev_end st ck p = e \<and> leads st ck (Some p) ps e'"

lemma leads_snoc: "leads st ck e ps e' \<Longrightarrow> is_end st ck p \<Longrightarrow> prev_end st ck p = e' \<Longrightarrow> leads st ck e (ps @ [p]) (Some p)"
  by (induction ps arbitrary: e) auto

lemma walk_forward_leads:
  assumes "deployment_ok st ck" "leads st ck e ps e'" "cache_valid st ck cache"
  shows "\<exists>cache'. walk_forward st ck (state_of st ck e) ps cache = Inr (state_of st ck e', cache') \<and> cache_valid st ck cache'"
  using assms(2,3)
proof (induction ps arbitrary: e cache)
  case (Cons p ps)
  then have p: "is_end st ck p" "prev_end st ck p = e" by auto
  have s: "state_next st ck (state_of st ck e) p = Inr (state_of st ck (Some p))"
    using state_next_eq [OF assms(1) p(1)] prev_end_facts(3) [OF assms(1) p(1)] p(2) by simp
  show ?case using Cons.IH [of "Some p"] Cons.prems cache_valid_upd [OF Cons.prems(2) refl] by (simp add: s)
qed simp

lemma find_known_returns:
  assumes "deployment_ok st ck" "cache_valid st ck cache" "case e of None \<Rightarrow> True | Some p \<Rightarrow> is_end st ck p"
  shows "\<exists>e0 ps cache'. find_known st ck e v cache = Some (Inr (e0, ps @ v, cache')) \<and>
    leads st ck e0 ps e \<and> cache_valid st ck cache' \<and> cache' e0 = Some (state_of st ck e0)"
  using assms(3)
proof (induction "case e of None \<Rightarrow> 0 | Some p \<Rightarrow> Suc (nat (nHeight (st ! p)))" arbitrary: e v rule: less_induct)
  case less
  note d = deployment_facts [OF assms(1)]
  consider (known) "cache e \<noteq> None" | (root) "cache e = None" "e = None"
    | (early) p where "cache e = None" "e = Some p" "GetMedianTimePast st p < BeginTime ck"
    | (down) p where "cache e = None" "e = Some p" "\<not> GetMedianTimePast st p < BeginTime ck" by (cases e) auto
  then show ?case
  proof cases
    case known
    then obtain s where s: "cache e = Some s" "s = state_of st ck e" using assms(2) unfolding cache_valid_def by blast
    then have "find_known st ck e v cache = Some (Inr (e, [] @ v, cache))" by (subst find_known.simps) simp
    then show ?thesis using s assms(2) by (intro exI [of _ e] exI [of _ "[]"] exI [of _ cache]) simp
  next
    case root
    then have "find_known st ck e v cache = Some (Inr (e, [] @ v, cache(None \<mapsto> THRESHOLD_DEFINED)))"
      by (subst find_known.simps) simp
    moreover have "state_of st ck None = THRESHOLD_DEFINED" by (simp add: state_of_def)
    ultimately show ?thesis using root cache_valid_upd [OF assms(2), of THRESHOLD_DEFINED None]
      by (intro exI [of _ e] exI [of _ "[]"] exI [of _ "cache(None \<mapsto> THRESHOLD_DEFINED)"]) simp
  next
    case early
    have s: "state_of st ck (Some p) = THRESHOLD_DEFINED"
      using before_start [OF assms(1) _ early(3)] less.prems early(2) by simp
    have "find_known st ck e v cache = Some (Inr (e, [] @ v, cache(e \<mapsto> THRESHOLD_DEFINED)))"
      using early by (subst find_known.simps) simp
    then show ?thesis using early s cache_valid_upd [OF assms(2), of THRESHOLD_DEFINED e]
      by (intro exI [of _ e] exI [of _ "[]"] exI [of _ "cache(e \<mapsto> THRESHOLD_DEFINED)"]) simp
  next
    case down
    have p: "is_end st ck p" using less.prems down(2) by simp
    have step: "find_known st ck e v cache = find_known st ck (prev_end st ck p) (p # v) cache"
      using down prev_end_facts(1) [OF assms(1) p] by (subst find_known.simps) simp
    have smaller: "(case prev_end st ck p of None \<Rightarrow> 0 | Some q \<Rightarrow> Suc (nat (nHeight (st ! q)))) <
        (case e of None \<Rightarrow> 0 | Some p \<Rightarrow> Suc (nat (nHeight (st ! p))))"
    proof (cases "prev_end st ck p")
      case (Some q)
      then show ?thesis using prev_end_facts(2) [OF assms(1) p Some] d(3) forest_height [OF d(1), of q] down(2)
        by (simp add: is_end_def)
    qed (simp add: down(2))
    have "case prev_end st ck p of None \<Rightarrow> True | Some q \<Rightarrow> is_end st ck q"
      using prev_end_facts(2) [OF assms(1) p] by (auto split: option.splits)
    then obtain e0 ps cache' where r: "find_known st ck (prev_end st ck p) (p # v) cache = Some (Inr (e0, ps @ p # v, cache'))"
      "leads st ck e0 ps (prev_end st ck p)" "cache_valid st ck cache'" "cache' e0 = Some (state_of st ck e0)"
      using less.hyps [OF smaller] by blast
    have "leads st ck e0 (ps @ [p]) e" using leads_snoc [OF r(2) p refl] down(2) by simp
    then show ?thesis using r step by (intro exI [of _ e0] exI [of _ "ps @ [p]"] exI [of _ cache']) simp
  qed
qed

lemma period_parent_end:
  assumes "deployment_ok st ck" "p < length st"
  shows "period_parent st ck p = Inr (period_end_of st ck (Some p))"
    and "period_end_of st ck (Some p) = Some q \<Longrightarrow> is_end st ck q"
proof -
  note d = deployment_facts [OF assms(1)]
  note h = forest_height [OF d(1) assms(2)]
  let ?r = "(nHeight (st ! p) + 1) mod Period ck"
  have r: "0 \<le> ?r" using d(3) by simp
  have "(nHeight (st ! p) + 1) smod Period ck = ?r" using h d(3) by (intro smod_pos) auto
  then show "period_parent st ck p = Inr (period_end_of st ck (Some p))"
    using GetAncestor_walk [OF d(1) assms(2), of "nHeight (st ! p) - ?r"] r
    by (auto simp: period_parent_def period_end_of_def Let_def)
  show "is_end st ck q" if q: "period_end_of st ck (Some p) = Some q"
  proof -
    have le: "?r \<le> nHeight (st ! p)" and w: "walk_back st p (nat ?r) = Some q"
      using q by (auto simp: period_end_of_def Let_def split: if_splits)
    then have q': "q < length st" "nHeight (st ! q) = nHeight (st ! p) - ?r"
      using walk_back_total [OF d(1) assms(2), of "nat ?r"] r assms(2) by auto
    have "nHeight (st ! q) + 1 = nHeight (st ! p) + 1 - ?r" using q'(2) by simp
    then show ?thesis using q'(1) by (simp only: is_end_def minus_mod_eq_mult_div mod_mult_self1_is_0 simp_thms)
  qed
qed

lemma GetStateFor_spec:
  assumes "deployment_ok st ck" "cache_valid st ck cache" "case b of None \<Rightarrow> True | Some p \<Rightarrow> p < length st"
  shows "\<exists>cache'. GetStateFor st ck b cache = Some (Inr (bip9_state st ck b, cache')) \<and> cache_valid st ck cache'"
proof (cases "BeginTime ck = ALWAYS_ACTIVE")
  case True
  then show ?thesis using assms(2) by (simp add: GetStateFor_def bip9_state_def)
next
  case False
  let ?e = "period_end_of st ck b"
  have e: "(case b of None \<Rightarrow> Inr None | Some p \<Rightarrow> period_parent st ck p) = Inr ?e"
    using period_parent_end(1) [OF assms(1)] assms(3) by (cases b) (auto simp: period_end_of_def)
  have "case ?e of None \<Rightarrow> True | Some p \<Rightarrow> is_end st ck p"
    using period_parent_end(2) [OF assms(1)] assms(3) by (cases b) (auto simp: period_end_of_def split: option.splits)
  then obtain e0 ps cache' where r: "find_known st ck ?e [] cache = Some (Inr (e0, ps @ [], cache'))"
    "leads st ck e0 ps ?e" "cache_valid st ck cache'" "cache' e0 = Some (state_of st ck e0)"
    using find_known_returns [OF assms(1,2)] by blast
  show ?thesis using walk_forward_leads [OF assms(1) r(2,3)] False r
    by (simp add: GetStateFor_def e bip9_state_def)
qed

text \<open>
  C7: For a deployment that starts before it times out, on a chain with rising median times, \<open>GetStateFor\<close>
  returns without an error, whatever valid cache it is given, and gives the block the state that the
  BIP 9 state machine reaches when it is run over the periods of the chain from the start; the cache
  it leaves is valid again.
\<close>

theorem GetStateFor_correct:
  assumes "deployment_ok st ck" "cache_valid st ck cache" "p < length st"
  shows "\<exists>cache'. GetStateFor st ck (Some p) cache = Some (Inr (bip9_state st ck (Some p), cache')) \<and>
    cache_valid st ck cache'"
  using GetStateFor_spec [OF assms(1,2), of "Some p"] assms(3) by simp

subsection \<open>Every deployment is decided by its timeout\<close>

lemma decided_at_end:
  assumes "deployment_ok st ck" "is_end st ck p" "EndTime ck \<le> GetMedianTimePast st p"
  shows "state_of st ck (Some p) \<in> {THRESHOLD_ACTIVE, THRESHOLD_FAILED}"
  unfolding prev_end_facts(3) [OF assms(1,2)] using assms(3) by (cases "state_of st ck (prev_end st ck p)") simp_all

lemma walk_back_split: "m \<le> n \<Longrightarrow> walk_back st p n = Some r \<Longrightarrow> walk_back st p m = Some q \<Longrightarrow> walk_back st q (n - m) = Some r"
  using walk_back_add [of st p m "n - m"] by simp

lemma decided_stays:
  assumes "deployment_ok st ck" "is_end st ck p" "state_of st ck (Some p) \<in> {THRESHOLD_ACTIVE, THRESHOLD_FAILED}"
    and "is_end st ck q" "walk_back st q n = Some p"
  shows "state_of st ck (Some q) = state_of st ck (Some p)"
  using assms(4,5)
proof (induction n arbitrary: q rule: less_induct)
  case (less n)
  note d = deployment_facts [OF assms(1)]
  have q: "q < length st" "(nHeight (st ! q) + 1) mod Period ck = 0" using less.prems(1) by (auto simp: is_end_def)
  have p: "p < length st" "(nHeight (st ! p) + 1) mod Period ck = 0" using assms(2) by (auto simp: is_end_def)
  have len: "int n \<le> nHeight (st ! q)" "nHeight (st ! p) = nHeight (st ! q) - int n"
    using walk_back_height [OF d(1) q(1) less.prems(2)] forest_height [OF d(1) p(1)] by auto
  show ?case
  proof (cases "n = 0")
    case True
    then show ?thesis using less.prems(2) by simp
  next
    case False
    have "Period ck dvd (nHeight (st ! q) + 1) - (nHeight (st ! p) + 1)"
      using p(2) q(2) by (intro dvd_diff) (simp_all only: mod_eq_0_iff_dvd)
    then have "Period ck dvd int n" using len(2) by simp
    then have P: "Period ck \<le> int n" using False zdvd_imp_le by simp
    obtain r where r1: "walk_back st q (nat (Period ck)) = Some r"
      using walk_back_total [OF d(1) q(1), of "nat (Period ck)"] P len(1) d(3) by auto
    then have r: "walk_back st q (nat (Period ck)) = Some r" "walk_back st r (n - nat (Period ck)) = Some p"
      using walk_back_split [OF _ less.prems(2) r1] P by auto
    have pe: "prev_end st ck q = Some r" using r(1) P len(1) by (simp add: prev_end_def)
    have "is_end st ck r" using prev_end_facts(2) [OF assms(1) less.prems(1) pe] by simp
    then have "state_of st ck (Some r) = state_of st ck (Some p)" using less.IH [OF _ _ r(2)] P d(3) by simp
    then show ?thesis
      using prev_end_facts(3) [OF assms(1) less.prems(1)] pe assms(3) by auto
  qed
qed

lemma period_end_walk:
  assumes "deployment_ok st ck" "p < length st" "Period ck \<le> nHeight (st ! p)"
  shows "\<exists>e. period_end_of st ck (Some p) = Some e \<and> is_end st ck e \<and>
    walk_back st p (nat ((nHeight (st ! p) + 1) mod Period ck)) = Some e"
proof -
  note d = deployment_facts [OF assms(1)]
  let ?r = "(nHeight (st ! p) + 1) mod Period ck"
  have "?r < Period ck" by (rule pos_mod_bound [OF d(3)])
  then have r: "0 \<le> ?r" "?r \<le> nHeight (st ! p)" using pos_mod_sign [OF d(3)] assms(3) by (blast, linarith)
  obtain e where e: "walk_back st p (nat ?r) = Some e" using walk_back_total [OF d(1) assms(2), of "nat ?r"] r by auto
  then have "period_end_of st ck (Some p) = Some e" using r(2) by (simp add: period_end_of_def)
  with e show ?thesis using period_parent_end(2) [OF assms(1,2)] by simp
qed

text \<open>
  C15: A deployment is decided once its timeout is one period in the past: if an ancestor at least a period
  below a block has a median time at or after the timeout, the state of the block is active or failed,
  and every descendant of the block has the same state.
\<close>

theorem deployment_decided:
  assumes "deployment_ok st ck" "cache_valid st ck cache" "p < length st"
    and "walk_back st p m = Some r" "Period ck \<le> int m" "EndTime ck \<le> GetMedianTimePast st r"
    and "q < length st" "walk_back st q n = Some p"
  shows "\<exists>s c1 c2. s \<in> {THRESHOLD_ACTIVE, THRESHOLD_FAILED} \<and>
    GetStateFor st ck (Some p) cache = Some (Inr (s, c1)) \<and> GetStateFor st ck (Some q) cache = Some (Inr (s, c2))"
proof -
  note d = deployment_facts [OF assms(1)]
  let ?P = "Period ck" and ?hp = "nHeight (st ! p)" and ?hq = "nHeight (st ! q)"
  have hq: "?hp = ?hq - int n" using walk_back_height [OF d(1) assms(7,8)] by simp
  have "r < length st" using walk_back_height [OF d(1) assms(3,4)] assms(3) by simp
  then have hp: "?P \<le> ?hp" using walk_back_height [OF d(1) assms(3,4)] forest_height [OF d(1), of r] assms(5) by simp
  obtain e where e: "period_end_of st ck (Some p) = Some e" "is_end st ck e" "walk_back st p (nat ((?hp + 1) mod ?P)) = Some e"
    using period_end_walk [OF assms(1,3) hp] by blast
  have "?P \<le> ?hq" using hp hq by simp
  then obtain f where f: "period_end_of st ck (Some q) = Some f" "is_end st ck f" "walk_back st q (nat ((?hq + 1) mod ?P)) = Some f"
    using period_end_walk [OF assms(1,7)] by blast
  have rem: "0 \<le> (x + 1) mod ?P" "(x + 1) mod ?P < ?P" for x using d(3) by simp_all
  have "walk_back st e (m - nat ((?hp + 1) mod ?P)) = Some r"
    using assms(5) rem [of ?hp] by (intro walk_back_split [OF _ assms(4) e(3)]) simp
  then have "GetMedianTimePast st r \<le> GetMedianTimePast st e"
    using median_time_walk [OF d(1,2)] e(2) by (simp add: is_end_def)
  then have dec: "state_of st ck (Some e) \<in> {THRESHOLD_ACTIVE, THRESHOLD_FAILED}"
    using decided_at_end [OF assms(1) e(2)] assms(6) by simp
  have "?P * ((?hp + 1) div ?P) \<le> ?P * ((?hq + 1) div ?P)"
    using hq d(3) by (intro mult_left_mono zdiv_mono1) auto
  then have "?hp + 1 - (?hp + 1) mod ?P \<le> ?hq + 1 - (?hq + 1) mod ?P" by (simp add: minus_mod_eq_mult_div)
  then have le: "nat ((?hq + 1) mod ?P) \<le> n + nat ((?hp + 1) mod ?P)" using hq rem [of ?hp] rem [of ?hq] by linarith
  have "walk_back st q (n + nat ((?hp + 1) mod ?P)) = Some e" using walk_back_add [of st q n] assms(8) e(3) by simp
  then have "walk_back st f (n + nat ((?hp + 1) mod ?P) - nat ((?hq + 1) mod ?P)) = Some e"
    using walk_back_split [OF le _ f(3)] by simp
  then have "state_of st ck (Some f) = state_of st ck (Some e)" by (rule decided_stays [OF assms(1) e(2) dec f(2)])
  then have "bip9_state st ck (Some q) = bip9_state st ck (Some p)" "bip9_state st ck (Some p) \<in> {THRESHOLD_ACTIVE, THRESHOLD_FAILED}"
    using dec e(1) f(1) by (auto simp: bip9_state_def)
  then show ?thesis
    using GetStateFor_spec [OF assms(1,2), of "Some p"] GetStateFor_spec [OF assms(1,2), of "Some q"] assms(3,7) by auto
qed

subsection \<open>Examples\<close>

text \<open>Two deployments with periods of one block on the example chain: one locks in, one times out.\<close>

definition example_checker :: "int \<Rightarrow> AbstractThresholdConditionChecker" where
  "example_checker timeout = \<lparr>BeginTime = 10, EndTime = timeout, Period = 1, Threshold = 1, Condition = (\<lambda>p. p = 1)\<rparr>"

lemma example_deployment_ok: "10 \<le> timeout \<Longrightarrow> deployment_ok example_store (example_checker timeout)"
  using example_store_forest example_store_timely by (simp add: deployment_ok_def example_checker_def)

lemma empty_cache_valid: "cache_valid st ck (\<lambda>e. None)"
  by (simp add: cache_valid_def)

theorem GetStateFor_correct_witness:
  "\<exists>c1 c2. GetStateFor example_store (example_checker 50) (Some 1) (\<lambda>e. None) = Some (Inr (THRESHOLD_LOCKED_IN, c1)) \<and>
    GetStateFor example_store (example_checker 50) (Some 2) (\<lambda>e. None) = Some (Inr (THRESHOLD_ACTIVE, c2))"
proof -
  have "bip9_state example_store (example_checker 50) (Some 1) = THRESHOLD_LOCKED_IN"
    "bip9_state example_store (example_checker 50) (Some 2) = THRESHOLD_ACTIVE"
    by (code_simp, code_simp)
  then show ?thesis
    using GetStateFor_correct [OF example_deployment_ok empty_cache_valid, of 50 1]
      GetStateFor_correct [OF example_deployment_ok empty_cache_valid, of 50 2]
    by (auto simp: example_store_simps)
qed

theorem deployment_decided_witness:
  "\<exists>c1 c2. GetStateFor example_store (example_checker 10) (Some 1) (\<lambda>e. None) = Some (Inr (THRESHOLD_FAILED, c1)) \<and>
    GetStateFor example_store (example_checker 10) (Some 2) (\<lambda>e. None) = Some (Inr (THRESHOLD_FAILED, c2))"
proof -
  have w: "walk_back example_store 1 1 = Some 0" "walk_back example_store 2 1 = Some 1"
    using example_store_simps(3,4) by simp_all
  obtain s c1 c2 where s: "s \<in> {THRESHOLD_ACTIVE, THRESHOLD_FAILED}"
    "GetStateFor example_store (example_checker 10) (Some 1) (\<lambda>e. None) = Some (Inr (s, c1))"
    "GetStateFor example_store (example_checker 10) (Some 2) (\<lambda>e. None) = Some (Inr (s, c2))"
    using deployment_decided [OF example_deployment_ok empty_cache_valid _ w(1) _ _ _ w(2), of 10]
      example_store_times(1) example_store_simps(1) by (auto simp: example_checker_def)
  have "bip9_state example_store (example_checker 10) (Some 1) = THRESHOLD_FAILED" by code_simp
  then have "s = THRESHOLD_FAILED"
    using GetStateFor_spec [OF example_deployment_ok empty_cache_valid, of 10 "Some 1"] s(2) by (auto simp: example_store_simps)
  then show ?thesis using s by blast
qed

end
