(* ===== verification/SC_CheckBlock.thy ===== *)
theory SC_CheckBlock
  imports SC_VersionBits SC_Merkle
begin

text \<open>
  The validity of a block and of a header apart from the unspent outputs (\<^verbatim>\<open>validation.cpp\<close>): \<open>CheckBlock\<close>,
  the commitment to the witnesses, and the checks that depend on the preceding headers.  The cache of
  deployment states is passed along.  \<open>GetBlockWeight\<close>, which belongs to a header that is not part of the
  sources, is an argument.
\<close>

subsection \<open>Checks without context\<close>

definition CheckBlockHeader :: "('a) CBlockHeader_scheme \<Rightarrow> ConsensusParams \<Rightarrow> bool \<Rightarrow> val_error + unit" where
  "CheckBlockHeader block params fCheckPOW =
     (if fCheckPOW \<and> \<not> CheckProofOfWork (CBlockHeader_GetHash block) (bh_nBits block) params
      then Inl (DoS 50 REJECT_INVALID ''high-hash'' False)
      else Inr ())"

text \<open>A transaction that fails its check is reported again, with the same code and reason.\<close>

fun as_invalid :: "val_error \<Rightarrow> val_error" where
  "as_invalid (DoS level code reason corruption) = Invalid code reason"
| "as_invalid e = e"

fun check_transactions :: "CTransaction list \<Rightarrow> val_error + unit" where
  "check_transactions [] = Inr ()"
| "check_transactions (tx # txs) =
     (case CheckTransaction tx False of
        Inl e \<Rightarrow> Inl (as_invalid e)
      | Inr _ \<Rightarrow> check_transactions txs)"

definition check_merkle_root :: "CBlock \<Rightarrow> val_error + unit" where
  "check_merkle_root block =
     (case BlockMerkleRoot block of (hashMerkleRoot2, mutated) \<Rightarrow>
        if hashMerkleRoot block \<noteq> hashMerkleRoot2 then Inl (DoS 100 REJECT_INVALID ''bad-txnmrklroot'' True)
        else if mutated then Inl (DoS 100 REJECT_INVALID ''bad-txns-duplicate'' True)
        else Inr ())"

definition block_sigops :: "CTransaction list \<Rightarrow> u32" where
  "block_sigops txs = foldl (\<lambda>nSigOps tx. nSigOps + GetLegacySigOpCount tx) 0 txs"

definition CheckBlock :: "CBlock \<Rightarrow> ConsensusParams \<Rightarrow> bool \<Rightarrow> bool \<Rightarrow> val_error + CBlock" where
  "CheckBlock block params fCheckPOW fCheckMerkleRoot =
     (if fChecked block then Inr block
      else err_bind (CheckBlockHeader block params fCheckPOW) (\<lambda>_.
        err_bind (if fCheckMerkleRoot then check_merkle_root block else Inr ()) (\<lambda>_.
        if vtx block = [] \<or> length (vtx block) * WITNESS_SCALE_FACTOR > MAX_BLOCK_WEIGHT \<or>
           length (Serialize_CBlock False block) * WITNESS_SCALE_FACTOR > MAX_BLOCK_WEIGHT
        then Inl (DoS 100 REJECT_INVALID ''bad-blk-length'' False)
        else if vtx block = [] \<or> \<not> IsCashBase (vtx block ! 0)
        then Inl (DoS 100 REJECT_INVALID ''bad-cb-missing'' False)
        else if list_ex IsCashBase (tl (vtx block)) then Inl (DoS 100 REJECT_INVALID ''bad-cb-multiple'' False)
        else err_bind (check_transactions (vtx block)) (\<lambda>_.
          if uint (block_sigops (vtx block) * of_nat WITNESS_SCALE_FACTOR) > MAX_BLOCK_SIGOPS_COST
          then Inl (DoS 100 REJECT_INVALID ''bad-blk-sigops'' False)
          else Inr (if fCheckPOW \<and> fCheckMerkleRoot then block\<lparr>fChecked := True\<rparr> else block)))))"

subsection \<open>Deployments and the witness commitment\<close>

definition IsWitnessEnabled ::
  "block_store \<Rightarrow> pindex option \<Rightarrow> ConsensusParams \<Rightarrow> VersionBitsCache \<Rightarrow> (val_error + bool \<times> VersionBitsCache) option" where
  "IsWitnessEnabled st pindexPrev params vbc =
     map_option (\<lambda>r. err_bind r (\<lambda>(state, vbc). Inr (state = THRESHOLD_ACTIVE, vbc)))
       (VersionBitsState st pindexPrev params DEPLOYMENT_SEGWIT vbc)"

definition is_commitment :: "CScript \<Rightarrow> bool" where
  "is_commitment script \<longleftrightarrow>
     length script \<ge> 38 \<and> script ! 0 = OP_RETURN \<and> script ! 1 = 0x24 \<and> script ! 2 = 0xaa \<and> script ! 3 = 0x21 \<and>
     script ! 4 = 0xa9 \<and> script ! 5 = 0xed"

fun commitment_loop :: "CTxOut list \<Rightarrow> nat \<Rightarrow> nat option \<Rightarrow> nat option" where
  "commitment_loop [] i commitpos = commitpos"
| "commitment_loop (txout # outs) i commitpos =
     commitment_loop outs (Suc i) (if is_commitment (scriptPubKey txout) then Some i else commitpos)"

definition GetWitnessCommitmentIndex :: "CBlock \<Rightarrow> nat option" where
  "GetWitnessCommitmentIndex block =
     (if vtx block \<noteq> [] then commitment_loop (vout (vtx block ! 0)) 0 None else None)"

definition with_nonce :: "CTransaction \<Rightarrow> CTransaction" where
  "with_nonce tx =
     (let t = CMutableTransaction.truncate tx in
      CTransaction_of (t\<lparr>vin := (vin t)[0 := (vin t ! 0)\<lparr>scriptWitness := [replicate 32 0]\<rparr>]\<rparr>))"

definition UpdateUncommittedBlockStructures ::
  "block_store \<Rightarrow> CBlock \<Rightarrow> pindex option \<Rightarrow> ConsensusParams \<Rightarrow> VersionBitsCache \<Rightarrow>
    (val_error + CBlock \<times> VersionBitsCache) option" where
  "UpdateUncommittedBlockStructures st block pindexPrev params vbc =
     (if GetWitnessCommitmentIndex block = None then Some (Inr (block, vbc))
      else map_option (\<lambda>r. err_bind r (\<lambda>(enabled, vbc).
             Inr (if enabled \<and> \<not> HasWitness (vtx block ! 0)
                  then block\<lparr>vtx := (vtx block)[0 := with_nonce (vtx block ! 0)]\<rparr> else block, vbc)))
        (IsWitnessEnabled st pindexPrev params vbc))"

definition witness_commitment :: "uint256 \<Rightarrow> bytes \<Rightarrow> uint256" where
  "witness_commitment witnessroot nonce =
     CHash256_Finalize (CHash256_Write nonce (CHash256_Write witnessroot CSHA256_new))"

definition commitment_script :: "CBlock \<Rightarrow> CScript" where
  "commitment_script block =
     [OP_RETURN, 0x24, 0xaa, 0x21, 0xa9, 0xed] @ witness_commitment (fst (BlockWitnessMerkleRoot block)) (replicate 32 0)"

definition with_output :: "CTxOut \<Rightarrow> CTransaction \<Rightarrow> CTransaction" where
  "with_output txout tx =
     (let t = CMutableTransaction.truncate tx in CTransaction_of (t\<lparr>vout := vout t @ [txout]\<rparr>))"

definition GenerateCashbaseCommitment ::
  "block_store \<Rightarrow> CBlock \<Rightarrow> pindex option \<Rightarrow> ConsensusParams \<Rightarrow> VersionBitsCache \<Rightarrow>
    (val_error + bytes \<times> CBlock \<times> VersionBitsCache) option" where
  "GenerateCashbaseCommitment st block pindexPrev params vbc =
     (let (commitment, block) =
        (if nTimeout (vDeployments params DEPLOYMENT_SEGWIT) \<noteq> 0 \<and> GetWitnessCommitmentIndex block = None
         then let script = commitment_script block in
           (script, block\<lparr>vtx := (vtx block)[0 := with_output \<lparr>nValue = 0, scriptPubKey = script\<rparr> (vtx block ! 0)]\<rparr>)
         else ([], block)) in
      map_option (\<lambda>r. err_bind r (\<lambda>(block, vbc). Inr (commitment, block, vbc)))
        (UpdateUncommittedBlockStructures st block pindexPrev params vbc))"

subsection \<open>Checks that depend on the preceding headers\<close>

fun GetLastCheckpoint :: "block_index \<Rightarrow> (int \<times> uint256) list \<Rightarrow> pindex option" where
  "GetLastCheckpoint bx [] = None"
| "GetLastCheckpoint bx ((h, hash) # checkpoints) =
     (case GetLastCheckpoint bx checkpoints of
        Some p \<Rightarrow> Some p
      | None \<Rightarrow> mapBlockIndex bx hash)"

definition MAX_FUTURE_BLOCK_TIME :: int where
  "MAX_FUTURE_BLOCK_TIME = 2 * 60 * 60"

definition hex_digit :: "u32 \<Rightarrow> char" where
  "hex_digit d = ''0123456789abcdef'' ! unat (d AND 15)"

definition hex08 :: "u32 \<Rightarrow> string" where
  "hex08 w = map (\<lambda>i. hex_digit (drop_bit (4 * i) w)) (rev [0..<8])"

text \<open>
  The parameters of a chain, with the checkpoints in the order of their heights, and the settings of
  the node that the checks of a header read.
\<close>

record CChainParams =
  consensus :: ConsensusParams
  mapCheckpoints :: "(int \<times> uint256) list"

definition ContextualCheckBlockHeader ::
  "block_index \<Rightarrow> bool \<Rightarrow> ('a) CBlockHeader_scheme \<Rightarrow> CChainParams \<Rightarrow> pindex option \<Rightarrow> int \<Rightarrow> (val_error + unit) option" where
  "ContextualCheckBlockHeader bx fCheckpointsEnabled block chainparams pindexPrev nAdjustedTime =
     (case pindexPrev of
        None \<Rightarrow> Some (Inl ValAssert)
      | Some p \<Rightarrow>
          let st = blocks bx; params = consensus chainparams; height = s32 (nHeight (st ! p) + 1) in
          map_option (\<lambda>r. err_bind (or_abort r) (\<lambda>required.
            if bh_nBits block \<noteq> required then Inl (DoS 100 REJECT_INVALID ''bad-diffbits'' False)
            else if fCheckpointsEnabled \<and>
              (case GetLastCheckpoint bx (mapCheckpoints chainparams) of
                 None \<Rightarrow> False | Some c \<Rightarrow> height < nHeight (st ! c))
            then Inl (DoS 100 REJECT_CHECKPOINT ''bad-fork-prior-to-checkpoint'' False)
            else if CBlockHeader_GetBlockTime block \<le> GetMedianTimePast st p
            then Inl (Invalid REJECT_INVALID ''time-too-old'')
            else if CBlockHeader_GetBlockTime block > nAdjustedTime + MAX_FUTURE_BLOCK_TIME
            then Inl (Invalid REJECT_INVALID ''time-too-new'')
            else if (bh_nVersion block < 2 \<and> height \<ge> BIP34Height params) \<or>
                    (bh_nVersion block < 3 \<and> height \<ge> BIP66Height params) \<or>
                    (bh_nVersion block < 4 \<and> height \<ge> BIP65Height params)
            then Inl (Invalid REJECT_OBSOLETE (''bad-version(0x'' @ hex08 (of_int (bh_nVersion block)) @ '')''))
            else Inr ()))
          (GetNextWorkRequired st (Some p) block params))"

definition check_witness :: "CBlock \<Rightarrow> bool \<Rightarrow> val_error + unit" where
  "check_witness block enabled =
     err_bind
       (case (if enabled then GetWitnessCommitmentIndex block else None) of
          None \<Rightarrow> Inr False
        | Some commitpos \<Rightarrow>
            let hashWitness = fst (BlockWitnessMerkleRoot block);
                stack = scriptWitness (vin (vtx block ! 0) ! 0) in
            if length stack \<noteq> 1 \<or> length (stack ! 0) \<noteq> 32
            then Inl (DoS 100 REJECT_INVALID ''bad-witness-nonce-size'' True)
            else if witness_commitment hashWitness (stack ! 0) \<noteq>
                    take 32 (drop 6 (scriptPubKey (vout (vtx block ! 0) ! commitpos)))
            then Inl (DoS 100 REJECT_INVALID ''bad-witness-merkle-match'' True)
            else Inr True)
       (\<lambda>fHaveWitness.
         if \<not> fHaveWitness \<and> list_ex HasWitness (vtx block)
         then Inl (DoS 100 REJECT_INVALID ''unexpected-witness'' True)
         else Inr ())"

definition check_cashbase_height :: "CBlock \<Rightarrow> int \<Rightarrow> ConsensusParams \<Rightarrow> val_error + unit" where
  "check_cashbase_height block height params =
     (if height \<ge> BIP34Height params then
        let expect = push_int64 height; sig = scriptSig (vin (vtx block ! 0) ! 0) in
        if length sig < length expect \<or> take (length expect) sig \<noteq> expect
        then Inl (DoS 100 REJECT_INVALID ''bad-cb-height'' False) else Inr ()
      else Inr ())"

definition lock_time_cutoff :: "block_store \<Rightarrow> CBlock \<Rightarrow> pindex option \<Rightarrow> ThresholdState \<Rightarrow> val_error + int" where
  "lock_time_cutoff st block pindexPrev csv =
     (if csv = THRESHOLD_ACTIVE
      then (case pindexPrev of None \<Rightarrow> Inl ValNull | Some p \<Rightarrow> Inr (GetMedianTimePast st p))
      else Inr (CBlockHeader_GetBlockTime block))"

definition ContextualCheckBlock ::
  "(CBlock \<Rightarrow> int) \<Rightarrow> block_store \<Rightarrow> CBlock \<Rightarrow> ConsensusParams \<Rightarrow> pindex option \<Rightarrow> VersionBitsCache \<Rightarrow>
    (val_error + VersionBitsCache) option" where
  "ContextualCheckBlock GetBlockWeight st block params pindexPrev vbc =
     (let height = (case pindexPrev of None \<Rightarrow> 0 | Some p \<Rightarrow> s32 (nHeight (st ! p) + 1)) in
      Option.bind (VersionBitsState st pindexPrev params DEPLOYMENT_CSV vbc) (\<lambda>r1.
        case err_bind r1 (\<lambda>(csv, vbc).
            err_bind (lock_time_cutoff st block pindexPrev csv) (\<lambda>nLockTimeCutoff.
            if list_ex (\<lambda>tx. \<not> IsFinalTx tx height nLockTimeCutoff) (vtx block)
            then Inl (DoS 10 REJECT_INVALID ''bad-txns-nonfinal'' False)
            else err_bind (check_cashbase_height block height params) (\<lambda>_. Inr vbc))) of
          Inl e \<Rightarrow> Some (Inl e)
        | Inr vbc \<Rightarrow>
            map_option (\<lambda>r2. err_bind r2 (\<lambda>(segwit, vbc).
                err_bind (check_witness block (segwit = THRESHOLD_ACTIVE)) (\<lambda>_.
                if GetBlockWeight block > int MAX_BLOCK_WEIGHT
                then Inl (DoS 100 REJECT_INVALID ''bad-blk-weight'' False)
                else Inr vbc)))
              (VersionBitsState st pindexPrev params DEPLOYMENT_SEGWIT vbc)))"

subsection \<open>Signature operations are counted exactly\<close>

definition legacy_sigops :: "('a) CMutableTransaction_scheme \<Rightarrow> nat" where
  "legacy_sigops tx =
     sum_list (map (\<lambda>txin. GetSigOpCount False (scriptSig txin)) (vin tx)) +
     sum_list (map (\<lambda>txout. GetSigOpCount False (scriptPubKey txout)) (vout tx))"

lemma foldl_of_nat: "foldl (\<lambda>n x. n + of_nat (f x)) (of_nat a) xs = (of_nat (a + sum_list (map f xs)) :: u32)"
proof (induction xs arbitrary: a)
  case (Cons x xs)
  have "foldl (\<lambda>n x. n + of_nat (f x)) (of_nat a) (x # xs) = foldl (\<lambda>n x. n + of_nat (f x)) (of_nat (a + f x)) xs" by simp
  then show ?case using Cons [of "a + f x"] by (simp add: add.assoc)
qed simp

lemma GetLegacySigOpCount_of_nat: "GetLegacySigOpCount tx = of_nat (legacy_sigops tx)"
  using foldl_of_nat [of "\<lambda>txin. GetSigOpCount False (scriptSig txin)" 0 "vin tx"]
    foldl_of_nat [of "\<lambda>txout. GetSigOpCount False (scriptPubKey txout)" _ "vout tx"]
  by (simp add: GetLegacySigOpCount_def legacy_sigops_def)

lemma block_sigops_of_nat: "block_sigops txs = of_nat (sum_list (map legacy_sigops txs))"
  using foldl_of_nat [of legacy_sigops 0 txs] by (simp add: block_sigops_def GetLegacySigOpCount_of_nat)

lemma sum_list_le_concat:
  assumes "\<And>x. f x \<le> 20 * length (g x)"
  shows "sum_list (map f xs) \<le> 20 * length (concat (map g xs))"
proof (induction xs)
  case (Cons x xs)
  then show ?case using assms [of x] by simp
qed simp

lemma legacy_sigops_size: "legacy_sigops tx \<le> 20 * length (SerializeTransaction False tx)"
proof -
  have i: "GetSigOpCount False (scriptSig t) \<le> 20 * length (Serialize_CTxIn t)" for t
    using GetSigOpCount_bounds [of "scriptSig t"] by (simp add: Serialize_CTxIn_def Serialize_bytes_def)
  have o: "GetSigOpCount False (scriptPubKey t) \<le> 20 * length (Serialize_CTxOut t)" for t
    using GetSigOpCount_bounds [of "scriptPubKey t"] by (simp add: Serialize_CTxOut_def Serialize_bytes_def)
  show ?thesis
    using sum_list_le_concat [of "\<lambda>txin. GetSigOpCount False (scriptSig txin)" Serialize_CTxIn "vin tx", OF i]
      sum_list_le_concat [of "\<lambda>txout. GetSigOpCount False (scriptPubKey txout)" Serialize_CTxOut "vout tx", OF o]
    by (simp add: legacy_sigops_def SerializeTransaction_def Serialize_vector_def)
qed

lemma block_sigops_size: "sum_list (map legacy_sigops (vtx block)) \<le> 20 * length (Serialize_CBlock False block)"
  using sum_list_le_concat [of legacy_sigops "SerializeTransaction False" "vtx block", OF legacy_sigops_size]
  by (simp add: Serialize_CBlock_def Serialize_vector_def)

text \<open>
  C37: A block that \<open>CheckBlock\<close> accepts has at most 20000 signature operations, counted as natural numbers:
  the 32-bit counters cannot wrap around within the size limit.  It starts with its only cashbase, all
  its transactions pass \<open>CheckTransaction\<close>, and its Merkle root is that of its transactions, none of them
  repeated at the end of a level of the tree.
\<close>

theorem CheckBlock_limits:
  assumes "CheckBlock block params fCheckPOW True = Inr block'" "\<not> fChecked block"
  shows "4 * sum_list (map legacy_sigops (vtx block)) \<le> 80000 \<and> length (Serialize_CBlock False block) \<le> 1000000 \<and>
    (\<exists>cb txs. vtx block = cb # txs \<and> IsCashBase cb \<and> list_all (\<lambda>tx. \<not> IsCashBase tx) txs) \<and>
    list_all (\<lambda>tx. CheckTransaction tx False = Inr ()) (vtx block) \<and>
    BlockMerkleRoot block = (hashMerkleRoot block, False)"
proof -
  have size: "length (Serialize_CBlock False block) \<le> 1000000"
    and ne: "vtx block \<noteq> []" "IsCashBase (vtx block ! 0)" "\<not> list_ex IsCashBase (tl (vtx block))"
    and tx: "check_transactions (vtx block) = Inr ()"
    and ops: "uint (block_sigops (vtx block) * of_nat WITNESS_SCALE_FACTOR) \<le> MAX_BLOCK_SIGOPS_COST"
    and root: "check_merkle_root block = Inr ()"
    using assms by (auto simp: CheckBlock_def err_bind_Inr WITNESS_SCALE_FACTOR_def MAX_BLOCK_WEIGHT_def split: if_splits)
  let ?n = "sum_list (map legacy_sigops (vtx block))"
  have "4 * ?n < 2 ^ 32" using block_sigops_size [of block] size by simp
  then have "uint (of_nat (4 * ?n) :: u32) = int (4 * ?n)"
    by (simp only: unsigned_of_nat take_bit_nat_eq_self len_of_numeral_defs) (simp add: take_bit_nat_eq_self)
  moreover have "block_sigops (vtx block) * of_nat WITNESS_SCALE_FACTOR = of_nat (4 * ?n)"
    by (simp add: block_sigops_of_nat WITNESS_SCALE_FACTOR_def)
  ultimately have "uint (block_sigops (vtx block) * of_nat WITNESS_SCALE_FACTOR) = int (4 * ?n)" by simp
  then have "4 * ?n \<le> 80000" using ops by (simp add: MAX_BLOCK_SIGOPS_COST_def)
  moreover have "\<exists>cb txs. vtx block = cb # txs \<and> IsCashBase cb \<and> list_all (\<lambda>tx. \<not> IsCashBase tx) txs"
    using ne by (cases "vtx block") (auto simp: list_ex_iff list_all_iff)
  moreover have "list_all (\<lambda>tx. CheckTransaction tx False = Inr ()) txs" if "check_transactions txs = Inr ()" for txs
    using that by (induction txs) (auto split: sum.splits)
  moreover have "BlockMerkleRoot block = (hashMerkleRoot block, False)"
    using root by (cases "BlockMerkleRoot block") (auto simp: check_merkle_root_def split: if_splits)
  ultimately show ?thesis using size tx by blast
qed

subsection \<open>The generated commitment is accepted\<close>

lemma commitment_loop_append: "commitment_loop (xs @ [x]) i acc =
    (if is_commitment (scriptPubKey x) then Some (i + length xs) else commitment_loop xs i acc)"
  by (induction xs arbitrary: i acc) auto

lemma with_output_simps [simp]:
  "vin (with_output txout tx) = vin tx" "vout (with_output txout tx) = vout tx @ [txout]"
  by (simp_all add: with_output_def Let_def CTransaction_of_def CMutableTransaction.defs)

lemma with_nonce_simps [simp]:
  "vout (with_nonce tx) = vout tx"
  "vin (with_nonce tx) = (vin tx)[0 := (vin tx ! 0)\<lparr>scriptWitness := [replicate 32 0]\<rparr>]"
  by (simp_all add: with_nonce_def Let_def CTransaction_of_def CMutableTransaction.defs)

text \<open>
  C38: \<open>GenerateCashbaseCommitment\<close> makes a block that passes the witness checks: when the deployment is
  active and the cashbase has no commitment and no witness yet, it adds an output that commits to the
  witnesses of the other transactions and the nonce, and the check of the commitment accepts both.
\<close>

theorem GenerateCashbaseCommitment_accepted:
  assumes "vtx block = cb # txs" "vin cb \<noteq> []" "\<not> HasWitness cb" "GetWitnessCommitmentIndex block = None"
    and "nTimeout (vDeployments params DEPLOYMENT_SEGWIT) \<noteq> 0"
    and "IsWitnessEnabled st pindexPrev params vbc = Some (Inr (True, vbc'))"
  shows "\<exists>commitment block'. GenerateCashbaseCommitment st block pindexPrev params vbc =
      Some (Inr (commitment, block', vbc')) \<and>
    GetWitnessCommitmentIndex block' = Some (length (vout cb)) \<and> tl (vtx block') = txs \<and>
    check_witness block' True = Inr ()"
proof -
  let ?script = "commitment_script block" and ?out = "\<lparr>nValue = 0, scriptPubKey = commitment_script block\<rparr>"
  let ?cb = "with_output ?out cb"
  let ?b1 = "block\<lparr>vtx := ?cb # txs\<rparr>" and ?b2 = "block\<lparr>vtx := with_nonce ?cb # txs\<rparr>"
  have len: "length (witness_commitment r n) = 32" for r n
    using length_Hash(2) by (simp add: witness_commitment_def Hash2_def)
  have com: "is_commitment ?script" by (simp add: commitment_script_def is_commitment_def len)
  have root: "BlockWitnessMerkleRoot ?b2 = BlockWitnessMerkleRoot block" by (simp add: BlockWitnessMerkleRoot_def assms(1))
  have pos: "GetWitnessCommitmentIndex ?b1 = Some (length (vout cb))" "GetWitnessCommitmentIndex ?b2 = Some (length (vout cb))"
    by (simp_all add: GetWitnessCommitmentIndex_def commitment_loop_append com)
  have nw: "\<not> HasWitness ?cb" using assms(3) by (simp add: HasWitness_def)
  have "UpdateUncommittedBlockStructures st ?b1 pindexPrev params vbc = Some (Inr (?b2, vbc'))"
    using pos(1) assms(6) nw by (simp add: UpdateUncommittedBlockStructures_def)
  then have "GenerateCashbaseCommitment st block pindexPrev params vbc = Some (Inr (?script, ?b2, vbc'))"
    using assms(1,4,5) by (simp add: GenerateCashbaseCommitment_def Let_def)
  moreover have "take 32 (drop 6 ?script) = witness_commitment (fst (BlockWitnessMerkleRoot ?b2)) (replicate 32 0)"
    unfolding root by (simp add: commitment_script_def len)
  then have "check_witness ?b2 True = Inr ()"
    using pos(2) assms(2) by (simp add: check_witness_def)
  ultimately show ?thesis using pos(2) by auto
qed

subsection \<open>Examples\<close>

definition example_cashbase :: CTransaction where
  "example_cashbase = CTransaction_of
    \<lparr>nVersion = 1, vin = [\<lparr>prevout = COutPoint_null, scriptSig = [1, 1], nSequence = 0, scriptWitness = []\<rparr>],
     vout = [\<lparr>nValue = 0, scriptPubKey = []\<rparr>], nLockTime = 0\<rparr>"

definition example_block :: CBlock where
  "example_block = (CBlock_of_header (CBlockHeader_null\<lparr>hashMerkleRoot := tx_hash example_cashbase\<rparr>))\<lparr>vtx := [example_cashbase]\<rparr>"

lemma example_cashbase_simps:
  "vin example_cashbase = [\<lparr>prevout = COutPoint_null, scriptSig = [1, 1], nSequence = 0, scriptWitness = []\<rparr>]"
  "vout example_cashbase = [\<lparr>nValue = 0, scriptPubKey = []\<rparr>]"
  by (simp_all add: example_cashbase_def CTransaction_of_def CMutableTransaction.defs)

lemma example_block_simps:
  "vtx example_block = [example_cashbase]" "hashMerkleRoot example_block = tx_hash example_cashbase" "\<not> fChecked example_block"
  by (simp_all add: example_block_def CBlock_of_header_def CBlockHeader.defs CBlock.defs)

lemma example_cashbase_IsCashBase: "IsCashBase example_cashbase"
  by (simp add: IsCashBase_def example_cashbase_simps COutPoint_IsNull_def COutPoint_null_def)

lemma SerializeTransaction_size:
  "length (SerializeTransaction False tx) \<le>
    26 + sum_list (map (\<lambda>t. 49 + length (op_hash (prevout t)) + length (scriptSig t)) (vin tx)) +
    sum_list (map (\<lambda>t. 17 + length (scriptPubKey t)) (vout tx))"
proof -
  have "length (WriteCompactSize n) \<le> 9" for n by (simp add: WriteCompactSize_def ser_writedata16_def ser_writedata32_def ser_writedata64_def ser_writedata8_def)
  note le = this
  have i: "length (Serialize_CTxIn t) \<le> 49 + length (op_hash (prevout t)) + length (scriptSig t)" for t
    using le [of "of_nat (length (scriptSig t))"]
    by (simp add: Serialize_CTxIn_def Serialize_COutPoint_def Serialize_bytes_def ser_writedata32_def)
  have o: "length (Serialize_CTxOut t) \<le> 17 + length (scriptPubKey t)" for t
    using le [of "of_nat (length (scriptPubKey t))"] by (simp add: Serialize_CTxOut_def ser_int64_def Serialize_bytes_def ser_writedata64_def)
  have c: "length (concat (map g xs)) \<le> sum_list (map f xs)" if "\<And>x. length (g x) \<le> f x" for f :: "'b \<Rightarrow> nat" and g :: "'b \<Rightarrow> bytes" and xs
    using that by (induction xs) (auto intro: add_mono)
  show ?thesis
    using c [of Serialize_CTxIn, OF i, of "vin tx"] c [of Serialize_CTxOut, OF o, of "vout tx"]
      le [of "of_nat (length (vin tx))"] le [of "of_nat (length (vout tx))"]
    by (simp add: SerializeTransaction_def Serialize_vector_def ser_int32_def ser_writedata32_def)
qed

lemma example_cashbase_size: "length (SerializeTransaction False example_cashbase) \<le> 126"
  using SerializeTransaction_size [of example_cashbase]
  by (simp add: example_cashbase_simps COutPoint_null_def uint256_null_def)

lemma tx_hash_of: "tx_hash (CTransaction_of t) = ComputeHash t"
  by (simp add: CTransaction_of_def CMutableTransaction.defs CTransaction.defs)

lemma example_block_size: "length (Serialize_CBlock False example_block) \<le> 300"
proof -
  have "length (tx_hash example_cashbase) = 32"
    by (simp add: example_cashbase_def tx_hash_of ComputeHash_def SerializeHash_eq)
  then have "length (Serialize_CBlockHeader example_block) = 80"
    by (simp add: example_block_def CBlock_of_header_def CBlockHeader.defs CBlock.defs Serialize_CBlockHeader_def
        CBlockHeader_null_def uint256_null_def ser_int32_def ser_writedata32_def)
  moreover have "length (WriteCompactSize 1) = 1" by (simp add: WriteCompactSize_def ser_writedata8_def)
  ultimately show ?thesis
    using example_cashbase_size by (simp add: Serialize_CBlock_def example_block_simps Serialize_vector_def)
qed

lemma example_cashbase_checked: "CheckTransaction example_cashbase False = Inr ()"
proof -
  have "length (SerializeTransaction False example_cashbase) * WITNESS_SCALE_FACTOR \<le> MAX_BLOCK_WEIGHT"
    using example_cashbase_size by (simp add: WITNESS_SCALE_FACTOR_def MAX_BLOCK_WEIGHT_def)
  then show ?thesis
    using example_cashbase_IsCashBase
    by (simp add: CheckTransaction_def example_cashbase_simps MAX_MONEY_def CASH_def MoneyRange_def s64_def)
qed

theorem CheckBlock_limits_witness:
  "\<exists>b. CheckBlock example_block example_params False True = Inr b \<and>
    4 * sum_list (map legacy_sigops (vtx example_block)) \<le> 80000"
proof -
  have root: "BlockMerkleRoot example_block = (tx_hash example_cashbase, False)"
    by (simp add: BlockMerkleRoot_def example_block_simps ComputeMerkleRoot_eq merkle_mutated.simps)
  have ops: "block_sigops (vtx example_block) = 0"
    by (simp add: block_sigops_of_nat example_block_simps legacy_sigops_def example_cashbase_simps) code_simp
  have "\<exists>b. CheckBlock example_block example_params False True = Inr b"
    using root ops example_block_size example_cashbase_checked example_cashbase_IsCashBase
    by (simp add: CheckBlock_def CheckBlockHeader_def check_merkle_root_def example_block_simps
        WITNESS_SCALE_FACTOR_def MAX_BLOCK_WEIGHT_def MAX_BLOCK_SIGOPS_COST_def)
  then show ?thesis using CheckBlock_limits [OF _ example_block_simps(3)] by blast
qed

definition segwit_params :: ConsensusParams where
  "segwit_params = example_params\<lparr>vDeployments := (\<lambda>d. \<lparr>dep_bit = 1, nStartTime = ALWAYS_ACTIVE, nTimeout = 1\<rparr>)\<rparr>"

theorem GenerateCashbaseCommitment_accepted_witness:
  "\<exists>commitment block'. GenerateCashbaseCommitment [] example_block None segwit_params (\<lambda>d e. None) =
      Some (Inr (commitment, block', \<lambda>d e. None)) \<and> check_witness block' True = Inr ()"
proof -
  have en: "IsWitnessEnabled [] None segwit_params (\<lambda>d e. None) = Some (Inr (True, \<lambda>d e. None))"
    by (simp add: IsWitnessEnabled_def VersionBitsState_def GetStateFor_def VersionBitsConditionChecker_def segwit_params_def fun_eq_iff)
  have "nTimeout (vDeployments segwit_params DEPLOYMENT_SEGWIT) \<noteq> 0" by (simp add: segwit_params_def)
  moreover have "\<not> HasWitness example_cashbase" by (simp add: HasWitness_def example_cashbase_simps CScriptWitness_IsNull_def)
  moreover have "GetWitnessCommitmentIndex example_block = None"
    by (simp add: GetWitnessCommitmentIndex_def example_block_simps example_cashbase_simps is_commitment_def)
  ultimately show ?thesis
    using GenerateCashbaseCommitment_accepted [OF example_block_simps(1) _ _ _ _ en] by (auto simp: example_cashbase_simps)
qed

end
