(* ===== verification/SC_Headers.thy ===== *)
theory SC_Headers
  imports SC_CheckBlock
begin

text \<open>
  Accepting headers (\<open>AcceptBlockHeader\<close> and \<open>ProcessNewBlockHeaders\<close> of \<^verbatim>\<open>validation.cpp\<close>): the state of the node
  is its block index and the blocks known to be invalid, and the steps that change it are the
  acceptance of a header and the marking of an invalid block.  In every state the node can reach, the
  index is a forest of headers with rising median times, with valid proofs of work and with the
  accumulated work.
\<close>

subsection \<open>Accepting a header\<close>

record header_state =
  hs_index :: block_index
  g_failed_blocks :: "pindex list"

definition mark_status :: "pindex \<Rightarrow> u32 \<Rightarrow> block_index \<Rightarrow> block_index" where
  "mark_status p f bx =
     bx\<lparr>blocks := (blocks bx)[p := (blocks bx ! p)\<lparr>nStatus := nStatus (blocks bx ! p) OR f\<rparr>],
        setDirtyBlockIndex := insert p (setDirtyBlockIndex bx)\<rparr>"

partial_function (option) invalid_walk :: "pindex \<Rightarrow> pindex option \<Rightarrow> block_index \<Rightarrow> (val_error + block_index) option" where
  "invalid_walk failedit w bx =
     (if w = Some failedit then Some (Inr bx)
      else case w of
          None \<Rightarrow> Some (Inl ValNull)
        | Some p \<Rightarrow> invalid_walk failedit (pprev (blocks bx ! p)) (mark_status p BLOCK_FAILED_CHILD bx))"

fun find_failed :: "block_store \<Rightarrow> pindex \<Rightarrow> pindex list \<Rightarrow> val_error + pindex option" where
  "find_failed st pindexPrev [] = Inr None"
| "find_failed st pindexPrev (failedit # rest) =
     err_bind (or_abort (GetAncestor st pindexPrev (nHeight (st ! failedit)))) (\<lambda>a.
       if a = Some failedit
       then if nStatus (st ! failedit) AND BLOCK_FAILED_VALID = 0 then Inl ValAssert else Inr (Some failedit)
       else find_failed st pindexPrev rest)"

text \<open>A result, and the state it leaves: a rejection may have marked blocks as invalid.\<close>

type_synonym 'a header_result = "((val_error + 'a) \<times> header_state) option"

definition add_header :: "('a) CBlockHeader_scheme \<Rightarrow> header_state \<Rightarrow> pindex header_result" where
  "add_header block hs =
     (case AddToBlockIndex block (hs_index hs) of
        Inl e \<Rightarrow> Some (Inl (ValAbort e), hs)
      | Inr (p, bx) \<Rightarrow> Some (Inr p, hs\<lparr>hs_index := bx\<rparr>))"

definition check_failed_ancestors ::
  "('a) CBlockHeader_scheme \<Rightarrow> pindex \<Rightarrow> header_state \<Rightarrow> pindex header_result" where
  "check_failed_ancestors block pindexPrev hs =
     (let st = blocks (hs_index hs) in
      case err_bind (or_abort (IsValid BLOCK_VALID_SCRIPTS (st ! pindexPrev))) (\<lambda>valid.
          if valid then Inr None else find_failed st pindexPrev (g_failed_blocks hs)) of
        Inl e \<Rightarrow> Some (Inl e, hs)
      | Inr None \<Rightarrow> add_header block hs
      | Inr (Some failedit) \<Rightarrow>
          map_option (\<lambda>r. case r of
              Inl e \<Rightarrow> (Inl e, hs)
            | Inr bx \<Rightarrow> (Inl (DoS 100 REJECT_INVALID ''bad-prevblk'' False), hs\<lparr>hs_index := bx\<rparr>))
            (invalid_walk failedit (Some pindexPrev) (hs_index hs)))"

definition AcceptBlockHeader ::
  "bool \<Rightarrow> CChainParams \<Rightarrow> int \<Rightarrow> ('a) CBlockHeader_scheme \<Rightarrow> header_state \<Rightarrow> pindex header_result" where
  "AcceptBlockHeader fCheckpointsEnabled chainparams nAdjustedTime block hs =
     (let hash = CBlockHeader_GetHash block; bx = hs_index hs; st = blocks bx in
      if hash = hashGenesisBlock (consensus chainparams) then add_header block hs
      else case mapBlockIndex bx hash of
          Some p \<Rightarrow>
            if nStatus (st ! p) AND BLOCK_FAILED_MASK \<noteq> 0
            then Some (Inl (Invalid REJECT_NO_CODE ''duplicate''), hs)
            else Some (Inr p, hs)
        | None \<Rightarrow>
            (case CheckBlockHeader block (consensus chainparams) True of
               Inl e \<Rightarrow> Some (Inl e, hs)
             | Inr _ \<Rightarrow>
                 (case mapBlockIndex bx (hashPrevBlock block) of
                    None \<Rightarrow> Some (Inl (DoS 10 REJECT_NO_CODE ''prev-blk-not-found'' False), hs)
                  | Some pindexPrev \<Rightarrow>
                      if nStatus (st ! pindexPrev) AND BLOCK_FAILED_MASK \<noteq> 0
                      then Some (Inl (DoS 100 REJECT_INVALID ''bad-prevblk'' False), hs)
                      else Option.bind
                        (ContextualCheckBlockHeader bx fCheckpointsEnabled block chainparams (Some pindexPrev) nAdjustedTime)
                        (\<lambda>r. case r of
                           Inl e \<Rightarrow> Some (Inl e, hs)
                         | Inr _ \<Rightarrow> check_failed_ancestors block pindexPrev hs))))"

fun ProcessNewBlockHeaders ::
  "bool \<Rightarrow> CChainParams \<Rightarrow> int \<Rightarrow> CBlockHeader list \<Rightarrow> pindex option \<Rightarrow> header_state \<Rightarrow>
    (((val_error \<times> CBlockHeader) + pindex option) \<times> header_state) option" where
  "ProcessNewBlockHeaders fCheckpointsEnabled chainparams nAdjustedTime [] ppindex hs = Some (Inr ppindex, hs)"
| "ProcessNewBlockHeaders fCheckpointsEnabled chainparams nAdjustedTime (header # headers) ppindex hs =
     Option.bind (AcceptBlockHeader fCheckpointsEnabled chainparams nAdjustedTime header hs) (\<lambda>(r, hs).
       case r of
         Inl e \<Rightarrow> Some (Inl (e, header), hs)
       | Inr p \<Rightarrow> ProcessNewBlockHeaders fCheckpointsEnabled chainparams nAdjustedTime headers (Some p) hs)"

text \<open>What \<open>InvalidBlockFound\<close> does to the index.\<close>

definition mark_failed :: "pindex \<Rightarrow> header_state \<Rightarrow> header_state" where
  "mark_failed p hs =
     hs\<lparr>hs_index := mark_status p BLOCK_FAILED_VALID (hs_index hs), g_failed_blocks := List.insert p (g_failed_blocks hs)\<rparr>"

subsection \<open>The states of the node\<close>

definition header_state_empty :: header_state where
  "header_state_empty = \<lparr>hs_index = block_index_empty, g_failed_blocks = []\<rparr>"

text \<open>The genesis block has no predecessor in the index.\<close>

definition genesis_ok :: "CChainParams \<Rightarrow> CBlockHeader \<Rightarrow> header_state \<Rightarrow> bool" where
  "genesis_ok chainparams block hs \<longleftrightarrow>
     (CBlockHeader_GetHash block = hashGenesisBlock (consensus chainparams) \<longrightarrow>
      mapBlockIndex (hs_index hs) (hashPrevBlock block) = None \<and> hashPrevBlock block \<noteq> CBlockHeader_GetHash block)"

inductive headers_reach :: "CChainParams \<Rightarrow> header_state \<Rightarrow> bool" for chainparams where
  reach_start: "headers_reach chainparams header_state_empty"
| reach_header: "headers_reach chainparams hs \<Longrightarrow> length (blocks (hs_index hs)) < 2147483648 \<Longrightarrow>
    genesis_ok chainparams block hs \<Longrightarrow>
    AcceptBlockHeader fCheckpointsEnabled chainparams nAdjustedTime block hs = Some (r, hs') \<Longrightarrow>
    headers_reach chainparams hs'"
| reach_failed: "headers_reach chainparams hs \<Longrightarrow> headers_reach chainparams (mark_failed p hs)"

inductive_cases headers_reachE: "headers_reach chainparams hs"

subsection \<open>What every state satisfies\<close>

definition pow_ok :: "ConsensusParams \<Rightarrow> CBlockIndex \<Rightarrow> bool" where
  "pow_ok params b \<longleftrightarrow> (case phashBlock b of None \<Rightarrow> False | Some h \<Rightarrow> CheckProofOfWork h (bi_nBits b) params)"

definition work_ok :: "block_store \<Rightarrow> pindex \<Rightarrow> bool" where
  "work_ok st p \<longleftrightarrow> (\<exists>w. GetBlockProof (st ! p) = Inr w \<and>
     nChainWork (st ! p) = au_add (case pprev (st ! p) of None \<Rightarrow> au_of_u64 0 | Some q \<Rightarrow> nChainWork (st ! q)) w)"

definition headers_ok :: "ConsensusParams \<Rightarrow> block_index \<Rightarrow> bool" where
  "headers_ok params bx \<longleftrightarrow> index_ok bx \<and> timely (blocks bx) \<and>
     (\<forall>p<length (blocks bx). work_ok (blocks bx) p \<and> (pprev (blocks bx ! p) = None \<or> pow_ok params (blocks bx ! p)))"

text \<open>Marking a block changes its status only.\<close>

lemma mark_nth: "\<exists>s. blocks (mark_status p f bx) ! i = (blocks bx ! i)\<lparr>nStatus := s\<rparr>"
proof (cases "i = p \<and> p < length (blocks bx)")
  case True
  then show ?thesis by (auto simp: mark_status_def)
next
  case False
  then have "blocks (mark_status p f bx) ! i = blocks bx ! i"
    by (cases "i = p") (simp_all add: mark_status_def list_update_beyond)
  also have "\<dots> = (blocks bx ! i)\<lparr>nStatus := nStatus (blocks bx ! i)\<rparr>" by simp
  finally show ?thesis by blast
qed

lemma mark_fields [simp]:
  "pprev (blocks (mark_status p f bx) ! i) = pprev (blocks bx ! i)"
  "pskip (blocks (mark_status p f bx) ! i) = pskip (blocks bx ! i)"
  "nHeight (blocks (mark_status p f bx) ! i) = nHeight (blocks bx ! i)"
  "bi_nTime (blocks (mark_status p f bx) ! i) = bi_nTime (blocks bx ! i)"
  "bi_nBits (blocks (mark_status p f bx) ! i) = bi_nBits (blocks bx ! i)"
  "nChainWork (blocks (mark_status p f bx) ! i) = nChainWork (blocks bx ! i)"
  "phashBlock (blocks (mark_status p f bx) ! i) = phashBlock (blocks bx ! i)"
  using mark_nth [of p f bx i] by auto

lemma mark_index [simp]:
  "length (blocks (mark_status p f bx)) = length (blocks bx)" "mapBlockIndex (mark_status p f bx) = mapBlockIndex bx"
  by (simp_all add: mark_status_def)

lemma mark_walk_back [simp]: "walk_back (blocks (mark_status p f bx)) q n = walk_back (blocks bx) q n"
  by (induction n arbitrary: q) (auto split: option.splits)

lemma mark_median_times [simp]: "median_times n (blocks (mark_status p f bx)) q acc = median_times n (blocks bx) q acc"
proof (induction n arbitrary: q acc)
  case (Suc n)
  then show ?case by (cases q) (simp_all add: GetBlockTime_def)
qed simp

lemma mark_block [simp]:
  "GetBlockTime (blocks (mark_status p f bx) ! i) = GetBlockTime (blocks bx ! i)"
  "GetMedianTimePast (blocks (mark_status p f bx)) i = GetMedianTimePast (blocks bx) i"
  "GetBlockProof (blocks (mark_status p f bx) ! i) = GetBlockProof (blocks bx ! i)"
  "pow_ok params (blocks (mark_status p f bx) ! i) = pow_ok params (blocks bx ! i)"
  by (simp_all add: GetBlockTime_def GetMedianTimePast_def GetBlockProof_def pow_ok_def split: option.split)

lemma mark_node [simp]:
  "node_ok (blocks (mark_status p f bx)) i = node_ok (blocks bx) i"
  "work_ok (blocks (mark_status p f bx)) i = work_ok (blocks bx) i"
  by (cases "pprev (blocks bx ! i)"; cases "pskip (blocks bx ! i)"; simp add: node_ok_def work_ok_def)+

lemma mark_headers_ok: "headers_ok params bx \<Longrightarrow> headers_ok params (mark_status p f bx)"
  by (simp add: headers_ok_def index_ok_def forest_def timely_def)

lemma invalid_walk_ok:
  assumes "invalid_walk f w bx = Some r" "headers_ok params bx"
  shows "case r of Inl e \<Rightarrow> True | Inr bx' \<Rightarrow> headers_ok params bx'"
proof -
  have "headers_ok params bx \<longrightarrow> (case r of Inl e \<Rightarrow> True | Inr bx' \<Rightarrow> headers_ok params bx')"
  proof (rule invalid_walk.raw_induct [OF _ assms(1), of "\<lambda>f w bx r. headers_ok params bx \<longrightarrow> (case r of Inl e \<Rightarrow> True | Inr bx' \<Rightarrow> headers_ok params bx')"])
    fix walk :: "pindex \<Rightarrow> pindex option \<Rightarrow> block_index \<Rightarrow> (val_error + block_index) option" and f w bx r
    assume IH: "\<And>f w bx r. walk f w bx = Some r \<Longrightarrow>
        headers_ok params bx \<longrightarrow> (case r of Inl e \<Rightarrow> True | Inr bx' \<Rightarrow> headers_ok params bx')"
      and step: "(if w = Some f then Some (Inr bx) else case w of None \<Rightarrow> Some (Inl ValNull)
        | Some p \<Rightarrow> walk f (pprev (blocks bx ! p)) (mark_status p BLOCK_FAILED_CHILD bx)) = Some r"
    show "headers_ok params bx \<longrightarrow> (case r of Inl e \<Rightarrow> True | Inr bx' \<Rightarrow> headers_ok params bx')"
    proof (cases w)
      case None
      then show ?thesis using step by auto
    next
      case (Some p)
      show ?thesis
      proof (cases "p = f")
        case True
        then show ?thesis using step Some by auto
      next
        case False
        then have "walk f (pprev (blocks bx ! p)) (mark_status p BLOCK_FAILED_CHILD bx) = Some r" using step Some by simp
        from IH [OF this] show ?thesis using mark_headers_ok by blast
      qed
    qed
  qed
  then show ?thesis using assms(2) by simp
qed

lemma median_times_append:
  assumes "forest st" "case p of None \<Rightarrow> True | Some q \<Rightarrow> q < length st"
  shows "median_times n (st @ xs) p acc = median_times n st p acc"
  using assms(2)
proof (induction n arbitrary: p acc)
  case (Suc n)
  show ?case
  proof (cases p)
    case (Some q)
    then have q: "q < length st" using Suc.prems by simp
    then have e: "node_ok st q" using assms(1) by (simp add: forest_def)
    have "case pprev (st ! q) of None \<Rightarrow> True | Some r \<Rightarrow> r < length st"
      using entry_prev [OF e] q by (auto split: option.splits)
    then show ?thesis using Suc.IH [of "pprev (st ! q)"] Some q by (simp add: nth_append)
  qed simp
qed simp

lemma GetMedianTimePast_append: "forest st \<Longrightarrow> p < length st \<Longrightarrow> GetMedianTimePast (st @ xs) p = GetMedianTimePast st p"
  by (simp add: GetMedianTimePast_def median_times_append)

text \<open>Growing by a header that is later than the median time before it and has its proof of work.\<close>

lemma AddToBlockIndex_headers_ok:
  assumes ok: "headers_ok params bx" and len: "length (blocks bx) < 2147483648"
    and own: "CBlockHeader_GetHash block \<noteq> hashPrevBlock block"
    and good: "\<And>q. mapBlockIndex bx (CBlockHeader_GetHash block) = None \<Longrightarrow> mapBlockIndex bx (hashPrevBlock block) = Some q \<Longrightarrow>
      GetMedianTimePast (blocks bx) q < CBlockHeader_GetBlockTime block \<and>
      CheckProofOfWork (CBlockHeader_GetHash block) (bh_nBits block) params"
  shows "\<exists>p bx'. AddToBlockIndex block bx = Inr (p, bx') \<and> headers_ok params bx'"
proof (cases "mapBlockIndex bx (CBlockHeader_GetHash block)")
  case (Some p)
  then show ?thesis using ok by (simp add: AddToBlockIndex_def)
next
  case None
  let ?st = "blocks bx" and ?n = "length (blocks bx)"
  have idx: "index_ok bx" and f: "forest ?st" and tm: "timely ?st"
    and m: "\<And>h p. mapBlockIndex bx h = Some p \<Longrightarrow> p < ?n \<and> phashBlock (?st ! p) = Some h"
    and wp: "\<And>p. p < ?n \<Longrightarrow> work_ok ?st p \<and> (pprev (?st ! p) = None \<or> pow_ok params (?st ! p))"
    using ok by (auto simp: headers_ok_def index_ok_def)
  obtain b bx' w where a: "AddToBlockIndex block bx = Inr (?n, bx')" "blocks bx' = ?st @ [b]" "node_ok (?st @ [b]) ?n"
    and b: "phashBlock b = Some (CBlockHeader_GetHash block)" "pprev b = mapBlockIndex bx (hashPrevBlock block)"
      "bi_nBits b = bh_nBits block" "bi_nTime b = bh_nTime block" "GetBlockProof b = Inr w"
      "nChainWork b = au_add (case pprev b of None \<Rightarrow> au_of_u64 0 | Some q \<Rightarrow> nChainWork (?st ! q)) w"
    using AddToBlockIndex_new [OF f None own len] m by blast
  obtain p' bx2 where "AddToBlockIndex block bx = Inr (p', bx2)" "index_ok bx2"
    using AddToBlockIndex_ok [OF idx own len] by blast
  then have idx': "index_ok bx'" using a(1) by simp
  have prev: "q < ?n" if "p < ?n" "pprev (?st ! p) = Some q" for p q
    using that f entry_prev [of ?st p q] by (auto simp: forest_def)
  have "timely (?st @ [b])"
    unfolding timely_def
  proof (intro allI impI)
    fix p q
    assume p: "p < length (?st @ [b])" and q: "pprev ((?st @ [b]) ! p) = Some q"
    show "GetMedianTimePast (?st @ [b]) q < GetBlockTime ((?st @ [b]) ! p)"
    proof (cases "p = ?n")
      case True
      then have q': "mapBlockIndex bx (hashPrevBlock block) = Some q" using q b(2) by simp
      show ?thesis
        using True good [OF None q'] m [OF q'] GetMedianTimePast_append [OF f, of q] b(4)
        by (simp add: GetBlockTime_def CBlockHeader_GetBlockTime_def)
    next
      case False
      then have "p < ?n" using p by simp
      moreover from this q have "pprev (?st ! p) = Some q" by (simp add: nth_append)
      ultimately show ?thesis
        using tm prev [of p q] GetMedianTimePast_append [OF f, of q] by (auto simp: timely_def nth_append)
    qed
  qed
  moreover have "work_ok (?st @ [b]) p \<and> (pprev ((?st @ [b]) ! p) = None \<or> pow_ok params ((?st @ [b]) ! p))"
    if "p < length (?st @ [b])" for p
  proof (cases "p = ?n")
    case True
    then show ?thesis using b good [OF None] m
      by (cases "mapBlockIndex bx (hashPrevBlock block)") (auto simp: work_ok_def pow_ok_def nth_append)
  next
    case False
    then have p: "p < ?n" using that by simp
    have "(case pprev (?st ! p) of None \<Rightarrow> au_of_u64 0 | Some q \<Rightarrow> nChainWork ((?st @ [b]) ! q)) =
        (case pprev (?st ! p) of None \<Rightarrow> au_of_u64 0 | Some q \<Rightarrow> nChainWork (?st ! q))"
      using prev [OF p] by (auto simp: nth_append split: option.splits)
    then show ?thesis using wp [OF p] p by (simp add: work_ok_def nth_append)
  qed
  ultimately have "headers_ok params bx'" using idx' by (simp add: headers_ok_def a(2))
  then show ?thesis using a(1) by blast
qed

lemma Contextual_time:
  assumes "ContextualCheckBlockHeader bx ckp block chainparams (Some q) t = Some (Inr u)"
  shows "GetMedianTimePast (blocks bx) q < CBlockHeader_GetBlockTime block"
  using assms by (auto simp: ContextualCheckBlockHeader_def Let_def err_bind_Inr not_le split: if_splits)

lemma add_header_ok:
  assumes "headers_ok params (hs_index hs)" "length (blocks (hs_index hs)) < 2147483648"
    and "CBlockHeader_GetHash block \<noteq> hashPrevBlock block"
    and "\<And>q. mapBlockIndex (hs_index hs) (CBlockHeader_GetHash block) = None \<Longrightarrow> mapBlockIndex (hs_index hs) (hashPrevBlock block) = Some q \<Longrightarrow>
      GetMedianTimePast (blocks (hs_index hs)) q < CBlockHeader_GetBlockTime block \<and>
      CheckProofOfWork (CBlockHeader_GetHash block) (bh_nBits block) params"
  shows "\<exists>p hs'. add_header block hs = Some (Inr p, hs') \<and> headers_ok params (hs_index hs')"
proof -
  obtain p bx' where "AddToBlockIndex block (hs_index hs) = Inr (p, bx')" "headers_ok params bx'"
    using AddToBlockIndex_headers_ok [of params "hs_index hs" block] assms by blast
  then show ?thesis by (simp add: add_header_def)
qed

lemma AcceptBlockHeader_ok:
  assumes ok: "headers_ok (consensus chainparams) (hs_index hs)" and len: "length (blocks (hs_index hs)) < 2147483648"
    and gen: "genesis_ok chainparams block hs"
    and acc: "AcceptBlockHeader ckp chainparams t block hs = Some (r, hs')"
  shows "headers_ok (consensus chainparams) (hs_index hs')"
proof -
  let ?bx = "hs_index hs" and ?hash = "CBlockHeader_GetHash block" and ?params = "consensus chainparams"
  consider (genesis) "?hash = hashGenesisBlock ?params"
    | (same) "hs' = hs"
    | (new) q u where "?hash \<noteq> hashGenesisBlock ?params" "mapBlockIndex ?bx ?hash = None" "CheckBlockHeader block ?params True = Inr ()"
        "mapBlockIndex ?bx (hashPrevBlock block) = Some q"
        "ContextualCheckBlockHeader ?bx ckp block chainparams (Some q) t = Some (Inr u)"
        "check_failed_ancestors block q hs = Some (r, hs')"
    using acc by (auto simp: AcceptBlockHeader_def Let_def bind_eq_Some_conv split: if_splits option.splits sum.splits)
      (metis (full_types) sum.exhaust old.unit.exhaust)
  then show ?thesis
  proof cases
    case genesis
    then have "add_header block hs = Some (r, hs')" using acc by (simp add: AcceptBlockHeader_def)
    then show ?thesis
      using add_header_ok [OF ok len, of block] gen genesis by (auto simp: genesis_ok_def)
  next
    case same
    then show ?thesis using ok by simp
  next
    case new
    have good: "\<exists>p hs'. add_header block hs = Some (Inr p, hs') \<and> headers_ok ?params (hs_index hs')"
      using new(2-5) Contextual_time [OF new(5)]
      by (intro add_header_ok [OF ok len]) (auto simp: CheckBlockHeader_def split: if_splits)
    let ?mark = "\<lambda>r. case r of Inl e \<Rightarrow> (Inl e, hs)
      | Inr bx \<Rightarrow> (Inl (DoS 100 REJECT_INVALID ''bad-prevblk'' False), hs\<lparr>hs_index := bx\<rparr>)"
    obtain x where x: "check_failed_ancestors block q hs =
        (case x of Inl e \<Rightarrow> Some (Inl e, hs) | Inr None \<Rightarrow> add_header block hs
         | Inr (Some f) \<Rightarrow> map_option ?mark (invalid_walk f (Some q) ?bx))"
      unfolding check_failed_ancestors_def Let_def by blast
    consider (keep) "hs' = hs" | (add) "add_header block hs = Some (r, hs')"
      | (walk) f z where "invalid_walk f (Some q) ?bx = Some z" "?mark z = (r, hs')"
    proof (cases x)
      case (Inl e)
      then show ?thesis using keep new(6) x by simp
    next
      case (Inr y)
      then show ?thesis using add walk new(6) x by (cases y) auto
    qed
    then show ?thesis
    proof cases
      case walk
      then show ?thesis using invalid_walk_ok [OF walk(1) ok] ok by (cases z) auto
    qed (use ok good in auto)
  qed
qed

lemma headers_reach_ok: "headers_reach chainparams hs \<Longrightarrow> headers_ok (consensus chainparams) (hs_index hs)"
proof (induction rule: headers_reach.induct)
  case reach_start
  then show ?case
    by (simp add: headers_ok_def index_ok_def forest_def timely_def header_state_empty_def block_index_empty_def)
next
  case (reach_header hs block ckp t r hs')
  show ?case by (rule AcceptBlockHeader_ok [OF reach_header.IH reach_header.hyps(2-4)])
next
  case (reach_failed hs p)
  then show ?case using mark_headers_ok by (simp add: mark_failed_def)
qed

text \<open>
  C6: In every state the node can reach by accepting headers and marking invalid blocks, the block index
  is a forest with consistent heights and skip pointers; every block but a root is later than the
  median time of its predecessor and its hash meets the target of its header; and the work of every
  block is that of its predecessor plus its own.
\<close>

theorem headers_reach_invariant:
  assumes "headers_reach chainparams hs"
  shows "forest (blocks (hs_index hs)) \<and> timely (blocks (hs_index hs)) \<and>
    (\<forall>p<length (blocks (hs_index hs)). work_ok (blocks (hs_index hs)) p \<and>
      (pprev (blocks (hs_index hs) ! p) = None \<or> pow_ok (consensus chainparams) (blocks (hs_index hs) ! p)))"
  using headers_reach_ok [OF assms] by (simp add: headers_ok_def index_ok_def)

definition example_genesis :: CBlockHeader where
  "example_genesis = CBlockHeader_null\<lparr>hashPrevBlock := []\<rparr>"

definition example_chainparams :: CChainParams where
  "example_chainparams =
    \<lparr>consensus = example_params\<lparr>hashGenesisBlock := CBlockHeader_GetHash example_genesis\<rparr>, mapCheckpoints = []\<rparr>"

lemma example_reach: "\<exists>hs. headers_reach example_chainparams hs \<and> length (blocks (hs_index hs)) = 1"
proof -
  let ?e = header_state_empty
  have own: "CBlockHeader_GetHash example_genesis \<noteq> hashPrevBlock example_genesis"
  proof -
    have "length (CBlockHeader_GetHash example_genesis) = 32" by (simp add: CBlockHeader_GetHash_eq)
    then show ?thesis by (auto simp: example_genesis_def)
  qed
  obtain b bx' where a: "AddToBlockIndex example_genesis block_index_empty = Inr (0, bx')" "blocks bx' = [b]"
    using AddToBlockIndex_new [of block_index_empty example_genesis] own by (auto simp: block_index_empty_def forest_def)
  have "AcceptBlockHeader False example_chainparams 0 example_genesis ?e = Some (Inr 0, ?e\<lparr>hs_index := bx'\<rparr>)"
    using a by (simp add: AcceptBlockHeader_def add_header_def example_chainparams_def header_state_empty_def)
  moreover have "genesis_ok example_chainparams example_genesis ?e"
    using own by (auto simp: genesis_ok_def header_state_empty_def block_index_empty_def)
  ultimately have "headers_reach example_chainparams (?e\<lparr>hs_index := bx'\<rparr>)"
    using reach_header [OF reach_start, of example_chainparams example_genesis]
    by (simp add: header_state_empty_def block_index_empty_def)
  then show ?thesis using a(2) by (intro exI [of _ "?e\<lparr>hs_index := bx'\<rparr>"]) simp
qed

theorem headers_reach_invariant_witness:
  "\<exists>hs. headers_reach example_chainparams hs \<and> length (blocks (hs_index hs)) = 1 \<and> forest (blocks (hs_index hs)) \<and>
    work_ok (blocks (hs_index hs)) 0"
proof -
  obtain hs where hs: "headers_reach example_chainparams hs" "length (blocks (hs_index hs)) = 1" using example_reach by blast
  then show ?thesis using headers_reach_invariant [OF hs(1)] by auto
qed

end
