(* ===== verification/SC_Compressor.thy ===== *)
theory SC_Compressor
  imports SC_Cash
begin

text \<open>
  The compact formats of the database and of the undo files (\<^verbatim>\<open>compressor.h\<close>, \<^verbatim>\<open>compressor.cpp\<close>, \<^verbatim>\<open>undo.h\<close>,
  and the serialization of \<open>Cash\<close> in \<^verbatim>\<open>cash.h\<close>): amounts, scripts, outputs, entries of the set of unspent
  outputs and undo data of a block. The two operations on public keys that need the elliptic curve are
  the arguments \<open>fully_valid\<close> (\<open>CPubKey::IsFullyValid\<close>) and \<open>decompress\<close> (\<open>CPubKey::Decompress\<close>, \<open>None\<close> when
  it returns false). A reader that fills an existing object takes the object's old value.
\<close>

subsection \<open>Amounts\<close>

function CompressAmount_loop :: "u64 \<Rightarrow> nat \<Rightarrow> u64 \<times> nat" where
  "CompressAmount_loop n e = (if n mod 10 = 0 \<and> e < 9 then CompressAmount_loop (n div 10) (e + 1) else (n, e))"
  by pat_completeness auto
termination by (relation "measure (\<lambda>(n, e). 9 - e)") auto

definition CompressAmount :: "u64 \<Rightarrow> u64 option" where
  "CompressAmount n0 =
    (if n0 = 0 then Some 0
     else case CompressAmount_loop n0 0 of (n, e) \<Rightarrow>
       if e < 9
       then let d = n mod 10; n = n div 10 in
         if 1 \<le> d \<and> d \<le> 9 then Some (1 + (n * 9 + d - 1) * 10 + of_nat e) else None
       else Some (1 + (n - 1) * 10 + 9))"

primrec DecompressAmount_loop :: "nat \<Rightarrow> u64 \<Rightarrow> u64" where
  "DecompressAmount_loop 0 n = n"
| "DecompressAmount_loop (Suc e) n = DecompressAmount_loop e (n * 10)"

definition DecompressAmount :: "u64 \<Rightarrow> u64" where
  "DecompressAmount x0 =
    (if x0 = 0 then 0
     else let x = x0 - 1; e = unat (x mod 10); x = x div 10;
              n = (if e < 9 then let d = x mod 9 + 1; x = x div 9 in x * 10 + d else x + 1) in
       DecompressAmount_loop e n)"

subsection \<open>Scripts\<close>

definition IsToKeyID :: "CScript \<Rightarrow> uint160 option" where
  "IsToKeyID script =
    (if length script = 25 \<and> script ! 0 = OP_DUP \<and> script ! 1 = OP_HASH160 \<and> script ! 2 = 20 \<and>
        script ! 23 = OP_EQUALVERIFY \<and> script ! 24 = OP_CHECKSIG
     then Some (take 20 (drop 3 script)) else None)"

definition IsToScriptID :: "CScript \<Rightarrow> uint160 option" where
  "IsToScriptID script =
    (if length script = 23 \<and> script ! 0 = OP_HASH160 \<and> script ! 1 = 20 \<and> script ! 22 = OP_EQUAL
     then Some (take 20 (drop 2 script)) else None)"

definition IsToPubKey :: "(bytes \<Rightarrow> bool) \<Rightarrow> CScript \<Rightarrow> bytes option" where
  "IsToPubKey fully_valid script =
    (if length script = 35 \<and> script ! 0 = 33 \<and> script ! 34 = OP_CHECKSIG \<and> (script ! 1 = 0x02 \<or> script ! 1 = 0x03)
     then Some (take 33 (drop 1 script))
     else if length script = 67 \<and> script ! 0 = 65 \<and> script ! 66 = OP_CHECKSIG \<and> script ! 1 = 0x04
     then let pubkey = take 65 (drop 1 script) in if fully_valid pubkey then Some pubkey else None
     else None)"

definition Compress :: "(bytes \<Rightarrow> bool) \<Rightarrow> CScript \<Rightarrow> bytes option" where
  "Compress fully_valid script =
    (case IsToKeyID script of Some keyID \<Rightarrow> Some (0x00 # keyID) | None \<Rightarrow>
     case IsToScriptID script of Some scriptID \<Rightarrow> Some (0x01 # scriptID) | None \<Rightarrow>
     case IsToPubKey fully_valid script of None \<Rightarrow> None | Some pubkey \<Rightarrow>
       if pubkey ! 0 = 0x02 \<or> pubkey ! 0 = 0x03 then Some (pubkey ! 0 # take 32 (drop 1 pubkey))
       else if pubkey ! 0 = 0x04 then Some ((0x04 OR (pubkey ! 64 AND 0x01)) # take 32 (drop 1 pubkey))
       else None)"

definition GetSpecialSize :: "u32 \<Rightarrow> nat" where
  "GetSpecialSize nSize =
    (if nSize = 0 \<or> nSize = 1 then 20
     else if nSize = 2 \<or> nSize = 3 \<or> nSize = 4 \<or> nSize = 5 then 32
     else 0)"

definition Decompress :: "(bytes \<Rightarrow> bytes option) \<Rightarrow> u32 \<Rightarrow> bytes \<Rightarrow> CScript \<Rightarrow> ios_failure + bool \<times> CScript" where
  "Decompress decompress nSize in_bytes script =
    (if nSize = 0x00
     then Inr (True, [OP_DUP, OP_HASH160, 20] @ take 20 in_bytes @ [OP_EQUALVERIFY, OP_CHECKSIG])
     else if nSize = 0x01 then Inr (True, [OP_HASH160, 20] @ take 20 in_bytes @ [OP_EQUAL])
     else if nSize = 0x02 \<or> nSize = 0x03
     then Inr (True, [33, ucast nSize] @ take 32 in_bytes @ [OP_CHECKSIG])
     else if nSize = 0x04 \<or> nSize = 0x05
     then case decompress (ucast (nSize - 2) # take 32 in_bytes) of
         None \<Rightarrow> Inr (False, script)
       | Some pubkey \<Rightarrow>
           if length pubkey \<noteq> 65 then Inl AssertionFails
           else Inr (True, [65] @ pubkey @ [OP_CHECKSIG])
     else Inr (False, script))"

definition nSpecialScripts :: u32 where
  "nSpecialScripts = 6"

definition Serialize_CScriptCompressor :: "(bytes \<Rightarrow> bool) \<Rightarrow> CScript \<Rightarrow> bytes" where
  "Serialize_CScriptCompressor fully_valid script =
    (case Compress fully_valid script of
       Some compr \<Rightarrow> compr
     | None \<Rightarrow> WriteVarInt (of_nat (length script) + nSpecialScripts) @ script)"

definition Unserialize_CScriptCompressor :: "(bytes \<Rightarrow> bytes option) \<Rightarrow> CScript \<Rightarrow> CScript reader" where
  "Unserialize_CScriptCompressor decompress script =
    reader_bind ReadVarInt (\<lambda>nSize0.
      if nSize0 < nSpecialScripts
      then reader_bind (stream_read (GetSpecialSize nSize0)) (\<lambda>vch s.
        case Decompress decompress nSize0 vch script of Inl e \<Rightarrow> Inl e | Inr (_, script) \<Rightarrow> Inr (script, s))
      else let nSize = nSize0 - nSpecialScripts in
        if nSize > of_nat MAX_SCRIPT_SIZE
        then reader_bind (stream_ignore nSize) (\<lambda>_. reader_return (script @ [OP_RETURN]))
        else stream_read (unat nSize))"

subsection \<open>Outputs and entries\<close>

definition Serialize_CTxOutCompressor :: "(bytes \<Rightarrow> bool) \<Rightarrow> CTxOut \<Rightarrow> bytes option" where
  "Serialize_CTxOutCompressor fully_valid txout =
    (case CompressAmount (word_of_int (nValue txout)) of None \<Rightarrow> None
     | Some nVal \<Rightarrow> Some (WriteVarInt nVal @ Serialize_CScriptCompressor fully_valid (scriptPubKey txout)))"

definition Unserialize_CTxOutCompressor :: "(bytes \<Rightarrow> bytes option) \<Rightarrow> CTxOut \<Rightarrow> CTxOut reader" where
  "Unserialize_CTxOutCompressor decompress txout =
    reader_bind ReadVarInt (\<lambda>nVal.
    reader_bind (Unserialize_CScriptCompressor decompress (scriptPubKey txout)) (\<lambda>script.
    reader_return \<lparr>nValue = sint (DecompressAmount nVal), scriptPubKey = script\<rparr>))"

definition cash_code :: "Cash \<Rightarrow> u32" where
  "cash_code c = of_nat (cash_nHeight c) * 2 + of_bool (cash_fCashBase c)"

definition Serialize_Cash :: "(bytes \<Rightarrow> bool) \<Rightarrow> Cash \<Rightarrow> bytes option" where
  "Serialize_Cash fully_valid c =
    (if Cash_IsSpent c then None
     else map_option (\<lambda>b. WriteVarInt (cash_code c) @ b) (Serialize_CTxOutCompressor fully_valid (cash_out c)))"

definition Unserialize_Cash :: "(bytes \<Rightarrow> bytes option) \<Rightarrow> Cash \<Rightarrow> Cash reader" where
  "Unserialize_Cash decompress c =
    reader_bind ReadVarInt (\<lambda>code.
    reader_bind (Unserialize_CTxOutCompressor decompress (cash_out c)) (\<lambda>txout.
    reader_return \<lparr>cash_out = txout, cash_fCashBase = (code AND 1 \<noteq> 0), cash_nHeight = unat (drop_bit 1 (code :: u32))\<rparr>))"

subsection \<open>Undo data\<close>

definition TxInUndoSerializer :: "(bytes \<Rightarrow> bool) \<Rightarrow> Cash \<Rightarrow> bytes option" where
  "TxInUndoSerializer fully_valid c =
    map_option (\<lambda>b. WriteVarInt (cash_code c) @ (if cash_nHeight c > 0 then ser_writedata8 0 else []) @ b)
      (Serialize_CTxOutCompressor fully_valid (cash_out c))"

definition TxInUndoDeserializer :: "(bytes \<Rightarrow> bytes option) \<Rightarrow> Cash \<Rightarrow> Cash reader" where
  "TxInUndoDeserializer decompress c =
    reader_bind ReadVarInt (\<lambda>nCode.
    let nHeight = unat ((nCode :: u32) div 2); fCashBase = (nCode AND 1 \<noteq> 0) in
    reader_bind (if nHeight > 0 then reader_bind ReadVarInt (\<lambda>nVersionDummy :: u32. reader_return ())
                 else reader_return ()) (\<lambda>_.
    reader_bind (Unserialize_CTxOutCompressor decompress (cash_out c)) (\<lambda>txout.
    reader_return \<lparr>cash_out = txout, cash_fCashBase = fCashBase, cash_nHeight = nHeight\<rparr>)))"

definition CTxIn_default :: CTxIn where
  "CTxIn_default = \<lparr>prevout = COutPoint_null, scriptSig = [], nSequence = SEQUENCE_FINAL, scriptWitness = []\<rparr>"

definition MIN_TRANSACTION_INPUT_WEIGHT :: nat where
  "MIN_TRANSACTION_INPUT_WEIGHT = WITNESS_SCALE_FACTOR * length (Serialize_CTxIn CTxIn_default)"

definition MAX_INPUTS_PER_BLOCK :: nat where
  "MAX_INPUTS_PER_BLOCK = MAX_BLOCK_WEIGHT div MIN_TRANSACTION_INPUT_WEIGHT"

type_synonym CTxUndo = "Cash list"
type_synonym CBlockUndo = "CTxUndo list"

definition Serialize_CTxUndo :: "(bytes \<Rightarrow> bool) \<Rightarrow> CTxUndo \<Rightarrow> bytes option" where
  "Serialize_CTxUndo fully_valid vprevout =
    map_option (\<lambda>bs. WriteCompactSize (of_nat (length vprevout)) @ concat bs)
      (those (map (TxInUndoSerializer fully_valid) vprevout))"

definition Unserialize_CTxUndo :: "(bytes \<Rightarrow> bytes option) \<Rightarrow> CTxUndo reader" where
  "Unserialize_CTxUndo decompress =
    reader_bind ReadCompactSize (\<lambda>count.
      if unat count > MAX_INPUTS_PER_BLOCK then reader_throw TooManyInputUndos
      else read_elements (TxInUndoDeserializer decompress cashEmpty) (unat count))"

definition Serialize_CBlockUndo :: "(bytes \<Rightarrow> bool) \<Rightarrow> CBlockUndo \<Rightarrow> bytes option" where
  "Serialize_CBlockUndo fully_valid vtxundo =
    map_option (\<lambda>bs. WriteCompactSize (of_nat (length vtxundo)) @ concat bs)
      (those (map (Serialize_CTxUndo fully_valid) vtxundo))"

definition Unserialize_CBlockUndo :: "(bytes \<Rightarrow> bytes option) \<Rightarrow> CBlockUndo reader" where
  "Unserialize_CBlockUndo decompress = Unserialize_vector (Unserialize_CTxUndo decompress)"

subsection \<open>Amounts round-trip\<close>

declare CompressAmount_loop.simps [simp del]

lemma CompressAmount_loop_spec:
  "CompressAmount_loop n e = (m, k) \<Longrightarrow> e \<le> 9 \<Longrightarrow>
    unat n * 10 ^ e = unat m * 10 ^ k \<and> k \<le> 9 \<and> (k < 9 \<longrightarrow> unat m mod 10 \<noteq> 0) \<and> unat m \<le> unat n"
proof (induction n e rule: CompressAmount_loop.induct)
  case (1 n e)
  have z: "n mod 10 = 0 \<longleftrightarrow> unat n mod 10 = 0" by (simp add: word_unat_eq_iff unat_mod)
  show ?case
  proof (cases "n mod 10 = 0 \<and> e < 9")
    case True
    then have d: "unat n = unat (n div 10) * 10" using z by (auto simp: unat_div)
    have "unat (n div 10) * 10 ^ (e + 1) = unat m * 10 ^ k \<and> k \<le> 9 \<and> (k < 9 \<longrightarrow> unat m mod 10 \<noteq> 0) \<and>
        unat m \<le> unat (n div 10)"
      using 1 True by (subst (asm) CompressAmount_loop.simps) simp_all
    then show ?thesis using d by simp
  next
    case False
    then have "m = n \<and> k = e" using 1(2) by (subst (asm) CompressAmount_loop.simps) auto
    then show ?thesis using False 1(3) z by auto
  qed
qed

lemma DecompressAmount_loop_spec:
  "unat n * 10 ^ e < 2 ^ 64 \<Longrightarrow> unat (DecompressAmount_loop e n) = unat n * 10 ^ e"
proof (induction e arbitrary: n)
  case (Suc e)
  have "unat n * 10 \<le> unat n * 10 ^ Suc e" by simp
  from this Suc.prems have "unat n * 10 < 2 ^ 64" by (rule le_less_trans)
  then have "unat (n * 10) = unat n * 10" by (simp add: unat_word_ariths)
  then show ?case using Suc by (simp add: mult.assoc)
qed simp

text \<open>The code as a number; below \<open>2\<^sup>6\<^sup>0\<close> it is computed without a wrap-around.\<close>

definition amount_code :: "nat \<Rightarrow> nat \<Rightarrow> nat" where
  "amount_code m e = (if e < 9 then 1 + (m div 10 * 9 + m mod 10 - 1) * 10 + e else 1 + (m - 1) * 10 + 9)"

lemma word_div_nat: "(a :: u64) div b = of_nat (unat a div unat b)"
  by (simp flip: unat_div)

lemma word_mod_nat: "(a :: u64) mod b = of_nat (unat a mod unat b)"
  by (simp flip: unat_mod)

lemma CompressAmount_code:
  assumes "n \<noteq> 0" "CompressAmount_loop n 0 = (m, e)"
  shows "CompressAmount n = Some (of_nat (amount_code (unat m) e)) \<and> unat n = unat m * 10 ^ e \<and> 0 < unat m \<and> e \<le> 9 \<and>
    (e < 9 \<longrightarrow> unat m mod 10 \<noteq> 0) \<and> unat m \<le> unat n"
proof -
  note spec = CompressAmount_loop_spec [OF assms(2)]
  have n0: "0 < unat n" using assms(1) by (simp add: unat_gt_0)
  with spec have m: "0 < unat m" by (cases "unat m = 0") auto
  have d: "unat (m mod 10) = unat m mod 10" "unat (m div 10) = unat m div 10" by (simp_all add: unat_mod unat_div)
  then have w: "m mod 10 = of_nat (unat m mod 10)" "m div 10 = of_nat (unat m div 10)"
    by (simp_all flip: d)
  have "CompressAmount n = Some (of_nat (amount_code (unat m) e))"
  proof (cases "e < 9")
    case True
    with spec have k: "unat m mod 10 \<noteq> 0" by simp
    then have "1 \<le> unat m mod 10 \<and> unat m mod 10 \<le> 9" using mod_less_divisor [of 10 "unat m"] by linarith
    then have "1 \<le> m mod 10 \<and> m mod 10 \<le> 9" by (simp add: word_le_nat_alt d)
    moreover have "m div 10 * 9 + m mod 10 - 1 = of_nat (unat m div 10 * 9 + unat m mod 10 - 1)"
      using k by (simp add: w of_nat_diff)
    ultimately show ?thesis using assms True by (simp add: CompressAmount_def amount_code_def Let_def)
  next
    case False
    have "m - 1 = of_nat (unat m - 1)" using m by (simp add: of_nat_diff)
    then show ?thesis using assms False by (simp add: CompressAmount_def amount_code_def)
  qed
  with spec m show ?thesis by simp
qed

lemma CompressAmount_total: "\<exists>x. CompressAmount n = Some x"
proof (cases "n = 0")
  case False
  obtain m e where "CompressAmount_loop n 0 = (m, e)" by force
  then show ?thesis using CompressAmount_code [OF False] by blast
qed (simp add: CompressAmount_def)

lemma amount_code_decode:
  assumes "0 < m" "e \<le> 9" "e < 9 \<longrightarrow> m mod 10 \<noteq> 0"
  shows "(amount_code m e - 1) mod 10 = e"
    and "(if e < 9 then (amount_code m e - 1) div 10 div 9 * 10 + ((amount_code m e - 1) div 10 mod 9 + 1)
          else (amount_code m e - 1) div 10 + 1) = m"
proof -
  let ?x = "amount_code m e - 1"
  have x: "?x = (if e < 9 then m div 10 * 9 + m mod 10 - 1 else m - 1) * 10 + e"
    using assms(2) by (simp add: amount_code_def)
  then show "?x mod 10 = e" using assms(2) by simp
  have q: "?x div 10 = (if e < 9 then m div 10 * 9 + m mod 10 - 1 else m - 1)"
    unfolding x using assms(2) by simp
  show "(if e < 9 then ?x div 10 div 9 * 10 + (?x div 10 mod 9 + 1) else ?x div 10 + 1) = m"
  proof (cases "e < 9")
    case True
    then obtain d where d: "m mod 10 = Suc d" "d < 9"
      using assms(3) mod_less_divisor [of 10 m] by (cases "m mod 10") auto
    then have "(m div 10 * 9 + m mod 10 - 1) div 9 = m div 10" "(m div 10 * 9 + m mod 10 - 1) mod 9 = d"
      by simp_all
    then show ?thesis using True d div_mult_mod_eq [of m 10] unfolding q by simp
  qed (unfold q, use assms(1) in simp)
qed

lemma amount_code_bounds: "0 < m \<Longrightarrow> e \<le> 9 \<Longrightarrow> 0 < amount_code m e \<and> amount_code m e \<le> 10 * m + 10"
  using div_mult_mod_eq [of m 10] unfolding amount_code_def
  by (cases "e < 9") (simp_all only: if_True if_False, linarith+)

lemma DecompressAmount_CompressAmount:
  assumes "unat n < 2 ^ 60"
  shows "\<exists>x. CompressAmount n = Some x \<and> DecompressAmount x = n"
proof (cases "n = 0")
  case False
  obtain m e where loop: "CompressAmount_loop n 0 = (m, e)" by force
  note c = CompressAmount_code [OF False loop]
  let ?X = "amount_code (unat m) e" and ?x = "of_nat (amount_code (unat m) e) :: u64"
  have X: "0 < ?X" "?X \<le> 10 * unat m + 10" using amount_code_bounds [of "unat m" e] c by auto
  then have x: "unat ?x = ?X" using c assms by (simp add: unat_of_nat)
  then have nz: "?x \<noteq> 0" using X(1) by (metis less_numeral_extra(3) unsigned_0)
  then have x1: "unat (?x - 1) = ?X - 1" using x by (simp add: unat_minus_one)
  let ?q = "(?x - 1) div 10"
  have e: "unat ((?x - 1) mod 10) = e" and q: "unat ?q = (?X - 1) div 10"
    using amount_code_decode(1) [of "unat m" e] c by (simp_all add: unat_mod unat_div x1)
  have qw: "?q = of_nat (unat ?q)" "?q div 9 = of_nat (unat ?q div 9)" "?q mod 9 = of_nat (unat ?q mod 9)"
    using word_div_nat [of ?q 9] word_mod_nat [of ?q 9] by simp_all
  have "(if e < 9 then ?q div 9 * 10 + (?q mod 9 + 1) else ?q + 1) =
      of_nat (if e < 9 then unat ?q div 9 * 10 + (unat ?q mod 9 + 1) else unat ?q + 1)"
    using qw by (simp split: if_split)
  also have "\<dots> = m" using amount_code_decode(2) [of "unat m" e] c unfolding q by simp
  finally have "DecompressAmount ?x = DecompressAmount_loop e m"
    using nz by (cases "e < 9") (simp_all add: DecompressAmount_def Let_def e)
  moreover have "unat (DecompressAmount_loop e m) = unat n"
    using DecompressAmount_loop_spec [of m e] c assms by simp
  ultimately show ?thesis using c by (metis word_unat_eq_iff)
qed (simp add: CompressAmount_def DecompressAmount_def)

subsection \<open>Scripts round-trip\<close>

text \<open>What the format relies on: a valid uncompressed key is found again from its first coordinate and parity.\<close>

definition pubkey_ops_ok :: "(bytes \<Rightarrow> bool) \<Rightarrow> (bytes \<Rightarrow> bytes option) \<Rightarrow> bool" where
  "pubkey_ops_ok fully_valid decompress \<longleftrightarrow>
    (\<forall>pk. length pk = 65 \<and> pk ! 0 = 0x04 \<and> fully_valid pk \<longrightarrow>
      decompress ((0x02 + (pk ! 64 AND 0x01)) # take 32 (drop 1 pk)) = Some pk)"

lemma take_nths:
  "1 \<le> length s \<Longrightarrow> take 1 s = [s ! 0]" "2 \<le> length s \<Longrightarrow> take 2 s = [s ! 0, s ! 1]"
  "3 \<le> length s \<Longrightarrow> take 3 s = [s ! 0, s ! 1, s ! 2]"
  by (auto intro!: nth_equalityI simp: less_Suc_eq numeral_2_eq_2 numeral_3_eq_3)

lemma drop_nths:
  "length s = n + 1 \<Longrightarrow> drop n s = [s ! n]" "length s = n + 2 \<Longrightarrow> drop n s = [s ! n, s ! (n + 1)]"
  by (auto intro!: nth_equalityI simp: less_Suc_eq numeral_2_eq_2)

lemma three_parts: "s = take a s @ take b (drop a s) @ drop (a + b) s"
  by (metis append_take_drop_id drop_drop add.commute)

lemma IsToKeyID_Some:
  "IsToKeyID script = Some h \<Longrightarrow>
    length h = 20 \<and> script = [OP_DUP, OP_HASH160, 20] @ h @ [OP_EQUALVERIFY, OP_CHECKSIG]"
  using three_parts [of script 3 20] take_nths(3) [of script] drop_nths(2) [of script 23]
  by (simp add: IsToKeyID_def split: if_splits)

lemma IsToScriptID_Some:
  "IsToScriptID script = Some h \<Longrightarrow> length h = 20 \<and> script = [OP_HASH160, 20] @ h @ [OP_EQUAL]"
  using three_parts [of script 2 20] take_nths(2) [of script] drop_nths(1) [of script 22]
  by (simp add: IsToScriptID_def split: if_splits)

lemma IsToPubKey_Some:
  "IsToPubKey fv script = Some pk \<Longrightarrow>
    script = of_nat (length pk) # pk @ [OP_CHECKSIG] \<and>
    (length pk = 33 \<and> (pk ! 0 = 0x02 \<or> pk ! 0 = 0x03) \<or> length pk = 65 \<and> pk ! 0 = 0x04 \<and> fv pk)"
proof -
  assume a: "IsToPubKey fv script = Some pk"
  then obtain n where n: "length script = n + 2" "pk = take n (drop 1 script)" "script ! 0 = of_nat n"
    "script ! (n + 1) = OP_CHECKSIG" and k: "n = 33 \<and> (script ! 1 = 0x02 \<or> script ! 1 = 0x03) \<or> n = 65 \<and> script ! 1 = 0x04 \<and> fv pk"
    by (auto simp: IsToPubKey_def Let_def split: if_splits)
  then have "script = of_nat n # pk @ [OP_CHECKSIG]" "length pk = n"
    using three_parts [of script 1 n] take_nths(1) [of script] drop_nths(1) [of script "n + 1"] by simp_all
  moreover from this have "pk ! 0 = script ! 1" using k by (cases pk) auto
  ultimately show ?thesis using k by auto
qed

lemma ReadVarInt_special:
  "ReadVarInt (0 # s) = Inr (0 :: u32, s)" "ReadVarInt (1 # s) = Inr (1 :: u32, s)"
  "ReadVarInt (2 # s) = Inr (2 :: u32, s)" "ReadVarInt (3 # s) = Inr (3 :: u32, s)"
  "ReadVarInt (4 # s) = Inr (4 :: u32, s)" "ReadVarInt (5 # s) = Inr (5 :: u32, s)"
  by (simp_all add: ReadVarInt_def ReadVarInt_loop.simps drop_bit_eq_div)

lemma CScriptCompressor_roundtrip:
  assumes ok: "pubkey_ops_ok fv dec" and len: "length script \<le> MAX_SCRIPT_SIZE"
  shows "Unserialize_CScriptCompressor dec script0 (Serialize_CScriptCompressor fv script @ r) = Inr (script, r)"
proof -
  have special: "Unserialize_CScriptCompressor dec script0 (b # h @ r) = Inr (script, r)"
    if "ReadVarInt (b # h @ r) = Inr (k, h @ r)" "k < nSpecialScripts" "length h = GetSpecialSize k"
      "Decompress dec k h script0 = Inr (True, script)" for b h k
    using that by (simp add: Unserialize_CScriptCompressor_def)
  consider (key) h where "IsToKeyID script = Some h"
    | (sid) h where "IsToKeyID script = None" "IsToScriptID script = Some h"
    | (pub) pk where "IsToKeyID script = None" "IsToScriptID script = None" "IsToPubKey fv script = Some pk"
    | (plain) "IsToKeyID script = None" "IsToScriptID script = None" "IsToPubKey fv script = None"
    by (cases "IsToKeyID script"; cases "IsToScriptID script"; cases "IsToPubKey fv script") auto
  then show ?thesis
  proof cases
    case key
    then show ?thesis using IsToKeyID_Some [OF key] special [of 0 h 0]
      by (simp add: Serialize_CScriptCompressor_def Compress_def ReadVarInt_special nSpecialScripts_def
          GetSpecialSize_def Decompress_def)
  next
    case sid
    then show ?thesis using IsToScriptID_Some [OF sid(2)] special [of 1 h 1]
      by (simp add: Serialize_CScriptCompressor_def Compress_def ReadVarInt_special nSpecialScripts_def
          GetSpecialSize_def Decompress_def)
  next
    case pub
    note pk = IsToPubKey_Some [OF pub(3)]
    then obtain b t where t: "pk = b # t" by (cases pk) auto
    show ?thesis
    proof (cases "length pk = 33")
      case True
      with pk t have "b = 2 \<or> b = 3" "length t = 32" by auto
      then show ?thesis
        using pk pub t special [of 2 t 2] special [of 3 t 3] True
        by (auto simp: Serialize_CScriptCompressor_def Compress_def ReadVarInt_special nSpecialScripts_def
            GetSpecialSize_def Decompress_def)
    next
      case False
      with pk have p: "length pk = 65" "pk ! 0 = 4" "fv pk" by auto
      have b: "pk ! 64 AND 1 = 0 \<or> pk ! 64 AND 1 = 1" by (simp add: and_one_eq mod_2_eq_odd)
      have "dec ((2 + (pk ! 64 AND 1)) # take 32 (drop 1 pk)) = Some pk"
        using ok p by (simp add: pubkey_ops_ok_def)
      then show ?thesis
        using pk p pub b special [of 4 "take 32 (drop 1 pk)" 4] special [of 5 "take 32 (drop 1 pk)" 5]
        by (auto simp: Serialize_CScriptCompressor_def Compress_def ReadVarInt_special nSpecialScripts_def
            GetSpecialSize_def Decompress_def)
    qed
  next
    case plain
    have n: "unat (of_nat (length script) + nSpecialScripts) = length script + 6"
      using len by (simp add: nSpecialScripts_def unat_word_ariths unat_of_nat)
    then have "\<not> of_nat (length script) + nSpecialScripts < nSpecialScripts"
      by (simp add: word_less_nat_alt nSpecialScripts_def)
    with plain len show ?thesis
      by (simp add: Serialize_CScriptCompressor_def Compress_def Unserialize_CScriptCompressor_def
          ReadVarInt_WriteVarInt word_less_nat_alt unat_of_nat)
  qed
qed

subsection \<open>Entries and undo data round-trip\<close>

definition cash_ok :: "Cash \<Rightarrow> bool" where
  "cash_ok c \<longleftrightarrow> MoneyRange (nValue (cash_out c)) \<and> length (scriptPubKey (cash_out c)) \<le> MAX_SCRIPT_SIZE \<and>
    cash_nHeight c < 2 ^ 31"

lemma CTxOutCompressor_roundtrip:
  assumes "pubkey_ops_ok fv dec" "MoneyRange (nValue out)" "length (scriptPubKey out) \<le> MAX_SCRIPT_SIZE"
  shows "\<exists>b. Serialize_CTxOutCompressor fv out = Some b \<and>
    (\<forall>out0 r. Unserialize_CTxOutCompressor dec out0 (b @ r) = Inr (out, r))"
proof -
  let ?w = "word_of_int (nValue out) :: u64"
  have v: "0 \<le> nValue out" "nValue out < 2 ^ 60"
    using assms(2) by (simp_all add: MoneyRange_def MAX_MONEY_def CASH_def)
  then have u: "uint ?w = nValue out" by (simp add: uint_word_of_int)
  then have "unat ?w < 2 ^ 60" using v by (simp add: nat_less_iff flip: nat_uint_eq)
  then obtain x where x: "CompressAmount ?w = Some x" "DecompressAmount x = ?w"
    using DecompressAmount_CompressAmount by blast
  have "sint ?w = nValue out" using v by (simp add: sint_uint u signed_take_bit_int_eq_self)
  then show ?thesis using x CScriptCompressor_roundtrip [OF assms(1,3)]
    by (simp add: Serialize_CTxOutCompressor_def Unserialize_CTxOutCompressor_def ReadVarInt_WriteVarInt)
qed

lemma cash_code:
  assumes "cash_nHeight c < 2 ^ 31"
  shows "unat (cash_code c) div 2 = cash_nHeight c" "(cash_code c AND 1 \<noteq> 0) = cash_fCashBase c"
proof -
  have "unat (cash_code c) = cash_nHeight c * 2 + of_bool (cash_fCashBase c)"
    using assms by (cases "cash_fCashBase c") (simp_all add: cash_code_def unat_word_ariths unat_of_nat)
  then show "unat (cash_code c) div 2 = cash_nHeight c" "(cash_code c AND 1 \<noteq> 0) = cash_fCashBase c"
    by (simp_all add: and_one_eq word_unat_eq_iff unat_mod)
qed

lemma Cash_codec:
  assumes "pubkey_ops_ok fv dec" "cash_ok c"
  shows "\<exists>b. Serialize_Cash fv c = Some b \<and> (\<forall>c0 r. Unserialize_Cash dec c0 (b @ r) = Inr (c, r))"
proof -
  obtain b where b: "Serialize_CTxOutCompressor fv (cash_out c) = Some b"
    "\<And>out0 r. Unserialize_CTxOutCompressor dec out0 (b @ r) = Inr (cash_out c, r)"
    using CTxOutCompressor_roundtrip assms unfolding cash_ok_def by metis
  have "\<not> Cash_IsSpent c"
    using assms(2) by (simp add: Cash_IsSpent_def CTxOut_IsNull_def cash_ok_def MoneyRange_def)
  moreover have "unat (drop_bit 1 (cash_code c)) = cash_nHeight c" "(cash_code c AND 1 \<noteq> 0) = cash_fCashBase c"
    using cash_code [of c] assms(2) by (simp_all add: unat_drop_bit cash_ok_def)
  ultimately show ?thesis using b
    by (simp add: Serialize_Cash_def Unserialize_Cash_def ReadVarInt_WriteVarInt)
qed

lemma undo_codec:
  assumes "pubkey_ops_ok fv dec"
  shows "lossless_codec (the \<circ> TxInUndoSerializer fv) (TxInUndoDeserializer dec cashEmpty) cash_ok"
    and "cash_ok c \<Longrightarrow> TxInUndoSerializer fv c \<noteq> None"
proof -
  have *: "\<exists>b. TxInUndoSerializer fv c = Some b \<and> TxInUndoDeserializer dec cashEmpty (b @ r) = Inr (c, r)"
    if ok: "cash_ok c" for c r
  proof -
    obtain b where b: "Serialize_CTxOutCompressor fv (cash_out c) = Some b"
      "\<And>out0 r. Unserialize_CTxOutCompressor dec out0 (b @ r) = Inr (cash_out c, r)"
      using CTxOutCompressor_roundtrip assms ok unfolding cash_ok_def by metis
    have "unat (cash_code c div 2) = cash_nHeight c" "(cash_code c AND 1 \<noteq> 0) = cash_fCashBase c"
      using cash_code [of c] ok by (simp_all add: unat_div cash_ok_def)
    then show ?thesis using b
      by (simp add: TxInUndoSerializer_def TxInUndoDeserializer_def ReadVarInt_WriteVarInt ser_writedata8_def
          ReadVarInt_special Let_def)
  qed
  show "lossless_codec (the \<circ> TxInUndoSerializer fv) (TxInUndoDeserializer dec cashEmpty) cash_ok"
    using * by unfold_locales fastforce
  show "cash_ok c \<Longrightarrow> TxInUndoSerializer fv c \<noteq> None" using * by fastforce
qed

lemma those_map: "list_all (\<lambda>x. f x \<noteq> None) xs \<Longrightarrow> those (map f xs) = Some (map (the \<circ> f) xs)"
  by (induction xs) auto

definition undo_ok :: "CTxUndo \<Rightarrow> bool" where
  "undo_ok u \<longleftrightarrow> length u \<le> MAX_INPUTS_PER_BLOCK \<and> list_all cash_ok u"

lemma MAX_INPUTS_PER_BLOCK_eq: "MAX_INPUTS_PER_BLOCK = 24390"
  by (simp add: MAX_INPUTS_PER_BLOCK_def MIN_TRANSACTION_INPUT_WEIGHT_def consts_defs Serialize_CTxIn_def CTxIn_default_def
      Serialize_COutPoint_def COutPoint_null_def uint256_null_def ser_writedata32_def Serialize_bytes_def
      WriteCompactSize_def ser_writedata8_def)

lemma CTxUndo_codec:
  assumes "pubkey_ops_ok fv dec"
  shows "lossless_codec (the \<circ> Serialize_CTxUndo fv) (Unserialize_CTxUndo dec) undo_ok"
    and "undo_ok u \<Longrightarrow> Serialize_CTxUndo fv u \<noteq> None"
proof -
  have *: "\<exists>b. Serialize_CTxUndo fv u = Some b \<and> Unserialize_CTxUndo dec (b @ r) = Inr (u, r)" if "undo_ok u" for u r
  proof -
    have u: "length u \<le> 24390" "list_all cash_ok u" using that by (simp_all add: undo_ok_def MAX_INPUTS_PER_BLOCK_eq)
    then have n: "size_ok u" by (simp add: size_ok_def)
    have "list_all (\<lambda>c. TxInUndoSerializer fv c \<noteq> None) u"
      using u(2) undo_codec(2) [OF assms] by (auto simp: list_all_iff)
    then have "those (map (TxInUndoSerializer fv) u) = Some (map (the \<circ> TxInUndoSerializer fv) u)" by (rule those_map)
    then show ?thesis
      using size_ok_MAX_SIZE [OF n] u lossless_codec.read_elements_ser [OF undo_codec(1) [OF assms] u(2)]
      by (simp add: Serialize_CTxUndo_def Unserialize_CTxUndo_def MAX_INPUTS_PER_BLOCK_eq)
  qed
  show "lossless_codec (the \<circ> Serialize_CTxUndo fv) (Unserialize_CTxUndo dec) undo_ok"
    using * by unfold_locales fastforce
  show "undo_ok u \<Longrightarrow> Serialize_CTxUndo fv u \<noteq> None" using * by fastforce
qed

lemma CBlockUndo_roundtrip:
  assumes "pubkey_ops_ok fv dec" "size_ok undo" "list_all undo_ok undo"
  shows "\<exists>b. Serialize_CBlockUndo fv undo = Some b \<and> (\<forall>r. Unserialize_CBlockUndo dec (b @ r) = Inr (undo, r))"
proof -
  have "list_all (\<lambda>u. Serialize_CTxUndo fv u \<noteq> None) undo"
    using assms(3) CTxUndo_codec(2) [OF assms(1)] by (auto simp: list_all_iff)
  then have "Serialize_CBlockUndo fv undo = Some (Serialize_vector (the \<circ> Serialize_CTxUndo fv) undo)"
    by (simp add: Serialize_CBlockUndo_def Serialize_vector_def those_map)
  then show ?thesis
    using lossless_codec.vector_roundtrip [OF CTxUndo_codec(1) [OF assms(1)] assms(2,3)]
    by (simp add: Unserialize_CBlockUndo_def)
qed

text \<open>
  C31: the entry of an unspent output with a value in the money range, a script within the size limit and
  a 31-bit height is written and read back unchanged, into an object with any old contents; and so is the
  undo data of a block, whose transactions have at most the number of inputs that fits a block. No
  assertion of the writer fails. The compact form of amounts and scripts is therefore lossless.
\<close>

theorem compact_roundtrip:
  assumes "pubkey_ops_ok fv dec" "cash_ok c" "size_ok undo" "list_all undo_ok undo"
  shows "(\<exists>b. Serialize_Cash fv c = Some b \<and> (\<forall>c0 r. Unserialize_Cash dec c0 (b @ r) = Inr (c, r))) \<and>
    (\<exists>b. Serialize_CBlockUndo fv undo = Some b \<and> (\<forall>r. Unserialize_CBlockUndo dec (b @ r) = Inr (undo, r)))"
  using Cash_codec [OF assms(1,2)] CBlockUndo_roundtrip [OF assms(1,3,4)] by simp

lemma example_pubkey_ops:
  "pubkey_ops_ok (\<lambda>pk :: bytes. drop 33 pk = replicate 32 0) (\<lambda>pk :: bytes. Some (0x04 # drop 1 pk @ replicate 32 0))"
proof -
  have "0x04 # take 32 (drop 1 pk) @ drop 33 pk = pk" if "length pk = 65" "pk ! 0 = 0x04" for pk :: bytes
    using that three_parts [of pk 1 32] take_nths(1) [of pk] by simp
  then show ?thesis unfolding pubkey_ops_ok_def by (simp add: take_drop) metis
qed

theorem compact_roundtrip_witness:
  "let fv = (\<lambda>pk. drop 33 pk = replicate 32 0);
       dec = (\<lambda>pk. Some (0x04 # drop 1 pk @ replicate 32 0));
       c = \<lparr>cash_out = \<lparr>nValue = 3 * CASH, scriptPubKey = 65 # 0x04 # replicate 64 0 @ [OP_CHECKSIG]\<rparr>,
            cash_fCashBase = True, cash_nHeight = 7\<rparr> in
    pubkey_ops_ok fv dec \<and> IsToPubKey fv (scriptPubKey (cash_out c)) \<noteq> None \<and>
    (\<exists>b. Serialize_Cash fv c = Some b \<and> Unserialize_Cash dec cashEmpty b = Inr (c, []))"
proof -
  let ?fv = "\<lambda>pk :: bytes. drop 33 pk = replicate 32 0"
  let ?dec = "\<lambda>pk :: bytes. Some (0x04 # drop 1 pk @ replicate 32 0)"
  let ?c = "\<lparr>cash_out = \<lparr>nValue = 3 * CASH, scriptPubKey = 65 # 0x04 # replicate 64 0 @ [OP_CHECKSIG]\<rparr>,
            cash_fCashBase = True, cash_nHeight = 7\<rparr>"
  note ok = example_pubkey_ops
  have c: "cash_ok ?c" by (simp add: cash_ok_def MoneyRange_def MAX_MONEY_def CASH_def)
  have "IsToPubKey ?fv (scriptPubKey (cash_out ?c)) \<noteq> None"
    by (simp add: IsToPubKey_def nth_append nth_Cons' take_Cons' drop_Cons' Let_def)
  then show ?thesis
    using compact_roundtrip [OF ok c, of "[]"] ok unfolding Let_def by (auto simp: size_ok_def) (metis append_Nil2)
qed

end
