(* ===== verification/SC_Undo.thy ===== *)
theory SC_Undo
  imports SC_Headers SC_Compressor
begin

text \<open>
  The effect of a block on the unspent outputs and its reversal (\<^verbatim>\<open>validation.cpp\<close>, and \<open>AccessByTxid\<close> of
  \<^verbatim>\<open>cash.cpp\<close>): the subsidy, \<open>UpdateCash\<close> with the undo data it records, \<open>ApplyTxInUndo\<close> and \<open>DisconnectBlock\<close>.
  The undo data read back from disk is an argument of \<open>DisconnectBlock\<close>; after \<open>DISCONNECT_FAILED\<close> the view of the
  source is indeterminate, and the model returns the one it was given.
\<close>

subsection \<open>The subsidy\<close>

definition GetBlockSubsidy :: "int \<Rightarrow> ConsensusParams \<Rightarrow> CAmount" where
  "GetBlockSubsidy height params =
     (let halvings = height sdiv nSubsidyHalvingInterval params in
      if halvings \<ge> 64 then 0 else drop_bit (nat halvings) (50 * CASH))"

subsection \<open>Applying a transaction\<close>

fun spend_inputs ::
  "'v CCashView \<Rightarrow> CTxIn list \<Rightarrow> 'v CCashViewCache \<Rightarrow> val_error + CTxUndo \<times> 'v CCashViewCache" where
  "spend_inputs V [] c = Inr ([], c)"
| "spend_inputs V (txin # ins) c =
     (case SpendCash V (prevout txin) c of
        (None, c) \<Rightarrow> Inl ValAssert
      | (Some cash, c) \<Rightarrow> err_bind (spend_inputs V ins c) (\<lambda>(undo, c). Inr (cash # undo, c)))"

definition UpdateCash ::
  "'v CCashView \<Rightarrow> CTransaction \<Rightarrow> int \<Rightarrow> 'v CCashViewCache \<Rightarrow> val_error + CTxUndo \<times> 'v CCashViewCache" where
  "UpdateCash V tx height inputs =
     err_bind (if \<not> IsCashBase tx then spend_inputs V (vin tx) inputs else Inr ([], inputs)) (\<lambda>(txundo, c).
     err_bind (or_cash (AddCash_tx V tx height False c)) (\<lambda>c. Inr (txundo, c)))"

subsection \<open>Undoing a block\<close>

definition MIN_TRANSACTION_OUTPUT_WEIGHT :: nat where
  "MIN_TRANSACTION_OUTPUT_WEIGHT = WITNESS_SCALE_FACTOR * length (Serialize_CTxOut CTxOut_null)"

definition MAX_OUTPUTS_PER_BLOCK :: nat where
  "MAX_OUTPUTS_PER_BLOCK = MAX_BLOCK_WEIGHT div MIN_TRANSACTION_OUTPUT_WEIGHT"

fun access_by_txid ::
  "'v CCashView \<Rightarrow> uint256 \<Rightarrow> nat \<Rightarrow> nat \<Rightarrow> 'v CCashViewCache \<Rightarrow> Cash \<times> 'v CCashViewCache" where
  "access_by_txid V txid 0 i c = (cashEmpty, c)"
| "access_by_txid V txid (Suc left) i c =
     (case AccessCash V \<lparr>op_hash = txid, op_n = of_nat i\<rparr> c of (alternate, c) \<Rightarrow>
        if \<not> Cash_IsSpent alternate then (alternate, c) else access_by_txid V txid left (Suc i) c)"

definition AccessByTxid :: "'v CCashView \<Rightarrow> uint256 \<Rightarrow> 'v CCashViewCache \<Rightarrow> Cash \<times> 'v CCashViewCache" where
  "AccessByTxid V txid c = access_by_txid V txid MAX_OUTPUTS_PER_BLOCK 0 c"

datatype DisconnectResult = DISCONNECT_OK | DISCONNECT_UNCLEAN | DISCONNECT_FAILED

definition ApplyTxInUndo ::
  "'v CCashView \<Rightarrow> Cash \<Rightarrow> COutPoint \<Rightarrow> 'v CCashViewCache \<Rightarrow> val_error + DisconnectResult \<times> 'v CCashViewCache" where
  "ApplyTxInUndo V undo outpoint view =
     (let (have, c) = HaveCash V outpoint view; fClean = (\<not> have) in
      case (if cash_nHeight undo = 0
            then let (alternate, c) = AccessByTxid V (op_hash outpoint) c in
              if \<not> Cash_IsSpent alternate
              then (Some (undo\<lparr>cash_nHeight := cash_nHeight alternate, cash_fCashBase := cash_fCashBase alternate\<rparr>), c)
              else (None, c)
            else (Some undo, c)) of
        (None, c) \<Rightarrow> Inr (DISCONNECT_FAILED, c)
      | (Some undo, c) \<Rightarrow>
          err_bind (or_cash (AddCash outpoint undo (\<not> fClean) c)) (\<lambda>c.
            Inr (if fClean then DISCONNECT_OK else DISCONNECT_UNCLEAN, c)))"

fun undo_outputs ::
  "'v CCashView \<Rightarrow> uint256 \<Rightarrow> bool \<Rightarrow> int \<Rightarrow> nat \<Rightarrow> CTxOut list \<Rightarrow> bool \<Rightarrow> 'v CCashViewCache \<Rightarrow> bool \<times> 'v CCashViewCache" where
  "undo_outputs V hash is_cashbase height i [] fClean c = (fClean, c)"
| "undo_outputs V hash is_cashbase height i (txout # outs) fClean c =
     (if \<not> IsUnspendable (scriptPubKey txout)
      then (case SpendCash V \<lparr>op_hash = hash, op_n = of_nat i\<rparr> c of (r, c) \<Rightarrow>
         undo_outputs V hash is_cashbase height (Suc i) outs
           (fClean \<and> (case r of
              None \<Rightarrow> False
            | Some cash \<Rightarrow> txout = cash_out cash \<and> height = int (cash_nHeight cash) \<and> is_cashbase = cash_fCashBase cash)) c)
      else undo_outputs V hash is_cashbase height (Suc i) outs fClean c)"

text \<open>The inputs are restored from the last to the first; \<open>None\<close> is the result \<open>DISCONNECT_FAILED\<close>.\<close>

fun undo_inputs ::
  "'v CCashView \<Rightarrow> (CTxIn \<times> Cash) list \<Rightarrow> bool \<Rightarrow> 'v CCashViewCache \<Rightarrow> val_error + (bool \<times> 'v CCashViewCache) option" where
  "undo_inputs V [] fClean c = Inr (Some (fClean, c))"
| "undo_inputs V ((txin, undo) # rest) fClean c =
     err_bind (ApplyTxInUndo V undo (prevout txin) c) (\<lambda>(res, c).
       if res = DISCONNECT_FAILED then Inr None
       else undo_inputs V rest (fClean \<and> res \<noteq> DISCONNECT_UNCLEAN) c)"

definition undo_tx ::
  "'v CCashView \<Rightarrow> int \<Rightarrow> CTransaction \<Rightarrow> CTxUndo option \<Rightarrow> bool \<Rightarrow> 'v CCashViewCache \<Rightarrow>
    val_error + (bool \<times> 'v CCashViewCache) option" where
  "undo_tx V height tx txundo fClean c =
     (case undo_outputs V (tx_hash tx) (IsCashBase tx) height 0 (vout tx) fClean c of (fClean, c) \<Rightarrow>
        case txundo of
          None \<Rightarrow> Inr (Some (fClean, c))
        | Some vprevout \<Rightarrow>
            if length vprevout \<noteq> length (vin tx) then Inr None
            else undo_inputs V (rev (zip (vin tx) vprevout)) fClean c)"

text \<open>The transactions come from the last to the first, each with its undo data; the first has none.\<close>

fun undo_txs ::
  "'v CCashView \<Rightarrow> int \<Rightarrow> (CTransaction \<times> CTxUndo option) list \<Rightarrow> bool \<Rightarrow> 'v CCashViewCache \<Rightarrow>
    val_error + (bool \<times> 'v CCashViewCache) option" where
  "undo_txs V height [] fClean c = Inr (Some (fClean, c))"
| "undo_txs V height ((tx, txundo) # rest) fClean c =
     err_bind (undo_tx V height tx txundo fClean c) (\<lambda>r.
       case r of None \<Rightarrow> Inr None | Some (fClean, c) \<Rightarrow> undo_txs V height rest fClean c)"

definition DisconnectBlock ::
  "'v CCashView \<Rightarrow> block_store \<Rightarrow> CBlock \<Rightarrow> pindex \<Rightarrow> CBlockUndo option \<Rightarrow> 'v CCashViewCache \<Rightarrow>
    val_error + DisconnectResult \<times> 'v CCashViewCache" where
  "DisconnectBlock V st block pindex blockUndo view =
     (case blockUndo of
        None \<Rightarrow> Inr (DISCONNECT_FAILED, view)
      | Some vtxundo \<Rightarrow>
          if length vtxundo + 1 \<noteq> length (vtx block) then Inr (DISCONNECT_FAILED, view)
          else err_bind
            (undo_txs V (nHeight (st ! pindex)) (rev (zip (vtx block) (None # map Some vtxundo))) True view)
            (\<lambda>r. case r of
               None \<Rightarrow> Inr (DISCONNECT_FAILED, view)
             | Some (fClean, c) \<Rightarrow>
                 (case pprev (st ! pindex) of
                    None \<Rightarrow> Inl ValNull
                  | Some q \<Rightarrow>
                      Inr (if fClean then DISCONNECT_OK else DISCONNECT_UNCLEAN,
                           SetBestBlock (GetBlockHash (st ! q)) c))))"

subsection \<open>Transactions as functions on the set of unspent outputs\<close>

definition utxo_spend :: "CTxIn list \<Rightarrow> utxo \<Rightarrow> utxo" where
  "utxo_spend ins u p = (if p \<in> prevout ` set ins then None else u p)"

definition tx_utxo :: "int \<Rightarrow> CTransaction \<Rightarrow> utxo \<Rightarrow> utxo" where
  "tx_utxo h tx u =
     utxo_add (tx_hash tx) (IsCashBase tx) h 0 (vout tx) (if IsCashBase tx then u else utxo_spend (vin tx) u)"

definition tx_undo :: "CTransaction \<Rightarrow> utxo \<Rightarrow> CTxUndo" where
  "tx_undo tx u = (if IsCashBase tx then [] else map (\<lambda>txin. the (u (prevout txin))) (vin tx))"

text \<open>
  A transaction fits a set of unspent outputs: it spends outputs that are there, each of them once, and
  overwrites none.  An entry of the set is well formed if \<open>AddCash\<close> would have stored it and it records
  the height of its block.
\<close>

definition tx_fits :: "CTransaction \<Rightarrow> utxo \<Rightarrow> bool" where
  "tx_fits tx u \<longleftrightarrow>
     (IsCashBase tx \<or> distinct (map prevout (vin tx)) \<and> list_all (\<lambda>txin. u (prevout txin) \<noteq> None) (vin tx)) \<and>
     list_all (\<lambda>txout. nValue txout \<noteq> - 1) (vout tx) \<and> length (vout tx) \<le> 2 ^ 32 \<and>
     (\<forall>j<length (vout tx). u (out_at (tx_hash tx) j) = None)"

definition utxo_wf :: "utxo \<Rightarrow> bool" where
  "utxo_wf u \<longleftrightarrow> (\<forall>p x. u p = Some x \<longrightarrow>
     \<not> Cash_IsSpent x \<and> \<not> IsUnspendable (scriptPubKey (cash_out x)) \<and> cash_nHeight x \<noteq> 0)"

lemma utxo_wfD: "utxo_wf u \<Longrightarrow> u p = Some x \<Longrightarrow>
    \<not> Cash_IsSpent x \<and> \<not> IsUnspendable (scriptPubKey (cash_out x)) \<and> cash_nHeight x \<noteq> 0"
  by (simp add: utxo_wf_def)

lemma utxo_spend_simps [simp]: "utxo_spend [] u = u" "utxo_spend (t # ts) u = utxo_spend ts (u(prevout t := None))"
  by (auto simp: utxo_spend_def fun_eq_iff)

lemma utxo_add_other:
  assumes "\<forall>j<length outs. out_at txid (i + j) \<noteq> p"
  shows "utxo_add txid cb h i outs u p = u p"
  using assms
proof (induction outs arbitrary: i u)
  case (Cons t ts)
  have "out_at txid i \<noteq> p" using Cons.prems by (metis add_0_right length_greater_0_conv list.discI)
  moreover have "\<forall>j<length ts. out_at txid (Suc i + j) \<noteq> p"
    using Cons.prems by (metis Suc_less_eq add_Suc_shift length_Cons)
  ultimately show ?case using Cons.IH [of "Suc i"] by auto
qed simp

lemma utxo_add_upd:
  assumes "\<forall>j<length outs. out_at txid (i + j) \<noteq> p"
  shows "utxo_add txid cb h i outs (u(p := x)) = (utxo_add txid cb h i outs u)(p := x)"
  using assms
proof (induction outs arbitrary: i u)
  case (Cons t ts)
  have p: "out_at txid i \<noteq> p" using Cons.prems by (metis add_0_right length_greater_0_conv list.discI)
  have rest: "\<forall>j<length ts. out_at txid (Suc i + j) \<noteq> p"
    using Cons.prems by (metis Suc_less_eq add_Suc_shift length_Cons)
  let ?y = "Some (Cash_new t h cb)"
  have "(u(p := x))(out_at txid i := ?y) = (u(out_at txid i := ?y))(p := x)" using p by (rule fun_upd_twist [OF not_sym])
  then show ?case
    using Cons.IH [OF rest, of u] Cons.IH [OF rest, of "u(out_at txid i := ?y)"] 
    by (cases "IsUnspendable (scriptPubKey t)") (simp_all only: utxo_add.simps if_True if_False)
qed simp

lemma later_outputs: "i + length (t # ts) \<le> 2 ^ 32 \<Longrightarrow> \<forall>j<length ts. out_at txid (Suc i + j) \<noteq> out_at txid i"
  using out_at_inject [of _ i txid] by auto

lemma Cash_new_height: "0 \<le> h \<Longrightarrow> h < 2 ^ 31 \<Longrightarrow> int (cash_nHeight (Cash_new t h cb)) = h"
  by (simp add: Cash_new_def)

lemma Cash_new_fields [simp]: "cash_fCashBase (Cash_new t h cb) = cb"
  by (simp add: Cash_new_def)

lemma utxo_add_wf:
  assumes "utxo_wf u" "list_all (\<lambda>t. nValue t \<noteq> - 1) outs" "0 < h" "h < 2 ^ 31"
  shows "utxo_wf (utxo_add txid cb h i outs u)"
  using assms(1,2)
proof (induction outs arbitrary: i u)
  case (Cons t ts)
  have "cash_nHeight (Cash_new t h cb) \<noteq> 0" using Cash_new_height [of h t cb] assms(3,4) by linarith
  then have "utxo_wf (if IsUnspendable (scriptPubKey t) then u else u(out_at txid i \<mapsto> Cash_new t h cb))"
    using Cons.prems by (auto simp: utxo_wf_def)
  then show ?case using Cons.IH Cons.prems(2) by simp
qed simp

lemma tx_utxo_wf: "utxo_wf u \<Longrightarrow> tx_fits tx u \<Longrightarrow> 0 < h \<Longrightarrow> h < 2 ^ 31 \<Longrightarrow> utxo_wf (tx_utxo h tx u)"
  unfolding tx_utxo_def by (intro utxo_add_wf) (auto simp: utxo_wf_def utxo_spend_def tx_fits_def split: if_splits)

context cash_view
begin

lemma spend_inputs_spec:
  assumes "cinv c" "distinct (map prevout ins)" "list_all (\<lambda>t. cutxo c (prevout t) \<noteq> None) ins"
  shows "\<exists>c'. spend_inputs V ins c = Inr (map (\<lambda>t. the (cutxo c (prevout t))) ins, c') \<and> cinv c' \<and>
    cutxo c' = utxo_spend ins (cutxo c) \<and> cv_hashBlock c' = cv_hashBlock c"
  using assms
proof (induction ins arbitrary: c)
  case (Cons t ts)
  obtain r c1 where s: "SpendCash V (prevout t) c = (r, c1)" by force
  note spec = SpendCash_spec [OF Cons.prems(1) s]
  obtain x where x: "cutxo c (prevout t) = Some x" using Cons.prems(3) by auto
  then have r: "r = Some x" using spec by (auto simp: live_def split: option.splits if_splits)
  have u1: "cutxo c1 = (cutxo c)(prevout t := None)" using spec by blast
  have "list_all (\<lambda>t. cutxo c1 (prevout t) \<noteq> None) ts"
    using Cons.prems(2,3) unfolding u1 by (auto simp: list_all_iff image_iff)
  then obtain c2 where c2: "spend_inputs V ts c1 = Inr (map (\<lambda>t. the (cutxo c1 (prevout t))) ts, c2)" "cinv c2"
    "cutxo c2 = utxo_spend ts (cutxo c1)" "cv_hashBlock c2 = cv_hashBlock c1"
    using Cons.IH [of c1] spec Cons.prems(2) unfolding distinct.simps list.map by blast
  have "map (\<lambda>t. the (cutxo c1 (prevout t))) ts = map (\<lambda>t. the (cutxo c (prevout t))) ts"
    using Cons.prems(2) unfolding u1 by (auto simp: image_iff)
  then show ?case using s r x c2 spec by (auto simp: fun_upd_def)
qed simp

lemma UpdateCash_spec:
  assumes "cinv c" "tx_fits tx (cutxo c)"
  shows "\<exists>c'. UpdateCash V tx h c = Inr (tx_undo tx (cutxo c), c') \<and> cinv c' \<and> cutxo c' = tx_utxo h tx (cutxo c) \<and>
    cv_hashBlock c' = cv_hashBlock c"
proof -
  let ?u = "if IsCashBase tx then cutxo c else utxo_spend (vin tx) (cutxo c)"
  obtain c1 where c1: "(if \<not> IsCashBase tx then spend_inputs V (vin tx) c else Inr ([], c)) = Inr (tx_undo tx (cutxo c), c1)"
    "cinv c1" "cutxo c1 = ?u" "cv_hashBlock c1 = cv_hashBlock c"
  proof (cases "IsCashBase tx")
    case True
    then show ?thesis using that [of c] assms(1) by (simp add: tx_undo_def)
  next
    case False
    then obtain c1 where "spend_inputs V (vin tx) c = Inr (map (\<lambda>t. the (cutxo c (prevout t))) (vin tx), c1)" "cinv c1"
      "cutxo c1 = utxo_spend (vin tx) (cutxo c)" "cv_hashBlock c1 = cv_hashBlock c"
      using spend_inputs_spec [OF assms(1), of "vin tx"] assms(2) by (auto simp: tx_fits_def)
    then show ?thesis using that [of c1] False by (simp add: tx_undo_def)
  qed
  have "\<forall>j. j < length (vout tx) \<longrightarrow> cutxo c1 (out_at (tx_hash tx) j) = None"
    using assms(2) c1(3) by (auto simp: tx_fits_def utxo_spend_def)
  then obtain c2 where "AddCash_tx V tx h False c1 = Inr c2" "cinv c2" "cv_hashBlock c2 = cv_hashBlock c1"
    "cutxo c2 = utxo_add (tx_hash tx) (IsCashBase tx) h 0 (vout tx) (cutxo c1)"
    using AddCash_outputs_spec [OF c1(2), of "vout tx" 0 False "IsCashBase tx" "tx_hash tx" h] assms(2)
    by (auto simp: AddCash_tx_def tx_fits_def)
  then show ?thesis using c1 by (simp add: UpdateCash_def tx_utxo_def)
qed

lemma undo_outputs_spec:
  assumes "cinv c" "cutxo c = utxo_add txid cb h i outs u" "i + length outs \<le> 2 ^ 32"
    and "\<forall>j<length outs. u (out_at txid (i + j)) = None" "list_all (\<lambda>t. nValue t \<noteq> - 1) outs" "0 \<le> h" "h < 2 ^ 31"
  shows "\<exists>c'. undo_outputs V txid cb h i outs fClean c = (fClean, c') \<and> cinv c' \<and> cutxo c' = u"
  using assms(1-5)
proof (induction outs arbitrary: i u c)
  case (Cons t ts)
  have rest: "Suc i + length ts \<le> 2 ^ 32" "\<forall>j<length ts. u (out_at txid (Suc i + j)) = None"
    "list_all (\<lambda>t. nValue t \<noteq> - 1) ts"
    using Cons.prems(3-5) by (simp, metis Suc_less_eq add_Suc_shift length_Cons, simp)
  have ui: "u (out_at txid i) = None" using Cons.prems(4) by (metis add_0_right length_greater_0_conv list.discI)
  note later = later_outputs [OF Cons.prems(3), of txid]
  show ?case
  proof (cases "IsUnspendable (scriptPubKey t)")
    case True
    then show ?thesis using Cons.IH [OF Cons.prems(1) _ rest] Cons.prems(2) by simp
  next
    case False
    let ?p = "out_at txid i" and ?x = "Cash_new t h cb"
    have "cutxo c = utxo_add txid cb h (Suc i) ts (u(?p \<mapsto> ?x))" using Cons.prems(2) False by simp
    then have u: "cutxo c = (utxo_add txid cb h (Suc i) ts u)(?p \<mapsto> ?x)" unfolding utxo_add_upd [OF later] .
    obtain r c1 where s: "SpendCash V ?p c = (r, c1)" by force
    note spec = SpendCash_spec [OF Cons.prems(1) s]
    have "live ?x = Some ?x" using Cons.prems(5) by simp
    then have r: "r = Some ?x" using spec u by (auto simp: live_def split: option.splits if_splits)
    have "utxo_add txid cb h (Suc i) ts u ?p = None" using utxo_add_other [OF later, of cb h u] ui by simp
    then have "cutxo c1 = utxo_add txid cb h (Suc i) ts u" using spec u by (auto simp: fun_eq_iff)
    then obtain c2 where "undo_outputs V txid cb h (Suc i) ts fClean c1 = (fClean, c2)" "cinv c2" "cutxo c2 = u"
      using Cons.IH [of c1 "Suc i" u] spec rest by blast
    then show ?thesis using False s r Cash_new_height [OF assms(6,7), of t cb]
      by (simp add: out_at_def [symmetric])
  qed
qed simp

lemma ApplyTxInUndo_spec:
  assumes "cinv c" "cutxo c p = None" "\<not> Cash_IsSpent x" "\<not> IsUnspendable (scriptPubKey (cash_out x))" "cash_nHeight x \<noteq> 0"
  shows "\<exists>c'. ApplyTxInUndo V x p c = Inr (DISCONNECT_OK, c') \<and> cinv c' \<and> cutxo c' = (cutxo c)(p \<mapsto> x)"
proof -
  obtain have_it c1 where h: "HaveCash V p c = (have_it, c1)" by force
  note spec = HaveCash_spec [OF assms(1) h]
  then have n: "\<not> have_it" "cinv c1" "cutxo c1 = cutxo c" using assms(2) by auto
  obtain c2 where "AddCash p x False c1 = Inr c2" "cinv c2" "cutxo c2 = (cutxo c)(p \<mapsto> x)"
    using AddCash_spec [OF n(2) assms(3), of False p] n assms(2,4) by auto
  then show ?thesis using h n assms(5) by (simp add: ApplyTxInUndo_def)
qed

lemma undo_inputs_spec:
  assumes "cinv c" "utxo_wf u" "distinct (map prevout ins)"
    and "list_all (\<lambda>t. u (prevout t) \<noteq> None \<and> cutxo c (prevout t) = None) ins"
  shows "\<exists>c'. undo_inputs V (map (\<lambda>t. (t, the (u (prevout t)))) ins) fClean c = Inr (Some (fClean, c')) \<and> cinv c' \<and>
    cutxo c' = (\<lambda>p. if p \<in> prevout ` set ins then u p else cutxo c p)"
  using assms(1,3,4)
proof (induction ins arbitrary: c)
  case (Cons t ts)
  obtain x where x: "u (prevout t) = Some x" "cutxo c (prevout t) = None" using Cons.prems(3) by auto
  obtain c1 where c1: "ApplyTxInUndo V x (prevout t) c = Inr (DISCONNECT_OK, c1)" "cinv c1"
    "cutxo c1 = (cutxo c)(prevout t \<mapsto> x)"
    using ApplyTxInUndo_spec [OF Cons.prems(1) x(2)] utxo_wfD [OF assms(2) x(1)] by blast
  have "list_all (\<lambda>t. u (prevout t) \<noteq> None \<and> cutxo c1 (prevout t) = None) ts"
    using Cons.prems(2,3) unfolding c1(3) by (auto simp: list_all_iff image_iff)
  then obtain c2 where "undo_inputs V (map (\<lambda>t. (t, the (u (prevout t)))) ts) fClean c1 = Inr (Some (fClean, c2))"
    "cinv c2" "cutxo c2 = (\<lambda>p. if p \<in> prevout ` set ts then u p else cutxo c1 p)"
    using Cons.IH [OF c1(2)] Cons.prems(2) by auto
  then show ?case using c1 x by (auto simp: fun_eq_iff)
qed simp

lemma undo_tx_spec:
  assumes "cinv c" "cutxo c = tx_utxo h tx u" "tx_fits tx u" "utxo_wf u" "0 \<le> h" "h < 2 ^ 31"
  shows "\<exists>c'. undo_tx V h tx (if IsCashBase tx then None else Some (tx_undo tx u)) fClean c = Inr (Some (fClean, c')) \<and>
    cinv c' \<and> cutxo c' = u"
proof -
  let ?u = "if IsCashBase tx then u else utxo_spend (vin tx) u"
  have none: "\<forall>j<length (vout tx). ?u (out_at (tx_hash tx) (0 + j)) = None"
    using assms(3) by (auto simp: tx_fits_def utxo_spend_def)
  have "0 + length (vout tx) \<le> 2 ^ 32" "list_all (\<lambda>t. nValue t \<noteq> - 1) (vout tx)" using assms(3) by (auto simp: tx_fits_def)
  then obtain c1 where c1: "undo_outputs V (tx_hash tx) (IsCashBase tx) h 0 (vout tx) fClean c = (fClean, c1)"
    "cinv c1" "cutxo c1 = ?u"
    using undo_outputs_spec [OF assms(1) assms(2) [unfolded tx_utxo_def] _ none _ assms(5,6)] by blast
  show ?thesis
  proof (cases "IsCashBase tx")
    case True
    then show ?thesis using c1 by (simp add: undo_tx_def)
  next
    case False
    have f: "distinct (map prevout (rev (vin tx)))" "list_all (\<lambda>t. u (prevout t) \<noteq> None) (vin tx)"
      using assms(3) False by (auto simp: tx_fits_def rev_map [symmetric])
    have "list_all (\<lambda>t. u (prevout t) \<noteq> None \<and> cutxo c1 (prevout t) = None) (rev (vin tx))"
      using f(2) c1(3) False by (auto simp: list_all_iff utxo_spend_def)
    then obtain c2 where c2: "undo_inputs V (map (\<lambda>t. (t, the (u (prevout t)))) (rev (vin tx))) fClean c1 = Inr (Some (fClean, c2))"
      "cinv c2" "cutxo c2 = (\<lambda>p. if p \<in> prevout ` set (rev (vin tx)) then u p else cutxo c1 p)"
      using undo_inputs_spec [OF c1(2) assms(4) f(1)] by blast
    have z: "rev (zip (vin tx) (map (\<lambda>t. the (u (prevout t))) (vin tx))) = map (\<lambda>t. (t, the (u (prevout t)))) (rev (vin tx))"
      by (simp add: rev_map [symmetric] zip_map2 zip_same_conv_map)
    have "cutxo c2 = u" using c2(3) c1(3) False by (auto simp: utxo_spend_def fun_eq_iff)
    then show ?thesis using c1(1) c2(1,2) False z by (simp add: undo_tx_def tx_undo_def)
  qed
qed

end

subsection \<open>Blocks as functions on the set of unspent outputs\<close>

fun block_apply :: "int \<Rightarrow> CTransaction list \<Rightarrow> utxo \<Rightarrow> utxo" where
  "block_apply h [] u = u"
| "block_apply h (tx # txs) u = block_apply h txs (tx_utxo h tx u)"

fun block_undo :: "int \<Rightarrow> CTransaction list \<Rightarrow> utxo \<Rightarrow> CTxUndo list" where
  "block_undo h [] u = []"
| "block_undo h (tx # txs) u = tx_undo tx u # block_undo h txs (tx_utxo h tx u)"

fun block_fits :: "int \<Rightarrow> CTransaction list \<Rightarrow> utxo \<Rightarrow> bool" where
  "block_fits h [] u \<longleftrightarrow> True"
| "block_fits h (tx # txs) u \<longleftrightarrow> tx_fits tx u \<and> block_fits h txs (tx_utxo h tx u)"

definition undo_of :: "CTransaction \<Rightarrow> CTxUndo \<Rightarrow> CTxUndo option" where
  "undo_of tx undo = (if IsCashBase tx then None else Some undo)"

lemma length_block_undo [simp]: "length (block_undo h txs u) = length txs"
  by (induction txs arbitrary: u) auto

context cash_view
begin

lemma undo_txs_append:
  "undo_txs V h (xs @ ys) fClean c =
    err_bind (undo_txs V h xs fClean c) (\<lambda>r. case r of None \<Rightarrow> Inr None | Some (fClean, c) \<Rightarrow> undo_txs V h ys fClean c)"
proof (induction xs arbitrary: fClean c)
  case (Cons x xs)
  obtain tx undo where x: "x = (tx, undo)" by force
  show ?case using Cons by (cases "undo_tx V h tx undo fClean c") (auto simp: x split: option.splits)
qed simp

lemma undo_txs_spec:
  assumes "cinv c" "cutxo c = block_apply h txs u" "block_fits h txs u" "utxo_wf u" "0 < h" "h < 2 ^ 31"
  shows "\<exists>c'. undo_txs V h (rev (zip txs (map2 undo_of txs (block_undo h txs u)))) fClean c = Inr (Some (fClean, c')) \<and>
    cinv c' \<and> cutxo c' = u"
  using assms(1-4)
proof (induction txs arbitrary: u)
  case (Cons tx txs)
  let ?u1 = "tx_utxo h tx u"
  have f: "tx_fits tx u" "block_fits h txs ?u1" using Cons.prems(3) by auto
  obtain c1 where c1: "undo_txs V h (rev (zip txs (map2 undo_of txs (block_undo h txs ?u1)))) fClean c = Inr (Some (fClean, c1))"
    "cinv c1" "cutxo c1 = ?u1"
    using Cons.IH [OF Cons.prems(1), of ?u1] Cons.prems(2) f(2) tx_utxo_wf [OF Cons.prems(4) f(1) assms(5,6)] by auto
  obtain c2 where "undo_tx V h tx (undo_of tx (tx_undo tx u)) fClean c1 = Inr (Some (fClean, c2))" "cinv c2" "cutxo c2 = u"
    using undo_tx_spec [OF c1(2,3) f(1) Cons.prems(4) _ assms(6)] assms(5) by (auto simp: undo_of_def)
  then show ?case using c1 by (simp add: undo_txs_append)
qed simp

lemma DisconnectBlock_spec:
  assumes "cinv c" "cutxo c = block_apply (nHeight (st ! pindex)) (vtx block) u"
    and "block_fits (nHeight (st ! pindex)) (vtx block) u" "utxo_wf u"
    and "vtx block = cb # txs" "IsCashBase cb" "list_all (\<lambda>tx. \<not> IsCashBase tx) txs"
    and "0 < nHeight (st ! pindex)" "nHeight (st ! pindex) < 2 ^ 31" "pprev (st ! pindex) = Some q"
  shows "\<exists>c'. DisconnectBlock V st block pindex (Some (tl (block_undo (nHeight (st ! pindex)) (vtx block) u))) c =
    Inr (DISCONNECT_OK, c') \<and> cinv c' \<and> cutxo c' = u \<and> cv_hashBlock c' = GetBlockHash (st ! q)"
proof -
  let ?h = "nHeight (st ! pindex)" and ?undo = "block_undo (nHeight (st ! pindex)) (vtx block) u"
  obtain c1 where c1: "undo_txs V ?h (rev (zip (vtx block) (map2 undo_of (vtx block) ?undo))) True c = Inr (Some (True, c1))"
    "cinv c1" "cutxo c1 = u" using undo_txs_spec [OF assms(1-4,8,9)] by blast
  have m: "map2 undo_of txs us = map Some us" if "length us = length txs" "list_all (\<lambda>tx. \<not> IsCashBase tx) txs" for us
    using that by (induction us txs rule: list_induct2) (auto simp: undo_of_def)
  have "map2 undo_of (vtx block) ?undo = None # map Some (tl ?undo)"
    using assms(5-7) m [of "tl ?undo"] by (simp add: undo_of_def)
  moreover have "length (tl ?undo) + 1 = length (vtx block)" using assms(5) by simp
  ultimately have "DisconnectBlock V st block pindex (Some (tl ?undo)) c =
      Inr (DISCONNECT_OK, SetBestBlock (GetBlockHash (st ! q)) c1)"
    using c1(1) assms(10) by (simp add: DisconnectBlock_def)
  then show ?thesis using c1(2,3) by (simp add: SetBestBlock_def cache_inv_def cache_utxo_def)
qed

end

subsection \<open>The value of the unspent outputs\<close>

definition total_value :: "utxo \<Rightarrow> CAmount" where
  "total_value u = (\<Sum>p\<in>dom u. value_at u p)"

lemma total_value_None: "finite (dom u) \<Longrightarrow> u p = Some x \<Longrightarrow> total_value (u(p := None)) = total_value u - value_at u p"
proof -
  assume f: "finite (dom u)" and x: "u p = Some x"
  have "(\<Sum>q\<in>dom u - {p}. value_at (u(p := None)) q) = (\<Sum>q\<in>dom u - {p}. value_at u q)"
    by (rule sum.cong) (auto simp: value_at_def)
  moreover have "p \<in> dom u" using x by auto
  then have "total_value u = value_at u p + (\<Sum>q\<in>dom u - {p}. value_at u q)"
    unfolding total_value_def using f by (rule sum.remove [rotated])
  ultimately show ?thesis by (simp add: total_value_def)
qed

lemma total_value_Some: "finite (dom u) \<Longrightarrow> u p = None \<Longrightarrow> total_value (u(p \<mapsto> x)) = total_value u + nValue (cash_out x)"
proof -
  assume f: "finite (dom u)" and x: "u p = None"
  have "(\<Sum>q\<in>dom u. value_at (u(p \<mapsto> x)) q) = (\<Sum>q\<in>dom u. value_at u q)"
    using x by (intro sum.cong) (auto simp: value_at_def)
  moreover have "p \<notin> dom u" using x by auto
  ultimately show ?thesis using f by (simp add: total_value_def value_at_def)
qed

lemma total_value_spend:
  assumes "finite (dom u)" "distinct (map prevout ins)" "list_all (\<lambda>t. u (prevout t) \<noteq> None) ins"
  shows "total_value (utxo_spend ins u) = total_value u - inputs_value u ins \<and> finite (dom (utxo_spend ins u))"
  using assms
proof (induction ins arbitrary: u)
  case (Cons t ts)
  let ?u = "u(prevout t := None)"
  have "list_all (\<lambda>t. ?u (prevout t) \<noteq> None) ts" using Cons.prems(2,3) by (auto simp: list_all_iff image_iff)
  then have "total_value (utxo_spend ts ?u) = total_value ?u - inputs_value ?u ts \<and> finite (dom (utxo_spend ts ?u))"
    using Cons.prems(1,2) by (intro Cons.IH) (auto simp del: fun_upd_apply)
  moreover have "map (\<lambda>t. value_at ?u (prevout t)) ts = map (\<lambda>t. value_at u (prevout t)) ts"
    using Cons.prems(2) by (auto simp: value_at_def image_iff)
  then have "inputs_value ?u ts = inputs_value u ts" by (simp only: inputs_value_def)
  moreover obtain x where "u (prevout t) = Some x" using Cons.prems(3) by auto
  ultimately show ?case using total_value_None [OF Cons.prems(1)] by (simp add: inputs_value_def del: fun_upd_apply)
qed (simp add: inputs_value_def)

lemma total_value_add:
  assumes "finite (dom u)" "i + length outs \<le> 2 ^ 32" "\<forall>j<length outs. u (out_at txid (i + j)) = None"
    and "list_all (\<lambda>t. 0 \<le> nValue t) outs"
  shows "total_value (utxo_add txid cb h i outs u) \<le> total_value u + sum_list (map nValue outs) \<and>
    finite (dom (utxo_add txid cb h i outs u))"
  using assms
proof (induction outs arbitrary: i u)
  case (Cons t ts)
  let ?u = "if IsUnspendable (scriptPubKey t) then u else u(out_at txid i \<mapsto> Cash_new t h cb)"
  have ui: "u (out_at txid i) = None" using Cons.prems(3) by (metis add_0_right length_greater_0_conv list.discI)
  have rest: "\<forall>j<length ts. u (out_at txid (Suc i + j)) = None"
    using Cons.prems(3) by (metis Suc_less_eq add_Suc_shift length_Cons)
  have "\<forall>j<length ts. ?u (out_at txid (Suc i + j)) = None"
    using rest later_outputs [OF Cons.prems(2), of txid] by auto
  then have "total_value (utxo_add txid cb h (Suc i) ts ?u) \<le> total_value ?u + sum_list (map nValue ts) \<and>
      finite (dom (utxo_add txid cb h (Suc i) ts ?u))"
    using Cons.IH [of ?u "Suc i"] Cons.prems(1,2,4) by simp
  moreover have "total_value ?u \<le> total_value u + nValue t"
    using total_value_Some [OF Cons.prems(1) ui] Cons.prems(4) by simp
  ultimately show ?case by simp
qed simp

lemma total_value_tx:
  assumes "finite (dom u)" "tx_fits tx u" "list_all (\<lambda>t. 0 \<le> nValue t) (vout tx)"
  shows "total_value (tx_utxo h tx u) \<le> total_value u + sum_list (map nValue (vout tx)) -
      (if IsCashBase tx then 0 else inputs_value u (vin tx)) \<and> finite (dom (tx_utxo h tx u))"
proof -
  let ?u = "if IsCashBase tx then u else utxo_spend (vin tx) u"
  have u: "total_value ?u = total_value u - (if IsCashBase tx then 0 else inputs_value u (vin tx)) \<and> finite (dom ?u)"
    using total_value_spend [OF assms(1), of "vin tx"] assms(1,2) by (auto simp: tx_fits_def)
  have "\<forall>j<length (vout tx). ?u (out_at (tx_hash tx) (0 + j)) = None"
    using assms(2) by (auto simp: tx_fits_def utxo_spend_def)
  moreover have "0 + length (vout tx) \<le> 2 ^ 32" using assms(2) by (simp add: tx_fits_def)
  ultimately show ?thesis
    using total_value_add [of ?u 0 "vout tx" "tx_hash tx" "IsCashBase tx" h] u assms(3) by (simp add: tx_utxo_def)
qed

subsection \<open>The supply\<close>

lemma GetBlockSubsidy_period:
  assumes "nSubsidyHalvingInterval params = int i" "0 < i"
  shows "GetBlockSubsidy (int h) params = (if h div i \<ge> 64 then 0 else 5000000000 div 2 ^ (h div i))"
proof -
  have "int h sdiv int i = int (h div i)"
    using assms(2) by (simp add: signed_divide_int_def sgn_if zdiv_int)
  then show ?thesis by (simp add: GetBlockSubsidy_def assms(1) CASH_def drop_bit_eq_div)
qed

lemma subsidies_of_periods:
  assumes "nSubsidyHalvingInterval params = int i" "0 < i"
  shows "(\<Sum>h<k * i. GetBlockSubsidy (int h) params) = int i * (\<Sum>j<k. if j \<ge> 64 then 0 else 5000000000 div 2 ^ j)"
proof -
  have "(\<Sum>h\<in>{j * i..<j * i + i}. GetBlockSubsidy (int h) params) = int i * (if j \<ge> 64 then 0 else 5000000000 div 2 ^ j)" for j
  proof -
    have "h div i = j" if "h \<in> {j * i..<j * i + i}" for h
      using that assms(2) by (metis atLeastLessThan_iff add.commute div_nat_eqI mult.commute mult_Suc)
    then have "(\<Sum>h\<in>{j * i..<j * i + i}. GetBlockSubsidy (int h) params) =
        (\<Sum>h\<in>{j * i..<j * i + i}. if j \<ge> 64 then 0 else 5000000000 div 2 ^ j)"
      by (intro sum.cong) (auto simp: GetBlockSubsidy_period [OF assms])
    then show ?thesis by simp
  qed
  then show ?thesis by (simp add: sum.nat_group [symmetric] sum_distrib_left)
qed

lemma small_subsidy: "33 \<le> j \<Longrightarrow> 5000000000 div 2 ^ j = (0 :: int)"
proof -
  assume "33 \<le> j"
  then have "(2 :: int) ^ 33 \<le> 2 ^ j" by (rule power_increasing) simp
  then show ?thesis by (intro div_pos_pos_trivial) auto
qed

lemma subsidy_halvings: "33 \<le> k \<Longrightarrow> (\<Sum>j<k. if j \<ge> 64 then 0 else 5000000000 div 2 ^ j) = (9999999989 :: int)"
proof (induction k rule: nat_induct_at_least)
  case base
  show ?case by (simp add: numeral_eq_Suc lessThan_Suc)
next
  case (Suc k)
  then show ?case using small_subsidy [of k] by simp
qed

text \<open>
  C39: With a halving interval of i blocks, the subsidies of any number of blocks add up to at most 9999999989 i, and
  to exactly that from the 33rd halving on.  For the interval of the main network, 210000, this is 20999999.9769 CASH,
  above the 20000000 CASH of \<open>MAX_MONEY\<close>.
\<close>

theorem GetBlockSubsidy_supply:
  assumes "nSubsidyHalvingInterval params = int i" "0 < i"
  shows "(\<Sum>h<n. GetBlockSubsidy (int h) params) \<le> 9999999989 * int i \<and>
    (\<Sum>h<33 * i + n. GetBlockSubsidy (int h) params) = 9999999989 * int i \<and>
    (i = 210000 \<longrightarrow> MAX_MONEY < (\<Sum>h<33 * i + n. GetBlockSubsidy (int h) params))"
proof -
  have nonneg: "0 \<le> GetBlockSubsidy (int h) params" for h by (simp add: GetBlockSubsidy_period [OF assms] div_int_pos_iff)
  have at: "(\<Sum>h<k * i. GetBlockSubsidy (int h) params) = 9999999989 * int i" if "33 \<le> k" for k
    using subsidies_of_periods [OF assms, of k] subsidy_halvings [OF that] by simp
  have le: "(\<Sum>h<m. GetBlockSubsidy (int h) params) \<le> (\<Sum>h<k. GetBlockSubsidy (int h) params)" if "m \<le> k" for m k
    using that nonneg by (intro sum_mono2) auto
  have "n \<le> (33 + n) * i" "33 * i + n \<le> (33 + n) * i" using assms(2) by (auto simp: add_mult_distrib trans_le_add2)
  then have "(\<Sum>h<n. GetBlockSubsidy (int h) params) \<le> 9999999989 * int i"
    "(\<Sum>h<33 * i + n. GetBlockSubsidy (int h) params) \<le> 9999999989 * int i"
    "9999999989 * int i \<le> (\<Sum>h<33 * i + n. GetBlockSubsidy (int h) params)"
    using le [of n "(33 + n) * i"] le [of "33 * i + n" "(33 + n) * i"] le [of "33 * i" "33 * i + n"] at [of "33 + n"] at [of 33]
    by simp_all
  then show ?thesis by (auto simp: MAX_MONEY_def CASH_def)
qed

theorem GetBlockSubsidy_supply_witness:
  "nSubsidyHalvingInterval (consensus example_chainparams\<lparr>nSubsidyHalvingInterval := 210000\<rparr>) = 210000 \<and>
   MAX_MONEY < (\<Sum>h<6930000. GetBlockSubsidy (int h) (consensus example_chainparams\<lparr>nSubsidyHalvingInterval := 210000\<rparr>))"
  using GetBlockSubsidy_supply [of "consensus example_chainparams\<lparr>nSubsidyHalvingInterval := 210000\<rparr>" 210000 0] by simp

subsection \<open>An input spent twice\<close>








end
