(* ===== verification/SC_UndoFile.thy ===== *)
theory SC_UndoFile
  imports SC_Undo
begin

text \<open>
  The undo files (\<open>FindUndoPos\<close>, \<open>UndoWriteToDisk\<close>, \<open>UndoReadFromDisk\<close>, \<open>OpenDiskFile\<close> and
  \<open>WriteUndoDataForBlock\<close> of \<^verbatim>\<open>validation.cpp\<close>).  A file is its list of bytes; opening one to write creates it, and
  writing past the end fills the gap with zeros.  Whether the disk has room is an argument, and so are the operations
  on public keys that the compact form of a script uses; other failures of the file system are not modelled.
\<close>

subsection \<open>Files\<close>

type_synonym undo_files = "int \<Rightarrow> bytes option"

record undo_disk =
  rev_files :: undo_files
  nUndoSize :: "int \<Rightarrow> u32"
  setDirtyFileInfo :: "int set"
  fCheckForPruning :: bool

definition write_at :: "nat \<Rightarrow> bytes \<Rightarrow> bytes \<Rightarrow> bytes" where
  "write_at pos bs f = take pos (f @ replicate (pos - length f) 0) @ bs @ drop (pos + length bs) f"

definition OpenUndoFile :: "CDiskBlockPos \<Rightarrow> bool \<Rightarrow> undo_files \<Rightarrow> bytes option \<times> undo_files" where
  "OpenUndoFile pos fReadOnly files =
     (if CDiskBlockPos_IsNull pos then (None, files)
      else case files (dp_nFile pos) of
          Some f \<Rightarrow> (Some f, files)
        | None \<Rightarrow> if fReadOnly then (None, files) else (Some [], files(dp_nFile pos \<mapsto> [])))"

definition UNDOFILE_CHUNK_SIZE :: u32 where
  "UNDOFILE_CHUNK_SIZE = 0x100000"

definition FindUndoPos ::
  "bool \<Rightarrow> (u32 \<Rightarrow> bool) \<Rightarrow> int \<Rightarrow> u32 \<Rightarrow> undo_disk \<Rightarrow> val_error + CDiskBlockPos \<times> undo_disk" where
  "FindUndoPos fPruneMode CheckDiskSpace nFile nAddSize d =
     (let pos = \<lparr>dp_nFile = nFile, dp_nPos = nUndoSize d nFile\<rparr>;
          nNewSize = nUndoSize d nFile + nAddSize;
          d = d\<lparr>nUndoSize := (nUndoSize d)(nFile := nNewSize), setDirtyFileInfo := insert nFile (setDirtyFileInfo d)\<rparr>;
          nOldChunks = (dp_nPos pos + UNDOFILE_CHUNK_SIZE - 1) div UNDOFILE_CHUNK_SIZE;
          nNewChunks = (nNewSize + UNDOFILE_CHUNK_SIZE - 1) div UNDOFILE_CHUNK_SIZE in
      if nNewChunks > nOldChunks then
        let d = (if fPruneMode then d\<lparr>fCheckForPruning := True\<rparr> else d) in
        if CheckDiskSpace (nNewChunks * UNDOFILE_CHUNK_SIZE - dp_nPos pos) then
          (case OpenUndoFile pos False (rev_files d) of
             (None, files) \<Rightarrow> Inr (pos, d\<lparr>rev_files := files\<rparr>)
           | (Some f, files) \<Rightarrow>
               Inr (pos, d\<lparr>rev_files := files(nFile \<mapsto> f @ replicate (unat (nNewChunks * UNDOFILE_CHUNK_SIZE) - length f) 0)\<rparr>))
        else Inl (StateError ''out of disk space'')
      else Inr (pos, d))"

subsection \<open>Writing and reading\<close>

text \<open>\<open>None\<close> is the answer \<open>false\<close>; otherwise the position of the data in the file.\<close>

definition UndoWriteToDisk ::
  "(bytes \<Rightarrow> bool) \<Rightarrow> bytes \<Rightarrow> CBlockUndo \<Rightarrow> CDiskBlockPos \<Rightarrow> uint256 \<Rightarrow> undo_files \<Rightarrow>
    val_error + CDiskBlockPos option \<times> undo_files" where
  "UndoWriteToDisk fully_valid messageStart blockundo pos hashBlock files =
     (case OpenUndoFile pos False files of
        (None, files) \<Rightarrow> Inr (None, files)
      | (Some f, files) \<Rightarrow>
          (case Serialize_CBlockUndo fully_valid blockundo of
             None \<Rightarrow> Inl ValAssert
           | Some b \<Rightarrow>
               let header = messageStart @ ser_writedata32 (of_nat (length b));
                   fileOutPos = unat (dp_nPos pos) + length header in
               Inr (Some (pos\<lparr>dp_nPos := of_nat fileOutPos\<rparr>),
                    files(dp_nFile pos \<mapsto> write_at (unat (dp_nPos pos)) (header @ b @ SerializeHash [hashBlock, b]) f))))"

text \<open>The verifier hashes the bytes it passes on, which are those the reader takes.\<close>

definition UndoReadFromDisk ::
  "(bytes \<Rightarrow> bytes option) \<Rightarrow> block_store \<Rightarrow> pindex \<Rightarrow> undo_files \<Rightarrow> val_error + CBlockUndo option" where
  "UndoReadFromDisk decompress st pindex files =
     (let pos = GetUndoPos (st ! pindex) in
      if CDiskBlockPos_IsNull pos then Inr None
      else case fst (OpenUndoFile pos True files) of
          None \<Rightarrow> Inr None
        | Some f \<Rightarrow>
            (case pprev (st ! pindex) of
               None \<Rightarrow> Inl ValNull
             | Some q \<Rightarrow>
                 let s = drop (unat (dp_nPos pos)) f in
                 (case Unserialize_CBlockUndo decompress s of
                    Inl e \<Rightarrow> Inr None
                  | Inr (blockundo, r) \<Rightarrow>
                      (case stream_read 32 r of
                         Inl e \<Rightarrow> Inr None
                       | Inr (hashChecksum, _) \<Rightarrow>
                           if hashChecksum \<noteq> SerializeHash [GetBlockHash (st ! q), take (length s - length r) s] then Inr None
                           else Inr (Some blockundo)))))"

record undo_env =
  ue_fPruneMode :: bool
  ue_CheckDiskSpace :: "u32 \<Rightarrow> bool"
  ue_fully_valid :: "bytes \<Rightarrow> bool"
  ue_MessageStart :: bytes

definition WriteUndoDataForBlock ::
  "undo_env \<Rightarrow> CBlockUndo \<Rightarrow> pindex \<Rightarrow> block_index \<times> undo_disk \<Rightarrow> val_error + block_index \<times> undo_disk" where
  "WriteUndoDataForBlock env blockundo pindex = (\<lambda>(bx, d).
     if CDiskBlockPos_IsNull (GetUndoPos (blocks bx ! pindex)) then
       (case Serialize_CBlockUndo (ue_fully_valid env) blockundo of
          None \<Rightarrow> Inl ValAssert
        | Some b \<Rightarrow>
            err_bind (FindUndoPos (ue_fPruneMode env) (ue_CheckDiskSpace env) (bi_nFile (blocks bx ! pindex))
              (of_nat (length b) + 40) d) (\<lambda>(pos, d).
            case pprev (blocks bx ! pindex) of
              None \<Rightarrow> Inl ValNull
            | Some q \<Rightarrow>
                err_bind (UndoWriteToDisk (ue_fully_valid env) (ue_MessageStart env) blockundo pos
                  (GetBlockHash (blocks bx ! q)) (rev_files d)) (\<lambda>(r, files).
                case r of
                  None \<Rightarrow> Inl (StateError ''Failed to write undo data'')
                | Some pos \<Rightarrow>
                    Inr (bx\<lparr>blocks := (blocks bx)[pindex := (blocks bx ! pindex)\<lparr>nUndoPos := dp_nPos pos,
                               nStatus := nStatus (blocks bx ! pindex) OR BLOCK_HAVE_UNDO\<rparr>],
                            setDirtyBlockIndex := insert pindex (setDirtyBlockIndex bx)\<rparr>,
                         d\<lparr>rev_files := files\<rparr>))))
     else Inr (bx, d))"

subsection \<open>What is written is read back\<close>

lemma drop_write_at: "drop (pos + length h) (write_at pos (h @ b) f) = b @ drop (pos + length h + length b) f"
  by (simp add: write_at_def add.assoc)

lemma length_SerializeHash [simp]: "length (SerializeHash bs) = 32"
  by (simp add: SerializeHash_eq)

lemma OpenUndoFile_write:
  assumes "dp_nFile pos \<noteq> - 1"
  shows "\<exists>f files'. OpenUndoFile pos False files = (Some f, files')"
  using assms by (auto simp: OpenUndoFile_def CDiskBlockPos_IsNull_def split: option.split)

lemma UndoWriteToDisk_read:
  assumes "UndoWriteToDisk fv start blockundo pos hash files = Inr (Some pos', files')"
    and "pubkey_ops_ok fv dec" "size_ok blockundo" "list_all undo_ok blockundo" "length start = 4"
    and "unat (dp_nPos pos) + 8 < 2 ^ 32"
    and "GetUndoPos (st ! p) = pos'" "pprev (st ! p) = Some q" "GetBlockHash (st ! q) = hash"
  shows "UndoReadFromDisk dec st p files' = Inr (Some blockundo)"
proof -
  obtain b where b: "Serialize_CBlockUndo fv blockundo = Some b" "\<And>r. Unserialize_CBlockUndo dec (b @ r) = Inr (blockundo, r)"
    using CBlockUndo_roundtrip [OF assms(2-4)] by blast
  define header where "header = start @ ser_writedata32 (of_nat (length b))"
  define sum where "sum = SerializeHash [hash, b]"
  have len: "length header = 8" "length sum = 32" using assms(5) by (simp_all add: header_def sum_def ser_writedata32_def)
  obtain f files0 where o: "OpenUndoFile pos False files = (Some f, files0)"
    using assms(1) by (cases "OpenUndoFile pos False files"; cases "fst (OpenUndoFile pos False files)") (auto simp: UndoWriteToDisk_def)
  then have nf: "\<not> CDiskBlockPos_IsNull pos" by (auto simp: OpenUndoFile_def)
  have r: "pos' = pos\<lparr>dp_nPos := of_nat (unat (dp_nPos pos) + 8)\<rparr>"
    "files' = files0(dp_nFile pos \<mapsto> write_at (unat (dp_nPos pos)) (header @ b @ sum) f)"
    using assms(1) o b(1) len(1) by (auto simp: UndoWriteToDisk_def Let_def header_def [symmetric] sum_def [symmetric])
  have pos: "unat (dp_nPos pos') = unat (dp_nPos pos) + 8"
    unfolding r(1) using assms(6) by (simp add: unat_of_nat take_bit_nat_eq_self del: of_nat_add)
  have "\<not> CDiskBlockPos_IsNull pos'" "dp_nFile pos' = dp_nFile pos" using nf by (simp_all add: r(1) CDiskBlockPos_IsNull_def)
  then have read: "fst (OpenUndoFile pos' True files') = Some (write_at (unat (dp_nPos pos)) (header @ b @ sum) f)"
    by (simp add: OpenUndoFile_def r(2))
  define t where "t = drop (unat (dp_nPos pos) + 8 + length (b @ sum)) f"
  have s: "drop (unat (dp_nPos pos) + 8) (write_at (unat (dp_nPos pos)) (header @ b @ sum) f) = b @ sum @ t"
    using drop_write_at [of "unat (dp_nPos pos)" header "b @ sum" f] len(1) by (simp add: t_def add.assoc)
  have "stream_read 32 (sum @ t) = Inr (sum, t)" using len(2) by (simp add: stream_read_def)
  then show ?thesis
    using read s b(2) [of "sum @ t"] assms(7-9) \<open>\<not> CDiskBlockPos_IsNull pos'\<close>
    by (simp add: UndoReadFromDisk_def pos sum_def Let_def)
qed

lemma FindUndoPos_pos:
  assumes "FindUndoPos prune space nFile n d = Inr (pos, d')"
  shows "pos = \<lparr>dp_nFile = nFile, dp_nPos = nUndoSize d nFile\<rparr>"
  using assms by (auto simp: FindUndoPos_def Let_def split: if_splits option.splits prod.splits)

text \<open>Undo data is written once, and only the entry of the block changes.\<close>

lemma WriteUndoDataForBlock_index:
  assumes "WriteUndoDataForBlock env blockundo p (bx, d) = Inr (bx', d')"
  shows "\<exists>pos s. blocks bx' = (blocks bx)[p := (blocks bx ! p)\<lparr>nUndoPos := pos, nStatus := s\<rparr>] \<and>
    mapBlockIndex bx' = mapBlockIndex bx \<and> pindexBestHeader bx' = pindexBestHeader bx"
proof (cases "CDiskBlockPos_IsNull (GetUndoPos (blocks bx ! p))")
  case True
  then show ?thesis using assms
    by (fastforce simp: WriteUndoDataForBlock_def err_bind_Inr split: option.splits prod.splits)
next
  case False
  then have "bx' = bx" using assms by (simp add: WriteUndoDataForBlock_def)
  moreover have "blocks bx = (blocks bx)[p := (blocks bx ! p)\<lparr>nUndoPos := nUndoPos (blocks bx ! p), nStatus := nStatus (blocks bx ! p)\<rparr>]"
    by simp
  ultimately show ?thesis by blast
qed

lemma WriteUndoDataForBlock_read:
  assumes "WriteUndoDataForBlock env blockundo p (bx, d) = Inr (bx', d')"
    and "CDiskBlockPos_IsNull (GetUndoPos (blocks bx ! p))" "p < length (blocks bx)"
    and "pubkey_ops_ok (ue_fully_valid env) dec" "size_ok blockundo" "list_all undo_ok blockundo"
    and "length (ue_MessageStart env) = 4" "unat (nUndoSize d (bi_nFile (blocks bx ! p))) + 8 < 2 ^ 32"
    and "pprev (blocks bx ! p) = Some q" "q \<noteq> p"
  shows "UndoReadFromDisk dec (blocks bx') p (rev_files d') = Inr (Some blockundo)"
proof -
  let ?b = "blocks bx ! p"
  obtain b where b: "Serialize_CBlockUndo (ue_fully_valid env) blockundo = Some b"
    using CBlockUndo_roundtrip [OF assms(4-6)] by blast
  obtain pos d0 where f: "FindUndoPos (ue_fPruneMode env) (ue_CheckDiskSpace env) (bi_nFile ?b) (of_nat (length b) + 40) d =
      Inr (pos, d0)"
    using assms(1,2) b by (auto simp: WriteUndoDataForBlock_def err_bind_Inr)
  obtain pos' files where u: "UndoWriteToDisk (ue_fully_valid env) (ue_MessageStart env) blockundo pos
      (GetBlockHash (blocks bx ! q)) (rev_files d0) = Inr (Some pos', files)"
    using assms(1,2,9) b f by (auto simp: WriteUndoDataForBlock_def err_bind_Inr split: option.splits)
  note w = FindUndoPos_pos [OF f] u
  have w': "blocks bx' = (blocks bx)[p := ?b\<lparr>nUndoPos := dp_nPos pos', nStatus := nStatus ?b OR BLOCK_HAVE_UNDO\<rparr>]" "rev_files d' = files"
    using assms(1,2,9) b f u by (auto simp: WriteUndoDataForBlock_def)
  have "dp_nFile pos' = dp_nFile pos"
    using w(2) by (auto simp: UndoWriteToDisk_def Let_def split: option.splits prod.splits)
  moreover have "(nStatus ?b OR BLOCK_HAVE_UNDO) AND BLOCK_HAVE_UNDO = BLOCK_HAVE_UNDO"
    by (simp add: bit_eq_iff bit_simps)
  then have "(nStatus ?b OR BLOCK_HAVE_UNDO) AND BLOCK_HAVE_UNDO \<noteq> 0" by (simp add: BLOCK_HAVE_UNDO_def)
  ultimately have pos: "GetUndoPos (blocks bx' ! p) = pos'"
    using assms(3) w(1) by (simp add: w'(1) GetUndoPos_def)
  show ?thesis
    using UndoWriteToDisk_read [OF w(2) assms(4-7) _ pos, of q] assms(3,8-10) w(1) by (simp add: w')
qed

end
