(* ===== verification/SC_CheckInputs.thy ===== *)
theory SC_CheckInputs
  imports SC_Headers
begin

text \<open>
  The script checks of a transaction's inputs (\<open>CScriptCheck\<close> and \<open>CheckInputs\<close> of \<^verbatim>\<open>validation.cpp\<close>,
  \<open>ScriptErrorString\<close>, and the sets of flags of \<^verbatim>\<open>standard.h\<close> and \<^verbatim>\<open>policy.h\<close>).  The verification of an ECDSA
  signature through the signature cache and the test for a low S value are arguments, as they are for the
  script interpreter; the cache of script executions is a state with two operations.  With threads the checks are
  collected, and \<open>run_checks\<close> is the queue that runs them, in the order they were added.
\<close>

subsection \<open>Messages and flags\<close>

primrec ScriptErrorString :: "ScriptError \<Rightarrow> string" where
  "ScriptErrorString SCRIPT_ERR_OK = ''No error''"
| "ScriptErrorString SCRIPT_ERR_EVAL_FALSE = ''Script evaluated without error but finished with a false/empty top stack element''"
| "ScriptErrorString SCRIPT_ERR_VERIFY = ''Script failed an OP_VERIFY operation''"
| "ScriptErrorString SCRIPT_ERR_EQUALVERIFY = ''Script failed an OP_EQUALVERIFY operation''"
| "ScriptErrorString SCRIPT_ERR_CHECKMULTISIGVERIFY = ''Script failed an OP_CHECKMULTISIGVERIFY operation''"
| "ScriptErrorString SCRIPT_ERR_CHECKSIGVERIFY = ''Script failed an OP_CHECKSIGVERIFY operation''"
| "ScriptErrorString SCRIPT_ERR_NUMEQUALVERIFY = ''Script failed an OP_NUMEQUALVERIFY operation''"
| "ScriptErrorString SCRIPT_ERR_SCRIPT_SIZE = ''Script is too big''"
| "ScriptErrorString SCRIPT_ERR_PUSH_SIZE = ''Push value size limit exceeded''"
| "ScriptErrorString SCRIPT_ERR_OP_COUNT = ''Operation limit exceeded''"
| "ScriptErrorString SCRIPT_ERR_STACK_SIZE = ''Stack size limit exceeded''"
| "ScriptErrorString SCRIPT_ERR_SIG_COUNT = ''Signature count negative or greater than pubkey count''"
| "ScriptErrorString SCRIPT_ERR_PUBKEY_COUNT = ''Pubkey count negative or limit exceeded''"
| "ScriptErrorString SCRIPT_ERR_BAD_OPCODE = ''Opcode missing or not understood''"
| "ScriptErrorString SCRIPT_ERR_DISABLED_OPCODE = ''Attempted to use a disabled opcode''"
| "ScriptErrorString SCRIPT_ERR_INVALID_STACK_OPERATION = ''Operation not valid with the current stack size''"
| "ScriptErrorString SCRIPT_ERR_INVALID_ALTSTACK_OPERATION = ''Operation not valid with the current altstack size''"
| "ScriptErrorString SCRIPT_ERR_OP_RETURN = ''OP_RETURN was encountered''"
| "ScriptErrorString SCRIPT_ERR_UNBALANCED_CONDITIONAL = ''Invalid OP_IF construction''"
| "ScriptErrorString SCRIPT_ERR_NEGATIVE_LOCKTIME = ''Negative locktime''"
| "ScriptErrorString SCRIPT_ERR_UNSATISFIED_LOCKTIME = ''Locktime requirement not satisfied''"
| "ScriptErrorString SCRIPT_ERR_SIG_HASHTYPE = ''Signature hash type missing or not understood''"
| "ScriptErrorString SCRIPT_ERR_SIG_DER = ''Non-canonical DER signature''"
| "ScriptErrorString SCRIPT_ERR_MINIMALDATA = ''Data push larger than necessary''"
| "ScriptErrorString SCRIPT_ERR_SIG_PUSHONLY = ''Only non-push operators allowed in signatures''"
| "ScriptErrorString SCRIPT_ERR_SIG_HIGH_S = ''Non-canonical signature: S value is unnecessarily high''"
| "ScriptErrorString SCRIPT_ERR_SIG_NULLDUMMY = ''Dummy CHECKMULTISIG argument must be zero''"
| "ScriptErrorString SCRIPT_ERR_MINIMALIF = ''OP_IF/NOTIF argument must be minimal''"
| "ScriptErrorString SCRIPT_ERR_SIG_NULLFAIL = ''Signature must be zero for failed CHECK(MULTI)SIG operation''"
| "ScriptErrorString SCRIPT_ERR_DISCOURAGE_UPGRADABLE_NOPS = ''NOPx reserved for soft-fork upgrades''"
| "ScriptErrorString SCRIPT_ERR_DISCOURAGE_UPGRADABLE_WITNESS_PROGRAM = ''Witness version reserved for soft-fork upgrades''"
| "ScriptErrorString SCRIPT_ERR_PUBKEYTYPE = ''Public key is neither compressed or uncompressed''"
| "ScriptErrorString SCRIPT_ERR_CLEANSTACK = ''Extra items left on stack after execution''"
| "ScriptErrorString SCRIPT_ERR_WITNESS_PROGRAM_WRONG_LENGTH = ''Witness program has incorrect length''"
| "ScriptErrorString SCRIPT_ERR_WITNESS_PROGRAM_WITNESS_EMPTY = ''Witness program was passed an empty witness''"
| "ScriptErrorString SCRIPT_ERR_WITNESS_PROGRAM_MISMATCH = ''Witness program hash mismatch''"
| "ScriptErrorString SCRIPT_ERR_WITNESS_MALLEATED = ''Witness requires empty scriptSig''"
| "ScriptErrorString SCRIPT_ERR_WITNESS_MALLEATED_P2SH = ''Witness requires only-redeemscript scriptSig''"
| "ScriptErrorString SCRIPT_ERR_WITNESS_UNEXPECTED = ''Witness provided for non-witness script''"
| "ScriptErrorString SCRIPT_ERR_WITNESS_PUBKEYTYPE = ''Using non-compressed keys in segwit''"
| "ScriptErrorString SCRIPT_ERR_UNKNOWN_ERROR = ''unknown error''"

definition MANDATORY_SCRIPT_VERIFY_FLAGS :: u32 where
  "MANDATORY_SCRIPT_VERIFY_FLAGS = SCRIPT_VERIFY_P2SH"

definition STANDARD_SCRIPT_VERIFY_FLAGS :: u32 where
  "STANDARD_SCRIPT_VERIFY_FLAGS = MANDATORY_SCRIPT_VERIFY_FLAGS OR
     SCRIPT_VERIFY_DERSIG OR
     SCRIPT_VERIFY_STRICTENC OR
     SCRIPT_VERIFY_MINIMALDATA OR
     SCRIPT_VERIFY_NULLDUMMY OR
     SCRIPT_VERIFY_DISCOURAGE_UPGRADABLE_NOPS OR
     SCRIPT_VERIFY_CLEANSTACK OR
     SCRIPT_VERIFY_MINIMALIF OR
     SCRIPT_VERIFY_NULLFAIL OR
     SCRIPT_VERIFY_CHECKLOCKTIMEVERIFY OR
     SCRIPT_VERIFY_CHECKSEQUENCEVERIFY OR
     SCRIPT_VERIFY_LOW_S OR
     SCRIPT_VERIFY_WITNESS OR
     SCRIPT_VERIFY_DISCOURAGE_UPGRADABLE_WITNESS_PROGRAM OR
     SCRIPT_VERIFY_WITNESS_PUBKEYTYPE"

definition STANDARD_NOT_MANDATORY_VERIFY_FLAGS :: u32 where
  "STANDARD_NOT_MANDATORY_VERIFY_FLAGS = STANDARD_SCRIPT_VERIFY_FLAGS AND NOT MANDATORY_SCRIPT_VERIFY_FLAGS"

subsection \<open>Checks\<close>

record CScriptCheck =
  m_tx_out :: CTxOut
  ptxTo :: CTransaction
  sc_nIn :: nat
  sc_nFlags :: u32
  cacheStore :: bool
  sc_txdata :: PrecomputedTransactionData

record sig_env =
  VerifySignature :: "bool \<Rightarrow> bytes \<Rightarrow> uint256 \<Rightarrow> bytes \<Rightarrow> bool"
  IsLowS :: "bytes \<Rightarrow> bool"

definition CScriptCheck_run :: "sig_env \<Rightarrow> CScriptCheck \<Rightarrow> unit verify" where
  "CScriptCheck_run env check =
     VerifyScript
       (TransactionSignatureChecker (VerifySignature env (cacheStore check)) (IsLowS env) (ptxTo check) (sc_nIn check)
         (nValue (m_tx_out check)) (Some (sc_txdata check)))
       (sc_nFlags check) (scriptSig (vin (ptxTo check) ! sc_nIn check)) (scriptPubKey (m_tx_out check))
       (scriptWitness (vin (ptxTo check) ! sc_nIn check))"

text \<open>The queue: \<open>Wait\<close> answers whether all checks pass, and none is run after one has failed.\<close>

fun run_checks :: "sig_env \<Rightarrow> CScriptCheck list \<Rightarrow> val_error + bool" where
  "run_checks env [] = Inr True"
| "run_checks env (check # checks) =
     (case CScriptCheck_run env check of
        Inr _ \<Rightarrow> run_checks env checks
      | Inl (ScriptFails e) \<Rightarrow> Inr False
      | Inl verify_failure.AssertFails \<Rightarrow> Inl ValAssert)"

definition script_failure :: "sig_env \<Rightarrow> CScriptCheck \<Rightarrow> ScriptError \<Rightarrow> val_error" where
  "script_failure env check e =
     (let mandatory = DoS 100 REJECT_INVALID (''mandatory-script-verify-flag-failed ('' @ ScriptErrorString e @ '')'') False in
      if sc_nFlags check AND STANDARD_NOT_MANDATORY_VERIFY_FLAGS \<noteq> 0 then
        (case CScriptCheck_run env
                (check\<lparr>sc_nFlags := sc_nFlags check AND NOT STANDARD_NOT_MANDATORY_VERIFY_FLAGS\<rparr>) of
           Inr _ \<Rightarrow> Invalid REJECT_NONSTANDARD (''non-mandatory-script-verify-flag ('' @ ScriptErrorString e @ '')'')
         | Inl (ScriptFails _) \<Rightarrow> mandatory
         | Inl verify_failure.AssertFails \<Rightarrow> ValAssert)
      else mandatory)"

fun check_scripts ::
  "sig_env \<Rightarrow> 'v CCashView \<Rightarrow> bool \<Rightarrow> (nat \<Rightarrow> CTxOut \<Rightarrow> CScriptCheck) \<Rightarrow> nat \<Rightarrow> CTxIn list \<Rightarrow> CScriptCheck list \<Rightarrow>
    'v CCashViewCache \<Rightarrow> val_error + CScriptCheck list \<times> 'v CCashViewCache" where
  "check_scripts env V threads mk i [] vChecks c = Inr (vChecks, c)"
| "check_scripts env V threads mk i (txin # ins) vChecks c =
     (let (cash, c) = AccessCash V (prevout txin) c; check = mk i (cash_out cash) in
      if Cash_IsSpent cash then Inl ValAssert
      else if threads then check_scripts env V threads mk (Suc i) ins (vChecks @ [check]) c
      else case CScriptCheck_run env check of
          Inr _ \<Rightarrow> check_scripts env V threads mk (Suc i) ins vChecks c
        | Inl (ScriptFails e) \<Rightarrow> Inl (script_failure env check e)
        | Inl verify_failure.AssertFails \<Rightarrow> Inl ValAssert)"

record 'x script_cache =
  cache_contains :: "'x \<Rightarrow> uint256 \<Rightarrow> bool \<Rightarrow> bool \<times> 'x"
  cache_insert :: "'x \<Rightarrow> uint256 \<Rightarrow> 'x"
  scriptExecutionCacheNonce :: uint256

definition hashCacheEntry :: "uint256 \<Rightarrow> CTransaction \<Rightarrow> u32 \<Rightarrow> uint256" where
  "hashCacheEntry nonce tx flags =
     CSHA256_Finalize (CSHA256_Write (WriteLE32 flags) (CSHA256_Write (GetWitnessHash tx)
       (CSHA256_Write (take (55 - 4 - 32) nonce) CSHA256_new)))"

definition CheckInputs ::
  "sig_env \<Rightarrow> 'x script_cache \<Rightarrow> 'v CCashView \<Rightarrow> CTransaction \<Rightarrow> bool \<Rightarrow> u32 \<Rightarrow> bool \<Rightarrow> bool \<Rightarrow> PrecomputedTransactionData \<Rightarrow>
    bool \<Rightarrow> 'x \<Rightarrow> 'v CCashViewCache \<Rightarrow> val_error + CScriptCheck list \<times> 'x \<times> 'v CCashViewCache" where
  "CheckInputs env sc V tx fScriptChecks flags cacheSigStore cacheFullScriptStore txdata threads x inputs =
     (if IsCashBase tx \<or> \<not> fScriptChecks then Inr ([], x, inputs)
      else let entry = hashCacheEntry (scriptExecutionCacheNonce sc) tx flags;
               (found, x) = cache_contains sc x entry (\<not> cacheFullScriptStore) in
        if found then Inr ([], x, inputs)
        else err_bind (check_scripts env V threads
            (\<lambda>i txout. \<lparr>m_tx_out = txout, ptxTo = tx, sc_nIn = i, sc_nFlags = flags, cacheStore = cacheSigStore, sc_txdata = txdata\<rparr>)
            0 (vin tx) [] inputs) (\<lambda>(vChecks, c).
          Inr (vChecks, if cacheFullScriptStore \<and> \<not> threads then cache_insert sc x entry else x, c)))"

subsection \<open>What the checks establish\<close>

lemma run_checks_True: "run_checks env checks = Inr True \<longleftrightarrow> list_all (\<lambda>check. CScriptCheck_run env check = Inr ()) checks"
  by (induction checks) (auto split: sum.splits verify_failure.splits)

lemma run_checks_Cons:
  "run_checks env (check # checks) = Inr True \<longleftrightarrow> CScriptCheck_run env check = Inr () \<and> run_checks env checks = Inr True"
  by (auto split: sum.splits verify_failure.splits)

text \<open>The check of input \<open>i\<close> against the set of unspent outputs.\<close>

definition script_ok :: "sig_env \<Rightarrow> CTransaction \<Rightarrow> u32 \<Rightarrow> bool \<Rightarrow> utxo \<Rightarrow> nat \<Rightarrow> bool" where
  "script_ok env tx flags store u i \<longleftrightarrow>
     (case u (prevout (vin tx ! i)) of
        None \<Rightarrow> False
      | Some x \<Rightarrow> CScriptCheck_run env \<lparr>m_tx_out = cash_out x, ptxTo = tx, sc_nIn = i, sc_nFlags = flags, cacheStore = store,
          sc_txdata = PrecomputedTransactionData_of tx\<rparr> = Inr ())"

context cash_view
begin

lemma check_scripts_view:
  assumes "cinv c" "check_scripts env V threads mk i ins vChecks c = Inr (cs, c')"
  shows "cinv c' \<and> cutxo c' = cutxo c"
  using assms
proof (induction ins arbitrary: i vChecks c)
  case (Cons t ts)
  obtain x c1 where a: "AccessCash V (prevout t) c = (x, c1)" by force
  have c1: "cinv c1" "cutxo c1 = cutxo c" using AccessCash_spec [OF Cons.prems(1) a] by auto
  have "\<exists>i vChecks. check_scripts env V threads mk i ts vChecks c1 = Inr (cs, c')"
    using Cons.prems(2) a by (auto simp: Let_def split: if_splits sum.splits verify_failure.splits)
  then show ?case using Cons.IH [OF c1(1)] c1(2) by auto
qed auto

lemma check_scripts_prefix:
  "check_scripts env V threads mk i ins vChecks c = Inr (r, c') \<Longrightarrow> \<exists>cs. r = vChecks @ cs"
  by (induction ins arbitrary: i vChecks c)
    (fastforce simp: Let_def split: prod.splits if_splits sum.splits verify_failure.splits)+

lemma check_scripts_spec:
  assumes "cinv c" "\<And>i txout. mk i txout = \<lparr>m_tx_out = txout, ptxTo = tx, sc_nIn = i, sc_nFlags = flags, cacheStore = store,
      sc_txdata = PrecomputedTransactionData_of tx\<rparr>"
    and "drop i (vin tx) = ins"
  shows "(\<exists>cs c'. check_scripts env V threads mk i ins vChecks c = Inr (vChecks @ cs, c') \<and> run_checks env cs = Inr True) \<longleftrightarrow>
    (\<forall>j\<in>{i..<length (vin tx)}. script_ok env tx flags store (cutxo c) j)"
  using assms(1,3)
proof (induction ins arbitrary: i vChecks c)
  case (Cons t ts)
  obtain x c1 where a: "AccessCash V (prevout t) c = (x, c1)" by force
  have c1: "cinv c1" "cutxo c1 = cutxo c" "live x = cutxo c (prevout t)" using AccessCash_spec [OF Cons.prems(1) a] by auto
  have i: "i < length (vin tx)" "vin tx ! i = t" "drop (Suc i) (vin tx) = ts"
    using Cons.prems(2) by (metis drop_eq_Nil linorder_not_le list.discI, metis nth_via_drop, metis drop_Suc list.sel(3) tl_drop)
  let ?ok = "\<lambda>i. script_ok env tx flags store (cutxo c) i" and ?check = "mk i (cash_out x)"
  have range: "(\<forall>j\<in>{i..<length (vin tx)}. ?ok j) \<longleftrightarrow> ?ok i \<and> (\<forall>j\<in>{Suc i..<length (vin tx)}. ?ok j)"
    using i(1) by (metis atLeastLessThan_iff le_less Suc_le_eq order_refl)
  have ok: "?ok i \<longleftrightarrow> \<not> Cash_IsSpent x \<and> CScriptCheck_run env ?check = Inr ()"
    by (simp add: script_ok_def i(2) assms(2) c1(3) [symmetric] live_def)
  note IH = Cons.IH [OF c1(1) i(3)]
  show ?case
  proof (cases "threads")
    case True
    have "(\<exists>cs c'. check_scripts env V threads mk i (t # ts) vChecks c = Inr (vChecks @ cs, c') \<and> run_checks env cs = Inr True) \<longleftrightarrow>
        \<not> Cash_IsSpent x \<and> CScriptCheck_run env ?check = Inr () \<and> (\<exists>cs c'. check_scripts env V threads mk (Suc i) ts
          (vChecks @ [?check]) c1 = Inr ((vChecks @ [?check]) @ cs, c') \<and> run_checks env cs = Inr True)" (is "_ = ?rest")
    proof
      assume ?rest
      then obtain cs c' where "\<not> Cash_IsSpent x" "run_checks env (?check # cs) = Inr True"
        "check_scripts env V threads mk (Suc i) ts (vChecks @ [?check]) c1 = Inr (vChecks @ ?check # cs, c')"
        by (auto simp: run_checks_Cons)
      then show "\<exists>cs c'. check_scripts env V threads mk i (t # ts) vChecks c = Inr (vChecks @ cs, c') \<and> run_checks env cs = Inr True"
        using a True by (intro exI [of _ "?check # cs"] exI [of _ c']) (simp add: Let_def)
    qed (use a True check_scripts_prefix [of env threads mk "Suc i" ts "vChecks @ [?check]" c1] in
        \<open>fastforce simp: Let_def run_checks_True split: if_splits\<close>)
    then show ?thesis using IH [of "vChecks @ [?check]"] unfolding range ok c1(2) by simp
  next
    case False
    then have "(\<exists>cs c'. check_scripts env V threads mk i (t # ts) vChecks c = Inr (vChecks @ cs, c') \<and> run_checks env cs = Inr True) \<longleftrightarrow>
        \<not> Cash_IsSpent x \<and> CScriptCheck_run env ?check = Inr () \<and>
        (\<exists>cs c'. check_scripts env V threads mk (Suc i) ts vChecks c1 = Inr (vChecks @ cs, c') \<and> run_checks env cs = Inr True)"
      using a by (auto simp: Let_def split: sum.split verify_failure.split)
    then show ?thesis using IH [of vChecks] unfolding range ok c1(2) by simp
  qed
qed (auto simp: assms)

end

text \<open>
  C36: Unless the cache of script executions has the transaction, \<open>CheckInputs\<close> accepts exactly when every input is
  unspent and its script verifies under the flags, whether the scripts are run at once or collected and run by the queue.
  The set of unspent outputs stays as it was.
\<close>

theorem CheckInputs_exact:
  assumes "block_inv c" "\<not> IsCashBase tx"
    and "\<not> fst (cache_contains sc x (hashCacheEntry (scriptExecutionCacheNonce sc) tx flags) (\<not> cacheFullScriptStore))"
  shows "(\<exists>checks x' c'. CheckInputs env sc (tip_view full) tx True flags store cacheFullScriptStore
        (PrecomputedTransactionData_of tx) threads x c = Inr (checks, x', c') \<and> run_checks env checks = Inr True \<and>
        block_inv c' \<and> block_utxo c' = block_utxo c) \<longleftrightarrow>
    (\<forall>i<length (vin tx). script_ok env tx flags store (block_utxo c) i)"
proof -
  let ?mk = "\<lambda>i txout. \<lparr>m_tx_out = txout, ptxTo = tx, sc_nIn = i, sc_nFlags = flags, cacheStore = store,
    sc_txdata = PrecomputedTransactionData_of tx\<rparr>"
  let ?run = "check_scripts env (tip_view full) threads ?mk 0 (vin tx) [] c"
  have "(\<exists>checks x' c'. CheckInputs env sc (tip_view full) tx True flags store cacheFullScriptStore
        (PrecomputedTransactionData_of tx) threads x c = Inr (checks, x', c') \<and> run_checks env checks = Inr True \<and>
        block_inv c' \<and> block_utxo c' = block_utxo c) \<longleftrightarrow>
      (\<exists>checks c'. ?run = Inr (checks, c') \<and> run_checks env checks = Inr True)"
    using assms(2,3) tip.check_scripts_view [OF assms(1), of env full threads ?mk 0 "vin tx" "[]"]
    by (auto simp: CheckInputs_def err_bind_Inr Let_def split: prod.split)
  also have "\<dots> \<longleftrightarrow> (\<forall>i<length (vin tx). script_ok env tx flags store (block_utxo c) i)"
    using tip.check_scripts_spec [OF assms(1), of ?mk tx flags store 0 "vin tx" env full threads "[]"] by (simp add: Ball_def)
  finally show ?thesis .
qed

lemma example_script: "VerifyScript ck 0 [] [OP_1] [] = Inr ()"
  by code_simp

definition no_script_cache :: "unit script_cache" where
  "no_script_cache = \<lparr>cache_contains = (\<lambda>x entry erase. (False, x)), cache_insert = (\<lambda>x entry. x),
     scriptExecutionCacheNonce = uint256_null\<rparr>"

definition example_sigs :: sig_env where
  "example_sigs = \<lparr>VerifySignature = (\<lambda>store pubkey sighash sig. True), IsLowS = (\<lambda>sig. True)\<rparr>"

theorem CheckInputs_exact_witness:
  "block_inv example_view \<and> \<not> IsCashBase (CTransaction_of example_spend) \<and>
   (\<exists>checks x c. CheckInputs example_sigs no_script_cache (tip_view (\<lambda>_. False)) (CTransaction_of example_spend) True 0 False False
      (PrecomputedTransactionData_of (CTransaction_of example_spend)) True () example_view = Inr (checks, x, c) \<and>
    run_checks example_sigs checks = Inr True)"
proof -
  let ?tx = "CTransaction_of example_spend"
  have tx: "vin ?tx = vin example_spend" "length (vin example_spend) = 1"
    by (simp_all add: CTransaction_of_def CMutableTransaction.defs CTransaction.defs example_spend_def)
  have cb: "\<not> IsCashBase ?tx" unfolding IsCashBase_def tx(1) by (simp add: example_spend_def COutPoint_IsNull_def out_at_def)
  have "script_ok example_sigs ?tx 0 False (block_utxo example_view) 0"
    unfolding script_ok_def CScriptCheck_run_def CScriptCheck.simps tx(1) example_view_utxo
    by (simp add: example_spend_def example_cash_def example_script)
  then show ?thesis
    using CheckInputs_exact [OF example_view_inv cb, of no_script_cache "()" 0 False example_sigs "\<lambda>_. False" False True]
      example_view_inv cb tx by (auto simp: no_script_cache_def)
qed

end
