(* ===== verification/SC_Connect.thy ===== *)
theory SC_Connect
  imports SC_UndoFile SC_CheckInputs
begin

text \<open>
  Connecting a block (\<open>ConnectBlock\<close> of \<^verbatim>\<open>validation.cpp\<close> with \<open>ComputeBlockVersion\<close>, \<open>GetBlockScriptFlags\<close> and
  \<open>WriteTxIndexDataForBlock\<close>).  The state is the block index, the caches of version bits and of script
  executions, the undo files and the index of transactions; with an error the state is dropped, as the callers drop the
  view.  A result \<open>None\<close> means that a loop over the version bits does not return.
\<close>

subsection \<open>Sequencing\<close>

definition obind :: "('e + 'a) option \<Rightarrow> ('a \<Rightarrow> ('e + 'b) option) \<Rightarrow> ('e + 'b) option" where
  "obind m f = (case m of None \<Rightarrow> None | Some (Inl e) \<Rightarrow> Some (Inl e) | Some (Inr x) \<Rightarrow> f x)"

lemma obind_simps [simp]:
  "obind None f = None" "obind (Some (Inl e)) f = Some (Inl e)" "obind (Some (Inr x)) f = f x"
  by (simp_all add: obind_def)

lemma obind_Inr: "obind m f = Some (Inr y) \<longleftrightarrow> (\<exists>x. m = Some (Inr x) \<and> f x = Some (Inr y))"
  by (auto simp: obind_def split: option.splits sum.splits)

lemma obind_cong [fundef_cong]:
  "m = m' \<Longrightarrow> (\<And>x. m' = Some (Inr x) \<Longrightarrow> f x = f' x) \<Longrightarrow> obind m f = obind m' f'"
  by (auto simp: obind_def split: option.splits sum.splits)

subsection \<open>Flags and versions\<close>

definition deployment_list :: "DeploymentPos list" where
  "deployment_list = [DEPLOYMENT_TESTDUMMY, DEPLOYMENT_CSV, DEPLOYMENT_SEGWIT]"

fun block_version_loop ::
  "block_store \<Rightarrow> pindex option \<Rightarrow> ConsensusParams \<Rightarrow> DeploymentPos list \<Rightarrow> u32 \<Rightarrow> VersionBitsCache \<Rightarrow>
    (val_error + u32 \<times> VersionBitsCache) option" where
  "block_version_loop st pindexPrev params [] v vbc = Some (Inr (v, vbc))"
| "block_version_loop st pindexPrev params (pos # ps) v vbc =
     obind (VersionBitsState st pindexPrev params pos vbc) (\<lambda>(state, vbc).
       block_version_loop st pindexPrev params ps
         (if state = THRESHOLD_LOCKED_IN \<or> state = THRESHOLD_STARTED then v OR VersionBitsMask params pos else v) vbc)"

definition ComputeBlockVersion ::
  "block_store \<Rightarrow> pindex option \<Rightarrow> ConsensusParams \<Rightarrow> VersionBitsCache \<Rightarrow> (val_error + int \<times> VersionBitsCache) option" where
  "ComputeBlockVersion st pindexPrev params vbc =
     obind (block_version_loop st pindexPrev params deployment_list VERSIONBITS_TOP_BITS vbc)
       (\<lambda>(v, vbc). Some (Inr (sint v, vbc)))"

definition GetBlockScriptFlags ::
  "block_store \<Rightarrow> pindex \<Rightarrow> ConsensusParams \<Rightarrow> VersionBitsCache \<Rightarrow> (val_error + u32 \<times> VersionBitsCache) option" where
  "GetBlockScriptFlags st p params vbc =
     (let flags = 0;
          flags = (if nHeight (st ! p) \<ge> BIP16Height params then flags OR SCRIPT_VERIFY_P2SH else flags);
          flags = (if nHeight (st ! p) \<ge> BIP66Height params then flags OR SCRIPT_VERIFY_DERSIG else flags);
          flags = (if nHeight (st ! p) \<ge> BIP65Height params then flags OR SCRIPT_VERIFY_CHECKLOCKTIMEVERIFY else flags) in
      obind (VersionBitsState st (pprev (st ! p)) params DEPLOYMENT_CSV vbc) (\<lambda>(state, vbc).
      let flags = (if state = THRESHOLD_ACTIVE then flags OR SCRIPT_VERIFY_CHECKSEQUENCEVERIFY else flags) in
      obind (IsWitnessEnabled st (pprev (st ! p)) params vbc) (\<lambda>(enabled, vbc).
      Some (Inr (if enabled then flags OR SCRIPT_VERIFY_WITNESS OR SCRIPT_VERIFY_NULLDUMMY else flags, vbc)))))"

subsection \<open>The environment and the state\<close>

record CDiskTxPos = CDiskBlockPos +
  nTxOffset :: u32

record 'x connect_env =
  env_sigs :: sig_env
  env_cache :: "'x script_cache"
  env_undo :: undo_env
  hashAssumeValid :: uint256
  env_nMinimumChainWork :: arith_uint256
  nScriptCheckThreads :: int
  fTxIndex :: bool

record 'x connect_state =
  cs_index :: block_index
  versionbitscache :: VersionBitsCache
  cs_script_cache :: 'x
  cs_disk :: undo_disk
  cs_txindex :: "uint256 \<Rightarrow> CDiskTxPos option"

fun tx_positions :: "CTransaction list \<Rightarrow> CDiskTxPos \<Rightarrow> (uint256 \<times> CDiskTxPos) list" where
  "tx_positions [] pos = []"
| "tx_positions (tx # txs) pos =
     (tx_hash tx, pos) #
     tx_positions txs (pos\<lparr>nTxOffset := nTxOffset pos + of_nat (length (SerializeTransaction True tx))\<rparr>)"

definition WriteTxIndexDataForBlock :: "'x connect_env \<Rightarrow> CBlock \<Rightarrow> pindex \<Rightarrow> 'x connect_state \<Rightarrow> 'x connect_state" where
  "WriteTxIndexDataForBlock env block p s =
     (if \<not> fTxIndex env then s
      else let pos = CDiskBlockPos.extend (GetBlockPos (blocks (cs_index s) ! p))
             (CDiskTxPos.fields (of_nat (GetSizeOfCompactSize (of_nat (length (vtx block)))))) in
        s\<lparr>cs_txindex := fold (\<lambda>(txid, pos) ix. ix(txid \<mapsto> pos)) (tx_positions (vtx block) pos) (cs_txindex s)\<rparr>)"

subsection \<open>Before the transactions\<close>

text \<open>Whether the scripts are run: not below the block assumed valid, once two weeks of work are on top.\<close>

definition script_checks_needed :: "'x connect_env \<Rightarrow> ConsensusParams \<Rightarrow> block_index \<Rightarrow> pindex \<Rightarrow> val_error + bool" where
  "script_checks_needed env params bx p =
     (if hashAssumeValid env = uint256_null then Inr True
      else case mapBlockIndex bx (hashAssumeValid env) of
          None \<Rightarrow> Inr True
        | Some it \<Rightarrow>
            err_bind (or_abort (GetAncestor (blocks bx) it (nHeight (blocks bx ! p)))) (\<lambda>a.
            if a \<noteq> Some p then Inr True
            else case pindexBestHeader bx of
                None \<Rightarrow> Inl ValNull
              | Some best \<Rightarrow>
                  err_bind (or_abort (GetAncestor (blocks bx) best (nHeight (blocks bx ! p)))) (\<lambda>a.
                  if a \<noteq> Some p then Inr True
                  else if \<not> CompareTo (nChainWork (blocks bx ! best)) (env_nMinimumChainWork env) \<ge> 0 then Inr True
                  else err_bind (or_abort (GetBlockProofEquivalentTime (blocks bx ! best) (blocks bx ! p) (blocks bx ! best)
                      (nPowTargetSpacing params))) (\<lambda>t.
                    Inr (t \<le> 60 * 60 * 24 * 7 * 2)))))"

definition bip30_hash_91842 :: uint256 where
  "bip30_hash_91842 = rev [0x00, 0x00, 0x00, 0x00, 0x00, 0x0a, 0x4d, 0x0a, 0x39, 0x81, 0x61, 0xff, 0xc1, 0x63, 0xc5, 0x03,
     0x76, 0x3b, 0x1f, 0x43, 0x60, 0x63, 0x93, 0x93, 0xe0, 0xe4, 0xc8, 0xe3, 0x00, 0xe0, 0xca, 0xec]"

definition bip30_hash_91880 :: uint256 where
  "bip30_hash_91880 = rev [0x00, 0x00, 0x00, 0x00, 0x00, 0x07, 0x43, 0xf1, 0x90, 0xa1, 0x8c, 0x55, 0x77, 0xa3, 0xc2, 0xd2,
     0xa1, 0xf6, 0x10, 0xae, 0x96, 0x01, 0xac, 0x04, 0x6a, 0x38, 0x08, 0x4c, 0xcb, 0x7c, 0xd7, 0x21]"

definition BIP34_IMPLIES_BIP30_LIMIT :: int where
  "BIP34_IMPLIES_BIP30_LIMIT = 1983702"

definition fEnforceBIP30 :: "ConsensusParams \<Rightarrow> block_store \<Rightarrow> pindex \<Rightarrow> val_error + bool" where
  "fEnforceBIP30 params st p =
     (let enforce = (\<not> (nHeight (st ! p) = 91842 \<and> GetBlockHash (st ! p) = bip30_hash_91842 \<or>
                        nHeight (st ! p) = 91880 \<and> GetBlockHash (st ! p) = bip30_hash_91880)) in
      case pprev (st ! p) of
        None \<Rightarrow> Inl ValAssert
      | Some q \<Rightarrow>
          err_bind (or_abort (GetAncestor st q (BIP34Height params))) (\<lambda>pindexBIP34height.
          Inr (enforce \<and> (case pindexBIP34height of
                            None \<Rightarrow> True
                          | Some a \<Rightarrow> GetBlockHash (st ! a) \<noteq> BIP34Hash params))))"

fun bip30_outputs :: "'v CCashView \<Rightarrow> uint256 \<Rightarrow> nat \<Rightarrow> nat \<Rightarrow> 'v CCashViewCache \<Rightarrow> bool \<times> 'v CCashViewCache" where
  "bip30_outputs V txid i 0 c = (True, c)"
| "bip30_outputs V txid i (Suc n) c =
     (case HaveCash V \<lparr>op_hash = txid, op_n = of_nat i\<rparr> c of (have, c) \<Rightarrow>
        if have then (False, c) else bip30_outputs V txid (Suc i) n c)"

fun bip30_txs :: "'v CCashView \<Rightarrow> CTransaction list \<Rightarrow> 'v CCashViewCache \<Rightarrow> val_error + 'v CCashViewCache" where
  "bip30_txs V [] c = Inr c"
| "bip30_txs V (tx # txs) c =
     (case bip30_outputs V (tx_hash tx) 0 (length (vout tx)) c of (ok, c) \<Rightarrow>
        if ok then bip30_txs V txs c else Inl (DoS 100 REJECT_INVALID ''bad-txns-BIP30'' False))"

subsection \<open>The transactions\<close>

fun prev_heights :: "'v CCashView \<Rightarrow> CTxIn list \<Rightarrow> 'v CCashViewCache \<Rightarrow> int list \<times> 'v CCashViewCache" where
  "prev_heights V [] c = ([], c)"
| "prev_heights V (txin # ins) c =
     (let (cash, c) = AccessCash V (prevout txin) c; (hs, c) = prev_heights V ins c in (int (cash_nHeight cash) # hs, c))"

record ('v, 'x) connect_acc =
  ca_view :: "'v CCashViewCache"
  ca_cache :: 'x
  ca_nFees :: CAmount
  ca_nSigOpsCost :: int
  ca_control :: "CScriptCheck list"
  ca_vtxundo :: CBlockUndo

record block_ctx =
  ctx_st :: block_store
  ctx_pindex :: pindex
  ctx_flags :: u32
  ctx_nLockTimeFlags :: u32
  ctx_fScriptChecks :: bool
  ctx_fJustCheck :: bool

definition connect_inputs ::
  "'v CCashView \<Rightarrow> block_ctx \<Rightarrow> CTransaction \<Rightarrow> ('v, 'x) connect_acc \<Rightarrow> val_error + ('v, 'x) connect_acc" where
  "connect_inputs V ctx tx a =
     (if IsCashBase tx then Inr a
      else err_bind (CheckTxInputs V tx (nHeight (ctx_st ctx ! ctx_pindex ctx)) (ca_view a)) (\<lambda>(txfee, c).
        let nFees = s64 (ca_nFees a + txfee) in
        if \<not> MoneyRange nFees then Inl (DoS 100 REJECT_INVALID ''bad-txns-accumulated-fee-outofrange'' False)
        else let (prevheights, c) = prev_heights V (vin tx) c in
          err_bind (SequenceLocks (ctx_st ctx) tx (ctx_nLockTimeFlags ctx) prevheights (ctx_pindex ctx)) (\<lambda>(ok, _).
          if \<not> ok then Inl (DoS 100 REJECT_INVALID ''bad-txns-nonfinal'' False)
          else Inr (a\<lparr>ca_view := c, ca_nFees := nFees\<rparr>))))"

definition connect_scripts ::
  "'x connect_env \<Rightarrow> 'v CCashView \<Rightarrow> block_ctx \<Rightarrow> CTransaction \<Rightarrow> ('v, 'x) connect_acc \<Rightarrow> val_error + ('v, 'x) connect_acc" where
  "connect_scripts env V ctx tx a =
     err_bind (GetTransactionSigOpCost V tx (ca_view a) (ctx_flags ctx)) (\<lambda>(n, c).
     let nSigOpsCost = s64 (ca_nSigOpsCost a + n) in
     if nSigOpsCost > MAX_BLOCK_SIGOPS_COST then Inl (DoS 100 REJECT_INVALID ''bad-blk-sigops'' False)
     else if IsCashBase tx then Inr (a\<lparr>ca_view := c, ca_nSigOpsCost := nSigOpsCost\<rparr>)
     else err_bind (CheckInputs (env_sigs env) (env_cache env) V tx (ctx_fScriptChecks ctx) (ctx_flags ctx) (ctx_fJustCheck ctx)
         (ctx_fJustCheck ctx) (PrecomputedTransactionData_of tx) (nScriptCheckThreads env \<noteq> 0) (ca_cache a) c) (\<lambda>(vChecks, x, c).
       Inr (a\<lparr>ca_view := c, ca_cache := x, ca_nSigOpsCost := nSigOpsCost,
              ca_control := (if ctx_fScriptChecks ctx \<and> nScriptCheckThreads env \<noteq> 0 then ca_control a @ vChecks else ca_control a)\<rparr>)))"

definition connect_tx ::
  "'x connect_env \<Rightarrow> 'v CCashView \<Rightarrow> block_ctx \<Rightarrow> bool \<Rightarrow> CTransaction \<Rightarrow> ('v, 'x) connect_acc \<Rightarrow> val_error + ('v, 'x) connect_acc" where
  "connect_tx env V ctx is_first tx a =
     err_bind (connect_inputs V ctx tx a) (\<lambda>a.
     err_bind (connect_scripts env V ctx tx a) (\<lambda>a.
     err_bind (UpdateCash V tx (nHeight (ctx_st ctx ! ctx_pindex ctx)) (ca_view a)) (\<lambda>(undo, c).
     Inr (a\<lparr>ca_view := c, ca_vtxundo := (if is_first then ca_vtxundo a else ca_vtxundo a @ [undo])\<rparr>))))"

fun connect_txs ::
  "'x connect_env \<Rightarrow> 'v CCashView \<Rightarrow> block_ctx \<Rightarrow> bool \<Rightarrow> CTransaction list \<Rightarrow> ('v, 'x) connect_acc \<Rightarrow>
    val_error + ('v, 'x) connect_acc" where
  "connect_txs env V ctx is_first [] a = Inr a"
| "connect_txs env V ctx is_first (tx # txs) a = err_bind (connect_tx env V ctx is_first tx a) (connect_txs env V ctx False txs)"

subsection \<open>The block\<close>

text \<open>After the transactions: the reward, the script checks, and unless the block is only checked, the disk.\<close>

definition finish_block ::
  "'x connect_env \<Rightarrow> ConsensusParams \<Rightarrow> block_ctx \<Rightarrow> CBlock \<Rightarrow> ('v, 'x) connect_acc \<Rightarrow> 'x connect_state \<Rightarrow>
    val_error + 'v CCashViewCache \<times> 'x connect_state" where
  "finish_block env params ctx block a s =
     (let p = ctx_pindex ctx; s = s\<lparr>cs_script_cache := ca_cache a\<rparr>;
          blockReward = s64 (ca_nFees a + GetBlockSubsidy (nHeight (ctx_st ctx ! p)) params) in
      case GetValueOut (vtx block ! 0) of
        None \<Rightarrow> Inl (ValThrow ''GetValueOut: value out of range'')
      | Some v \<Rightarrow>
          if v > blockReward then Inl (DoS 100 REJECT_INVALID ''bad-cb-amount'' False)
          else err_bind (run_checks (env_sigs env) (ca_control a)) (\<lambda>ok.
            if \<not> ok then Inl (DoS 100 REJECT_INVALID ''block-validation-failed'' False)
            else if ctx_fJustCheck ctx then Inr (ca_view a, s)
            else err_bind (WriteUndoDataForBlock (env_undo env) (ca_vtxundo a) p (cs_index s, cs_disk s)) (\<lambda>(bx, d).
              err_bind (or_abort (IsValid BLOCK_VALID_SCRIPTS (blocks bx ! p))) (\<lambda>valid.
              err_bind (if valid then Inr bx
                  else err_bind (or_abort (RaiseValidity BLOCK_VALID_SCRIPTS (blocks bx ! p))) (\<lambda>(_, b).
                    Inr (bx\<lparr>blocks := (blocks bx)[p := b], setDirtyBlockIndex := insert p (setDirtyBlockIndex bx)\<rparr>))) (\<lambda>bx.
              let s = WriteTxIndexDataForBlock env block p (s\<lparr>cs_index := bx, cs_disk := d\<rparr>) in
              Inr (SetBestBlock (GetBlockHash (blocks bx ! p)) (ca_view a), s))))))"

definition connect_transactions ::
  "'x connect_env \<Rightarrow> 'v CCashView \<Rightarrow> ConsensusParams \<Rightarrow> CBlock \<Rightarrow> pindex \<Rightarrow> bool \<Rightarrow> bool \<Rightarrow> 'v CCashViewCache \<Rightarrow>
    'x connect_state \<Rightarrow> (val_error + 'v CCashViewCache \<times> 'x connect_state) option" where
  "connect_transactions env V params block p fScriptChecks fJustCheck c s =
     (let st = blocks (cs_index s) in
      obind (VersionBitsState st (pprev (st ! p)) params DEPLOYMENT_CSV (versionbitscache s)) (\<lambda>(state, vbc).
      obind (GetBlockScriptFlags st p params vbc) (\<lambda>(flags, vbc).
      let ctx = \<lparr>ctx_st = st, ctx_pindex = p, ctx_flags = flags,
                 ctx_nLockTimeFlags = (if state = THRESHOLD_ACTIVE then LOCKTIME_VERIFY_SEQUENCE else 0),
                 ctx_fScriptChecks = fScriptChecks, ctx_fJustCheck = fJustCheck\<rparr>;
          a = \<lparr>ca_view = c, ca_cache = cs_script_cache s, ca_nFees = 0, ca_nSigOpsCost = 0, ca_control = [], ca_vtxundo = []\<rparr> in
      Some (err_bind (connect_txs env V ctx True (vtx block) a) (\<lambda>a.
        finish_block env params ctx block a (s\<lparr>versionbitscache := vbc\<rparr>))))))"

definition ConnectBlock ::
  "'x connect_env \<Rightarrow> 'v CCashView \<Rightarrow> ConsensusParams \<Rightarrow> CBlock \<Rightarrow> pindex \<Rightarrow> bool \<Rightarrow> 'v CCashViewCache \<Rightarrow> 'x connect_state \<Rightarrow>
    (val_error + CBlock \<times> 'v CCashViewCache \<times> 'x connect_state) option" where
  "ConnectBlock env V params block p fJustCheck view s =
     (let bx = cs_index s; st = blocks bx in
      if phashBlock (st ! p) \<noteq> Some (CBlockHeader_GetHash block) then Some (Inl ValAssert)
      else obind (Some (CheckBlock block params (\<not> fJustCheck) (\<not> fJustCheck))) (\<lambda>block.
        let hashPrev = (case pprev (st ! p) of None \<Rightarrow> uint256_null | Some q \<Rightarrow> GetBlockHash (st ! q));
            (best, c) = CCashViewCache_GetBestBlock V view in
        if hashPrev \<noteq> best then Some (Inl ValAssert)
        else if CBlockHeader_GetHash block = hashGenesisBlock params
        then Some (Inr (block, if fJustCheck then c else SetBestBlock (GetBlockHash (st ! p)) c, s))
        else obind (Some (script_checks_needed env params bx p)) (\<lambda>fScriptChecks.
          obind (Some (fEnforceBIP30 params st p)) (\<lambda>enforce.
          obind (Some (if enforce \<or> nHeight (st ! p) \<ge> BIP34_IMPLIES_BIP30_LIMIT then bip30_txs V (vtx block) c else Inr c)) (\<lambda>c.
          obind (connect_transactions env V params block p fScriptChecks fJustCheck c s) (\<lambda>(c, s).
          Some (Inr (block, c, s))))))))"

subsection \<open>What the checks leave unchanged\<close>

context cash_view
begin

lemma prev_heights_view:
  "cinv c \<Longrightarrow> prev_heights V ins c = (hs, c') \<Longrightarrow> cinv c' \<and> cutxo c' = cutxo c"
proof (induction ins arbitrary: c hs)
  case (Cons t ts)
  obtain x c1 where a: "AccessCash V (prevout t) c = (x, c1)" by force
  show ?case
    using Cons.IH [of c1] Cons.prems a AccessCash_spec [OF Cons.prems(1) a] by (auto split: prod.splits)
qed simp

lemma p2sh_sigops_view: "cinv c \<Longrightarrow> p2sh_sigops V ins n c = Inr (m, c') \<Longrightarrow> cinv c' \<and> cutxo c' = cutxo c"
proof (induction ins arbitrary: c n)
  case (Cons t ts)
  obtain x c1 where a: "AccessCash V (prevout t) c = (x, c1)" by force
  obtain k where "p2sh_sigops V ts k c1 = Inr (m, c')" using Cons.prems(2) a by (auto split: if_splits)
  then show ?case using Cons.IH [of c1] AccessCash_spec [OF Cons.prems(1) a] by auto
qed simp

lemma witness_sigops_view: "cinv c \<Longrightarrow> witness_sigops V flags ins n c = Inr (m, c') \<Longrightarrow> cinv c' \<and> cutxo c' = cutxo c"
proof (induction ins arbitrary: c n)
  case (Cons t ts)
  obtain x c1 where a: "AccessCash V (prevout t) c = (x, c1)" by force
  obtain k where "witness_sigops V flags ts k c1 = Inr (m, c')" using Cons.prems(2) a by (auto split: if_splits option.splits)
  then show ?case using Cons.IH [of c1] AccessCash_spec [OF Cons.prems(1) a] by auto
qed simp

lemma GetTransactionSigOpCost_view:
  assumes "cinv c" "GetTransactionSigOpCost V tx c flags = Inr (n, c')"
  shows "cinv c' \<and> cutxo c' = cutxo c"
proof -
  have p2sh: "cinv c1 \<and> cutxo c1 = cutxo c" if "GetP2SHSigOpCount V tx c = Inr (m, c1)" for m c1
    using that assms(1) p2sh_sigops_view [OF assms(1), of "vin tx" 0 m c1] by (auto simp: GetP2SHSigOpCount_def split: if_splits)
  show ?thesis
    using assms p2sh witness_sigops_view [of _ flags "vin tx" _ n c']
    by (fastforce simp: GetTransactionSigOpCost_def Let_def err_bind_Inr split: if_splits)
qed

lemma CheckInputs_view:
  assumes "cinv c" "CheckInputs env sc V tx fScriptChecks flags store full txdata threads x c = Inr (checks, x', c')"
  shows "cinv c' \<and> cutxo c' = cutxo c"
  using assms check_scripts_view [OF assms(1)]
  by (fastforce simp: CheckInputs_def Let_def err_bind_Inr split: if_splits prod.splits)

subsection \<open>The effect of the transactions\<close>

lemma connect_inputs_spec:
  assumes "cinv (ca_view a)" "connect_inputs V ctx tx a = Inr a'" "MoneyRange (ca_nFees a)"
    and "u = cutxo (ca_view a)" "h = nHeight (ctx_st ctx ! ctx_pindex ctx)"
  shows "cinv (ca_view a') \<and> cutxo (ca_view a') = u \<and> ca_vtxundo a' = ca_vtxundo a \<and> MoneyRange (ca_nFees a') \<and>
    (if IsCashBase tx then ca_nFees a' = ca_nFees a
     else ca_nFees a' = ca_nFees a + inputs_value u (vin tx) - sum_list (map nValue (vout tx)) \<and> list_all (input_ok u h) (vin tx))"
proof (cases "IsCashBase tx")
  case True
  then show ?thesis using assms by (simp add: connect_inputs_def)
next
  case False
  obtain fee c where c: "CheckTxInputs V tx h (ca_view a) = Inr (fee, c)"
    using assms(2,5) False by (auto simp: connect_inputs_def err_bind_Inr)
  obtain hs c1 where c1: "prev_heights V (vin tx) c = (hs, c1)" by force
  have fee: "list_all (input_ok u h) (vin tx)" "fee = inputs_value u (vin tx) - sum_list (map nValue (vout tx))" "0 \<le> fee"
    and le: "inputs_value u (vin tx) \<le> MAX_MONEY" "list_all (\<lambda>t. MoneyRange (nValue t)) (vout tx)"
    using CheckTxInputs_spec [OF assms(1), of tx h fee] c assms(4) by auto
  have "0 \<le> sum_list (map nValue (vout tx))" using le(2) by (intro sum_list_nonneg) (auto simp: list_all_iff MoneyRange_def)
  then have "in_s64 (ca_nFees a + fee)"
    using assms(3) fee(2,3) le(1) by (auto simp: MoneyRange_def MAX_MONEY_def CASH_def in_s64_def)
  then show ?thesis
    using assms(2,5) False c c1 fee CheckTxInputs_view [OF assms(1) c] prev_heights_view [of c "vin tx" hs c1] assms(4)
    by (auto simp: connect_inputs_def Let_def err_bind_Inr split: if_splits)
qed

lemma connect_scripts_spec:
  assumes "cinv (ca_view a)" "connect_scripts env V ctx tx a = Inr a'"
  shows "cinv (ca_view a') \<and> cutxo (ca_view a') = cutxo (ca_view a) \<and> ca_vtxundo a' = ca_vtxundo a \<and> ca_nFees a' = ca_nFees a"
proof -
  obtain n c where n: "GetTransactionSigOpCost V tx (ca_view a) (ctx_flags ctx) = Inr (n, c)"
    using assms(2) by (auto simp: connect_scripts_def err_bind_Inr)
  note c = GetTransactionSigOpCost_view [OF assms(1) n]
  show ?thesis
  proof (cases "IsCashBase tx")
    case True
    then show ?thesis using assms(2) n c by (auto simp: connect_scripts_def Let_def split: if_splits)
  next
    case False
    then obtain checks x c1 where "CheckInputs (env_sigs env) (env_cache env) V tx (ctx_fScriptChecks ctx) (ctx_flags ctx)
        (ctx_fJustCheck ctx) (ctx_fJustCheck ctx) (PrecomputedTransactionData_of tx) (nScriptCheckThreads env \<noteq> 0) (ca_cache a) c =
          Inr (checks, x, c1)"
      "ca_view a' = c1" "ca_vtxundo a' = ca_vtxundo a" "ca_nFees a' = ca_nFees a"
      using assms(2) n by (auto simp: connect_scripts_def Let_def err_bind_Inr split: if_splits)
    then show ?thesis using CheckInputs_view c by metis
  qed
qed

lemma connect_tx_spec:
  assumes "cinv (ca_view a)" "connect_tx env V ctx is_first tx a = Inr a'" "MoneyRange (ca_nFees a)" "u = cutxo (ca_view a)"
    and "h = nHeight (ctx_st ctx ! ctx_pindex ctx)"
    and "distinct (map prevout (vin tx))" "list_all (\<lambda>t. MoneyRange (nValue t)) (vout tx)" "length (vout tx) \<le> 2 ^ 32"
    and "\<forall>j<length (vout tx). u (out_at (tx_hash tx) j) = None"
  shows "cinv (ca_view a') \<and> cutxo (ca_view a') = tx_utxo h tx u \<and> tx_fits tx u \<and>
    ca_vtxundo a' = ca_vtxundo a @ (if is_first then [] else [tx_undo tx u]) \<and> MoneyRange (ca_nFees a') \<and>
    ca_nFees a' = ca_nFees a + (if IsCashBase tx then 0 else inputs_value u (vin tx) - sum_list (map nValue (vout tx)))"
proof -
  obtain a1 where a1: "connect_inputs V ctx tx a = Inr a1" using assms(2) by (auto simp: connect_tx_def err_bind_Inr)
  obtain a2 where a2: "connect_scripts env V ctx tx a1 = Inr a2" using assms(2) a1 by (auto simp: connect_tx_def err_bind_Inr)
  note s1 = connect_inputs_spec [OF assms(1) a1 assms(3-5)]
  note s2 = connect_scripts_spec [OF _ a2]
  have "list_all (\<lambda>txin. u (prevout txin) \<noteq> None) (vin tx)" if "\<not> IsCashBase tx"
    using s1 that by (auto simp: list_all_iff input_ok_def split: option.splits)
  then have fits: "tx_fits tx u" using assms(6-9) by (auto simp: tx_fits_def list_all_iff MoneyRange_def)
  then obtain c where "UpdateCash V tx h (ca_view a2) = Inr (tx_undo tx u, c)" "cinv c" "cutxo c = tx_utxo h tx u"
    using UpdateCash_spec [of "ca_view a2" tx h] s1 s2 by auto
  then show ?thesis using assms(2,5) a1 a2 s1 s2 fits by (auto simp: connect_tx_def split: if_splits)
qed

lemma connect_txs_spec:
  assumes "cinv (ca_view a)" "connect_txs env V ctx is_first txs a = Inr a'" "MoneyRange (ca_nFees a)" "u = cutxo (ca_view a)"
    and "h = nHeight (ctx_st ctx ! ctx_pindex ctx)" "distinct (map tx_hash txs)"
    and "list_all (\<lambda>tx. distinct (map prevout (vin tx)) \<and> list_all (\<lambda>t. MoneyRange (nValue t)) (vout tx) \<and> length (vout tx) \<le> 2 ^ 32) txs"
    and "list_all (\<lambda>tx. \<forall>j<length (vout tx). u (out_at (tx_hash tx) j) = None) txs"
  shows "cinv (ca_view a') \<and> cutxo (ca_view a') = block_apply h txs u \<and> block_fits h txs u \<and>
    ca_vtxundo a' = ca_vtxundo a @ (if is_first then tl (block_undo h txs u) else block_undo h txs u) \<and>
    (finite (dom u) \<longrightarrow> finite (dom (block_apply h txs u)) \<and> total_value (block_apply h txs u) + ca_nFees a' \<le>
      total_value u + ca_nFees a + sum_list (map (\<lambda>tx. if IsCashBase tx then sum_list (map nValue (vout tx)) else 0) txs)) \<and>
    MoneyRange (ca_nFees a')"
  using assms(1-4,6-8)
proof (induction txs arbitrary: is_first a u)
  case (Cons tx txs)
  obtain a1 where a1: "connect_tx env V ctx is_first tx a = Inr a1" "connect_txs env V ctx False txs a1 = Inr a'"
    using Cons.prems(2) by (auto simp: err_bind_Inr)
  let ?u = "tx_utxo h tx u"
  have s: "cinv (ca_view a1)" "cutxo (ca_view a1) = ?u" "tx_fits tx u" "MoneyRange (ca_nFees a1)"
    "ca_vtxundo a1 = ca_vtxundo a @ (if is_first then [] else [tx_undo tx u])"
    "ca_nFees a1 = ca_nFees a + (if IsCashBase tx then 0 else inputs_value u (vin tx) - sum_list (map nValue (vout tx)))"
    using connect_tx_spec [OF Cons.prems(1) a1(1) Cons.prems(3,4) assms(5)] Cons.prems(6,7)
    unfolding list.pred_inject by blast+
  have "?u (out_at (tx_hash tx') j) = None" if "tx' \<in> set txs" "j < length (vout tx')" for tx' j
  proof -
    have "tx_hash tx \<noteq> tx_hash tx'" using Cons.prems(5) that(1) by auto
    then have "?u (out_at (tx_hash tx') j) = (if IsCashBase tx then u else utxo_spend (vin tx) u) (out_at (tx_hash tx') j)"
      unfolding tx_utxo_def by (intro utxo_add_other) (simp add: out_at_def)
    then show ?thesis using Cons.prems(7) that by (auto simp: list_all_iff utxo_spend_def)
  qed
  then have absent: "list_all (\<lambda>tx. \<forall>j<length (vout tx). ?u (out_at (tx_hash tx) j) = None) txs" by (simp add: list_all_iff)
  note IH = Cons.IH [OF s(1) a1(2) s(4) s(2) [symmetric] _ _ absent]
  have "list_all (\<lambda>t. 0 \<le> nValue t) (vout tx)" using Cons.prems(6) by (simp add: list_all_iff MoneyRange_def)
  note tot = total_value_tx [OF _ s(3) this, of h]
  show ?case using IH Cons.prems(5,6) s(3,5,6) tot by (cases "IsCashBase tx"; cases is_first) auto
qed auto

lemma bip30_outputs_spec:
  "cinv c \<Longrightarrow> bip30_outputs V txid i n c = (ok, c') \<Longrightarrow>
    cinv c' \<and> cutxo c' = cutxo c \<and> (ok \<longrightarrow> (\<forall>j<n. cutxo c (out_at txid (i + j)) = None))"
proof (induction n arbitrary: i c)
  case (Suc n)
  obtain r c1 where h: "HaveCash V (out_at txid i) c = (r, c1)" by force
  note c1 = HaveCash_spec [OF Suc.prems(1) h]
  show ?case
  proof (cases r)
    case True
    then show ?thesis using Suc.prems(2) h c1 by (auto simp: out_at_def)
  next
    case False
    then have "bip30_outputs V txid (Suc i) n c1 = (ok, c')" using Suc.prems(2) h by (simp add: out_at_def)
    then have "cinv c' \<and> cutxo c' = cutxo c \<and> (ok \<longrightarrow> (\<forall>j<n. cutxo c (out_at txid (Suc (i + j))) = None))"
      using Suc.IH [of c1 "Suc i"] c1 by simp
    moreover have "cutxo c (out_at txid i) = None" using False c1 by simp
    ultimately show ?thesis by (auto simp: less_Suc_eq_0_disj)
  qed
qed simp

lemma bip30_txs_spec:
  "cinv c \<Longrightarrow> bip30_txs V txs c = Inr c' \<Longrightarrow> cinv c' \<and> cutxo c' = cutxo c \<and>
    list_all (\<lambda>tx. \<forall>j<length (vout tx). cutxo c (out_at (tx_hash tx) j) = None) txs"
proof (induction txs arbitrary: c)
  case (Cons tx txs)
  obtain ok c1 where o: "bip30_outputs V (tx_hash tx) 0 (length (vout tx)) c = (ok, c1)" by force
  then show ?case
    using Cons.IH [of c1] Cons.prems bip30_outputs_spec [OF Cons.prems(1) o] by (auto split: if_splits)
qed simp

lemma GetBestBlock_view: "cinv c \<Longrightarrow> CCashViewCache_GetBestBlock V c = (h, c') \<Longrightarrow> cinv c' \<and> cutxo c' = cutxo c"
  using cash_view.best_law [OF cache_view, of c h c'] by (simp add: CCashViewCache_view_def)

end

subsection \<open>What the end of the block writes\<close>

definition same_chain :: "block_store \<Rightarrow> block_store \<Rightarrow> bool" where
  "same_chain st st' \<longleftrightarrow> length st' = length st \<and>
     (\<forall>i. nHeight (st' ! i) = nHeight (st ! i) \<and> pprev (st' ! i) = pprev (st ! i) \<and> phashBlock (st' ! i) = phashBlock (st ! i))"

lemma same_chain_refl: "same_chain st st"
  by (simp add: same_chain_def)

lemma same_chain_trans: "same_chain a b \<Longrightarrow> same_chain b c \<Longrightarrow> same_chain a c"
  by (simp add: same_chain_def)

lemma same_chain_update:
  assumes "nHeight b = nHeight (st ! p)" "pprev b = pprev (st ! p)" "phashBlock b = phashBlock (st ! p)"
  shows "same_chain st (st[p := b])"
  using assms by (cases "p < length st") (auto simp: same_chain_def nth_list_update list_update_beyond)

lemma UndoReadFromDisk_same:
  assumes "same_chain st st'" "GetUndoPos (st' ! p) = GetUndoPos (st ! p)"
  shows "UndoReadFromDisk dec st' p files = UndoReadFromDisk dec st p files"
proof -
  have eq: "GetBlockHash (st' ! q) = GetBlockHash (st ! q)" "pprev (st' ! p) = pprev (st ! p)" for q
    using assms(1) by (simp_all add: same_chain_def GetBlockHash_def)
  show ?thesis by (simp only: UndoReadFromDisk_def assms(2) eq)
qed

lemma RaiseValidity_spec:
  assumes "RaiseValidity BLOCK_VALID_SCRIPTS b = Inr (r, b')"
  shows "\<exists>f. b' = b\<lparr>nStatus := f\<rparr> \<and> f AND BLOCK_HAVE_UNDO = nStatus b AND BLOCK_HAVE_UNDO"
proof -
  have m: "NOT BLOCK_VALID_MASK AND BLOCK_HAVE_UNDO = BLOCK_HAVE_UNDO" "BLOCK_VALID_SCRIPTS AND BLOCK_HAVE_UNDO = 0"
    by (simp_all add: flag_defs)
  have "((nStatus b AND NOT BLOCK_VALID_MASK) OR BLOCK_VALID_SCRIPTS) AND BLOCK_HAVE_UNDO =
      (nStatus b AND (NOT BLOCK_VALID_MASK AND BLOCK_HAVE_UNDO)) OR (BLOCK_VALID_SCRIPTS AND BLOCK_HAVE_UNDO)"
    by (simp only: bit.conj_disj_distrib2 and.assoc)
  then have "((nStatus b AND NOT BLOCK_VALID_MASK) OR BLOCK_VALID_SCRIPTS) AND BLOCK_HAVE_UNDO = nStatus b AND BLOCK_HAVE_UNDO"
    by (simp only: m or.right_neutral)
  then show ?thesis
    using assms by (auto simp: RaiseValidity_def split: if_splits intro: exI [of _ "nStatus b"])
qed

lemma cs_index_TxIndex [simp]:
  "cs_index (WriteTxIndexDataForBlock env block p s) = cs_index s" "cs_disk (WriteTxIndexDataForBlock env block p s) = cs_disk s"
  by (simp_all add: WriteTxIndexDataForBlock_def Let_def)

lemma finish_block_spec:
  assumes "finish_block env params ctx block a s = Inr (c', s')" "p = ctx_pindex ctx"
  shows "\<exists>v. GetValueOut (vtx block ! 0) = Some v \<and>
    v \<le> s64 (ca_nFees a + GetBlockSubsidy (nHeight (ctx_st ctx ! p)) params) \<and>
    (if ctx_fJustCheck ctx then c' = ca_view a \<and> cs_index s' = cs_index s
     else \<exists>h bx. c' = SetBestBlock h (ca_view a) \<and>
       WriteUndoDataForBlock (env_undo env) (ca_vtxundo a) p (cs_index s, cs_disk s) = Inr (bx, cs_disk s') \<and>
       same_chain (blocks bx) (blocks (cs_index s')) \<and> GetUndoPos (blocks (cs_index s') ! p) = GetUndoPos (blocks bx ! p))"
proof -
  obtain v where v: "GetValueOut (vtx block ! 0) = Some v" "v \<le> s64 (ca_nFees a + GetBlockSubsidy (nHeight (ctx_st ctx ! p)) params)"
    "run_checks (env_sigs env) (ca_control a) = Inr True"
    using assms by (auto simp: finish_block_def Let_def err_bind_Inr split: option.splits if_splits)
  show ?thesis
  proof (cases "ctx_fJustCheck ctx")
    case True
    then show ?thesis using assms v by (auto simp: finish_block_def Let_def split: if_splits)
  next
    case False
    obtain bx d where w: "WriteUndoDataForBlock (env_undo env) (ca_vtxundo a) p (cs_index s, cs_disk s) = Inr (bx, d)"
      using assms v False by (auto simp: finish_block_def Let_def err_bind_Inr split: if_splits)
    obtain valid where i: "IsValid BLOCK_VALID_SCRIPTS (blocks bx ! p) = Inr valid"
      by (cases "IsValid BLOCK_VALID_SCRIPTS (blocks bx ! p)") (auto simp: IsValid_def flag_defs split: if_splits)
    show ?thesis
    proof (cases valid)
      case True
      then show ?thesis using assms v False w i same_chain_refl by (auto simp: finish_block_def Let_def split: if_splits)
    next
      case nv: False
      obtain r b where b: "RaiseValidity BLOCK_VALID_SCRIPTS (blocks bx ! p) = Inr (r, b)"
        by (cases "RaiseValidity BLOCK_VALID_SCRIPTS (blocks bx ! p)") (auto simp: RaiseValidity_def flag_defs split: if_splits)
      obtain f where f: "b = (blocks bx ! p)\<lparr>nStatus := f\<rparr>" "f AND BLOCK_HAVE_UNDO = nStatus (blocks bx ! p) AND BLOCK_HAVE_UNDO"
        using RaiseValidity_spec [OF b] by blast
      have "same_chain (blocks bx) ((blocks bx)[p := b])" by (rule same_chain_update) (simp_all add: f(1))
      moreover have "GetUndoPos ((blocks bx)[p := b] ! p) = GetUndoPos (blocks bx ! p)"
        using f(2) by (cases "p < length (blocks bx)") (simp_all add: f(1) GetUndoPos_def list_update_beyond)
      ultimately show ?thesis
        using assms v False w i nv b by (auto simp: finish_block_def Let_def split: if_splits)
    qed
  qed
qed

end
