(* ===== verification/SC_Reorg.thy ===== *)
theory SC_Reorg
  imports SC_Connect
begin

text \<open>
  What \<open>ConnectBlock\<close> does to the set of unspent outputs, and that \<open>DisconnectBlock\<close> takes it back from the undo data
  on disk.
\<close>

subsection \<open>Checked transactions\<close>

lemma outputs_size: "9 * length outs \<le> length (concat (map Serialize_CTxOut outs))"
proof (induction outs)
  case (Cons t ts)
  have "9 \<le> length (Serialize_CTxOut t)"
    by (simp add: Serialize_CTxOut_def ser_int64_def ser_writedata64_def Serialize_bytes_def WriteCompactSize_def ser_writedata8_def
        ser_writedata16_def ser_writedata32_def)
  then show ?case using Cons by simp
qed simp

lemma CheckTransaction_facts:
  assumes "CheckTransaction tx True = Inr ()"
  shows "distinct (map prevout (vin tx)) \<and> list_all (\<lambda>t. MoneyRange (nValue t)) (vout tx) \<and> length (vout tx) \<le> 2 ^ 32"
proof -
  have z: "MoneyRange 0" by (simp add: MoneyRange_def MAX_MONEY_def CASH_def)
  have c: "check_outputs (vout tx) 0 = Inr ()" "check_duplicates (vin tx) {} = Inr ()"
    "length (SerializeTransaction False tx) * 4 \<le> 4000000"
    using assms by (auto simp: CheckTransaction_def err_bind_Inr WITNESS_SCALE_FACTOR_def MAX_BLOCK_WEIGHT_def split: if_splits)
  have "9 * length (vout tx) \<le> length (SerializeTransaction False tx)"
    using outputs_size [of "vout tx"] by (simp add: SerializeTransaction_def Serialize_vector_def)
  then show ?thesis using c check_outputs_Inr [OF z] check_duplicates_Inr by simp
qed

lemma CheckBlock_same:
  assumes "CheckBlock block params pow root = Inr block'"
  shows "vtx block' = vtx block \<and> CBlockHeader_GetHash block' = CBlockHeader_GetHash block"
proof -
  have "block' = block \<or> block' = block\<lparr>fChecked := True\<rparr>"
    using assms by (auto simp: CheckBlock_def err_bind_Inr split: if_splits)
  then show ?thesis by (auto simp: CBlockHeader_GetHash_def Serialize_CBlockHeader_def)
qed

lemma SetBestBlock_view [simp]:
  "cache_inv I U (SetBestBlock h c) = cache_inv I U c" "cache_utxo U (SetBestBlock h c) = cache_utxo U c"
  by (simp_all add: SetBestBlock_def cache_inv_def cache_utxo_def)

lemma GetBlockSubsidy_range: "GetBlockSubsidy h params \<in> {0..5000000000}"
proof -
  have "0 \<le> (5000000000 :: int) div 2 ^ n" "(5000000000 :: int) div 2 ^ n \<le> 5000000000" for n
    using zdiv_mono2 [of 5000000000 1 "2 ^ n"] by (simp_all add: div_int_pos_iff)
  then show ?thesis by (auto simp: GetBlockSubsidy_def CASH_def drop_bit_eq_div Let_def)
qed

subsection \<open>Sound sets of unspent outputs\<close>

text \<open>Every entry is one that \<open>UpdateCash\<close> could have stored and that the undo data can carry.\<close>

definition utxo_sound :: "utxo \<Rightarrow> bool" where
  "utxo_sound u \<longleftrightarrow> utxo_wf u \<and> (\<forall>p x. u p = Some x \<longrightarrow> cash_ok x)"

lemma utxo_add_cash_ok:
  assumes "\<forall>p x. u p = Some x \<longrightarrow> cash_ok x" "list_all (\<lambda>t. MoneyRange (nValue t)) outs"
  shows "\<forall>p x. utxo_add txid cb h i outs u p = Some x \<longrightarrow> cash_ok x"
  using assms
proof (induction outs arbitrary: i u)
  case (Cons t ts)
  have "cash_ok (Cash_new t h cb)" if "\<not> IsUnspendable (scriptPubKey t)"
    using that Cons.prems(2) by (auto simp: cash_ok_def IsUnspendable_def Cash_new_def nat_less_iff)
  then have "\<forall>p x. (if IsUnspendable (scriptPubKey t) then u else u(out_at txid i \<mapsto> Cash_new t h cb)) p = Some x \<longrightarrow> cash_ok x"
    using Cons.prems(1) by auto
  then show ?case using Cons.IH Cons.prems(2) by simp
qed simp

lemma tx_utxo_sound:
  assumes "utxo_sound u" "tx_fits tx u" "list_all (\<lambda>t. MoneyRange (nValue t)) (vout tx)" "0 < h" "h < 2 ^ 31"
  shows "utxo_sound (tx_utxo h tx u)"
proof -
  have "\<forall>p x. (if IsCashBase tx then u else utxo_spend (vin tx) u) p = Some x \<longrightarrow> cash_ok x"
    using assms(1) by (auto simp: utxo_sound_def utxo_spend_def)
  then show ?thesis
    using assms tx_utxo_wf [OF _ assms(2,4,5)] utxo_add_cash_ok by (simp add: utxo_sound_def tx_utxo_def)
qed

lemma block_undo_ok:
  assumes "utxo_sound u" "block_fits h txs u" "0 < h" "h < 2 ^ 31"
    and "list_all (\<lambda>tx. list_all (\<lambda>t. MoneyRange (nValue t)) (vout tx) \<and> length (vin tx) \<le> MAX_INPUTS_PER_BLOCK) txs"
  shows "list_all undo_ok (block_undo h txs u)"
  using assms(1,2,5)
proof (induction txs arbitrary: u)
  case (Cons tx txs)
  have f: "tx_fits tx u" using Cons.prems(2) by simp
  have "cash_ok (the (u (prevout t)))" if "t \<in> set (vin tx)" "\<not> IsCashBase tx" for t
    using f that Cons.prems(1) by (auto simp: tx_fits_def list_all_iff utxo_sound_def)
  then have "undo_ok (tx_undo tx u)" using Cons.prems(3) by (auto simp: undo_ok_def tx_undo_def list_all_iff)
  moreover have "utxo_sound (tx_utxo h tx u)" using tx_utxo_sound [OF Cons.prems(1) f _ assms(3,4)] Cons.prems(3) by simp
  ultimately show ?case using Cons.IH Cons.prems(2,3) by simp
qed simp

subsection \<open>The effect of a connected block\<close>

context cash_view
begin

lemma ConnectBlock_spec:
  assumes "cinv c" "ConnectBlock env V params block p fJustCheck c s = Some (Inr (block', c', s'))"
    and "CBlockHeader_GetHash block \<noteq> hashGenesisBlock params"
    and "fEnforceBIP30 params (blocks (cs_index s)) p = Inr True \<or> BIP34_IMPLIES_BIP30_LIMIT \<le> h"
    and "distinct (map tx_hash (vtx block))" "list_all (\<lambda>tx. CheckTransaction tx True = Inr ()) (vtx block)"
    and "h = nHeight (blocks (cs_index s) ! p)" "u = cutxo c"
  shows "\<exists>a ctx block1 s1. finish_block env params ctx block1 a s1 = Inr (c', s') \<and> vtx block1 = vtx block \<and>
    ctx_pindex ctx = p \<and> ctx_st ctx = blocks (cs_index s) \<and> ctx_fJustCheck ctx = fJustCheck \<and>
    cs_index s1 = cs_index s \<and> cs_disk s1 = cs_disk s \<and>
    cinv (ca_view a) \<and> cutxo (ca_view a) = block_apply h (vtx block) u \<and> block_fits h (vtx block) u \<and>
    ca_vtxundo a = tl (block_undo h (vtx block) u) \<and> MoneyRange (ca_nFees a) \<and>
    (finite (dom u) \<longrightarrow> finite (dom (block_apply h (vtx block) u)) \<and> total_value (block_apply h (vtx block) u) + ca_nFees a \<le>
      total_value u + sum_list (map (\<lambda>tx. if IsCashBase tx then sum_list (map nValue (vout tx)) else 0) (vtx block)))"
proof -
  let ?st = "blocks (cs_index s)"
  obtain block1 where b: "CheckBlock block params (\<not> fJustCheck) (\<not> fJustCheck) = Inr block1"
    using assms(2) by (auto simp: ConnectBlock_def Let_def obind_Inr split: if_splits)
  obtain best c0 where c0: "CCashViewCache_GetBestBlock V c = (best, c0)" by force
  have b1: "vtx block1 = vtx block" "CBlockHeader_GetHash block1 \<noteq> hashGenesisBlock params"
    using CheckBlock_same [OF b] assms(3) by simp_all
  obtain scr c1 where c1: "bip30_txs V (vtx block) c0 = Inr c1"
    "connect_transactions env V params block1 p scr fJustCheck c1 s = Some (Inr (c', s'))"
    using assms(2,4,7) b b1 c0 by (auto simp: ConnectBlock_def Let_def obind_Inr split: if_splits)
  have v1: "cinv c1" "cutxo c1 = u" and absent: "list_all (\<lambda>tx. \<forall>j<length (vout tx). u (out_at (tx_hash tx) j) = None) (vtx block)"
    using GetBestBlock_view [OF assms(1) c0] bip30_txs_spec [OF _ c1(1)] assms(8) by simp_all
  obtain ctx a vbc where a: "connect_txs env V ctx True (vtx block)
        \<lparr>ca_view = c1, ca_cache = cs_script_cache s, ca_nFees = 0, ca_nSigOpsCost = 0, ca_control = [], ca_vtxundo = []\<rparr> = Inr a"
      "finish_block env params ctx block1 a (s\<lparr>versionbitscache := vbc\<rparr>) = Inr (c', s')"
    and ctx: "ctx_pindex ctx = p" "ctx_st ctx = ?st" "ctx_fJustCheck ctx = fJustCheck"
    using c1(2) b1(1) by (auto simp: connect_transactions_def Let_def obind_Inr err_bind_Inr)
  have h: "h = nHeight (ctx_st ctx ! ctx_pindex ctx)" by (simp add: ctx assms(7))
  have tx: "list_all (\<lambda>tx. distinct (map prevout (vin tx)) \<and> list_all (\<lambda>t. MoneyRange (nValue t)) (vout tx) \<and>
      length (vout tx) \<le> 2 ^ 32) (vtx block)"
    using assms(6) by (rule list.pred_mono_strong) (rule CheckTransaction_facts)
  have z: "MoneyRange 0" by (simp add: MoneyRange_def MAX_MONEY_def CASH_def)
  show ?thesis
    using connect_txs_spec [OF _ a(1) _ _ h assms(5) tx absent] v1 z a(2) b1(1) ctx
    by (intro exI [of _ a] exI [of _ ctx] exI [of _ block1] exI [of _ "s\<lparr>versionbitscache := vbc\<rparr>"]) simp
qed

end

subsection \<open>Properties of connected blocks\<close>

text \<open>A block as miners build it: one cashbase, no transaction or input twice, and no more inputs than fit.\<close>

definition proper_block :: "CBlock \<Rightarrow> bool" where
  "proper_block block \<longleftrightarrow>
     (case vtx block of [] \<Rightarrow> False | cb # txs \<Rightarrow> IsCashBase cb \<and> list_all (\<lambda>tx. \<not> IsCashBase tx) txs) \<and>
     distinct (map tx_hash (vtx block)) \<and> size_ok (vtx block) \<and>
     list_all (\<lambda>tx. CheckTransaction tx True = Inr () \<and> length (vin tx) \<le> MAX_INPUTS_PER_BLOCK) (vtx block)"

lemma proper_blockE:
  assumes "proper_block block"
  obtains cb txs where "vtx block = cb # txs" "IsCashBase cb" "list_all (\<lambda>tx. \<not> IsCashBase tx) txs"
    "distinct (map tx_hash (vtx block))" "list_all (\<lambda>tx. CheckTransaction tx True = Inr ()) (vtx block)"
    "size_ok (vtx block)" "list_all (\<lambda>tx. length (vin tx) \<le> MAX_INPUTS_PER_BLOCK) (vtx block)"
  using assms by (auto simp: proper_block_def list_all_iff split: list.splits)

text \<open>
  C1: No block creates value.  Connecting a proper block, one whose transactions pass \<open>CheckTransaction\<close> with the search
  for repeated inputs and have distinct identifiers, that is checked against overwriting (BIP 30) raises the total value of
  the unspent outputs by at most the subsidy of its height: what the cashbase pays beyond it is covered by the fees.
\<close>

theorem ConnectBlock_conserves_value:
  assumes "block_inv c" "finite (dom (block_utxo c))" "proper_block block"
    and "ConnectBlock env (tip_view full) params block p fJustCheck c s = Some (Inr (block', c', s'))"
    and "CBlockHeader_GetHash block \<noteq> hashGenesisBlock params"
    and "fEnforceBIP30 params (blocks (cs_index s)) p = Inr True \<or>
      BIP34_IMPLIES_BIP30_LIMIT \<le> nHeight (blocks (cs_index s) ! p)"
  shows "block_inv c' \<and> finite (dom (block_utxo c')) \<and>
    total_value (block_utxo c') \<le> total_value (block_utxo c) + GetBlockSubsidy (nHeight (blocks (cs_index s) ! p)) params"
proof -
  let ?h = "nHeight (blocks (cs_index s) ! p)" and ?u = "block_utxo c"
  obtain cb txs where b: "vtx block = cb # txs" "IsCashBase cb" "list_all (\<lambda>tx. \<not> IsCashBase tx) txs"
    "distinct (map tx_hash (vtx block))" "list_all (\<lambda>tx. CheckTransaction tx True = Inr ()) (vtx block)"
    using assms(3) by (rule proper_blockE)
  obtain a ctx block1 s1 where f: "finish_block env params ctx block1 a s1 = Inr (c', s')" "vtx block1 = vtx block"
    "ctx_pindex ctx = p" "ctx_st ctx = blocks (cs_index s)" "block_inv (ca_view a)" "block_utxo (ca_view a) = block_apply ?h (vtx block) ?u"
    "MoneyRange (ca_nFees a)" "finite (dom (block_apply ?h (vtx block) ?u))"
    "total_value (block_apply ?h (vtx block) ?u) + ca_nFees a \<le>
      total_value ?u + sum_list (map (\<lambda>tx. if IsCashBase tx then sum_list (map nValue (vout tx)) else 0) (vtx block))"
    using tip.ConnectBlock_spec [OF assms(1,4,5,6) b(4,5) refl refl] assms(2) by blast
  obtain v where v: "GetValueOut cb = Some v" "v \<le> s64 (ca_nFees a + GetBlockSubsidy ?h params)"
    "\<exists>h. c' = ca_view a \<or> c' = SetBestBlock h (ca_view a)"
    using finish_block_spec [OF f(1) refl] f(2-4) b(1) by (auto split: if_splits)
  have "v \<le> ca_nFees a + GetBlockSubsidy ?h params"
    using v(2) f(7) GetBlockSubsidy_range [of ?h params] by (simp add: MoneyRange_def MAX_MONEY_def CASH_def in_s64_def)
  moreover have "v = sum_list (map nValue (vout cb))"
    using v(1) sum_outputs_Some [of 0 "vout cb" v] by (simp add: GetValueOut_def MoneyRange_def MAX_MONEY_def CASH_def)
  moreover have "sum_list (map (\<lambda>tx. if IsCashBase tx then sum_list (map nValue (vout tx)) else 0) txs) = 0"
    using b(3) by (induction txs) auto
  moreover have "block_inv c'" "block_utxo c' = block_apply ?h (vtx block) ?u" using v(3) f(5,6) by auto
  ultimately show ?thesis using f(8,9) b(1,2) by simp
qed

text \<open>
  C2: Disconnecting takes back connecting.  When a proper block has been connected, the undo data that \<open>ConnectBlock\<close> wrote
  is read back from the undo file, its checksum matches, and \<open>DisconnectBlock\<close> with it finds nothing unclean and restores the
  set of unspent outputs and the best block to what they were.  The set is any that connecting blocks can build up: its
  entries are spendable, in the money range, and know their height.
\<close>

theorem connect_disconnect_restores:
  assumes "block_inv c" "utxo_sound (block_utxo c)" "proper_block block"
    and "ConnectBlock env (tip_view full) params block p False c s = Some (Inr (block', c', s'))"
    and "CBlockHeader_GetHash block \<noteq> hashGenesisBlock params"
    and "fEnforceBIP30 params (blocks (cs_index s)) p = Inr True \<or>
      BIP34_IMPLIES_BIP30_LIMIT \<le> nHeight (blocks (cs_index s) ! p)"
    and "p < length (blocks (cs_index s))" "pprev (blocks (cs_index s) ! p) = Some q" "q \<noteq> p"
    and "0 < nHeight (blocks (cs_index s) ! p)" "nHeight (blocks (cs_index s) ! p) < 2 ^ 31"
    and "CDiskBlockPos_IsNull (GetUndoPos (blocks (cs_index s) ! p))"
    and "unat (nUndoSize (cs_disk s) (bi_nFile (blocks (cs_index s) ! p))) + 8 < 2 ^ 32"
    and "pubkey_ops_ok (ue_fully_valid (env_undo env)) dec" "length (ue_MessageStart (env_undo env)) = 4"
  shows "\<exists>undo c''. UndoReadFromDisk dec (blocks (cs_index s')) p (rev_files (cs_disk s')) = Inr (Some undo) \<and>
    DisconnectBlock (tip_view full) (blocks (cs_index s')) block p (Some undo) c' = Inr (DISCONNECT_OK, c'') \<and>
    block_inv c'' \<and> block_utxo c'' = block_utxo c \<and> cv_hashBlock c'' = GetBlockHash (blocks (cs_index s) ! q)"
proof -
  let ?st = "blocks (cs_index s)" and ?st' = "blocks (cs_index s')" and ?u = "block_utxo c"
  let ?h = "nHeight (?st ! p)"
  obtain cb txs where b: "vtx block = cb # txs" "IsCashBase cb" "list_all (\<lambda>tx. \<not> IsCashBase tx) txs"
    "distinct (map tx_hash (vtx block))" "list_all (\<lambda>tx. CheckTransaction tx True = Inr ()) (vtx block)"
    "size_ok (vtx block)" "list_all (\<lambda>tx. length (vin tx) \<le> MAX_INPUTS_PER_BLOCK) (vtx block)"
    using assms(3) by (rule proper_blockE)
  let ?undo = "tl (block_undo ?h (vtx block) ?u)"
  obtain a ctx block1 s1 where f: "finish_block env params ctx block1 a s1 = Inr (c', s')" "ctx_pindex ctx = p"
    "\<not> ctx_fJustCheck ctx" "cs_index s1 = cs_index s" "cs_disk s1 = cs_disk s" "block_inv (ca_view a)"
    "block_utxo (ca_view a) = block_apply ?h (vtx block) ?u" "block_fits ?h (vtx block) ?u" "ca_vtxundo a = ?undo"
    using tip.ConnectBlock_spec [OF assms(1,4,5,6) b(4,5) refl refl] by blast
  obtain best bx where w: "c' = SetBestBlock best (ca_view a)"
    "WriteUndoDataForBlock (env_undo env) ?undo p (cs_index s, cs_disk s) = Inr (bx, cs_disk s')"
    "same_chain (blocks bx) ?st'" "GetUndoPos (?st' ! p) = GetUndoPos (blocks bx ! p)"
    using finish_block_spec [OF f(1) refl] f(2-5,9) by auto
  have "list_all undo_ok (block_undo ?h (vtx block) ?u)"
    using block_undo_ok [OF assms(2) f(8) assms(10,11)] b(5,7) CheckTransaction_facts by (simp add: list_all_iff) blast
  then have undo: "list_all undo_ok ?undo" "size_ok ?undo" using b(1,6) by (simp_all add: size_ok_def)
  have read: "UndoReadFromDisk dec ?st' p (rev_files (cs_disk s')) = Inr (Some ?undo)"
    using WriteUndoDataForBlock_read [OF w(2) assms(12,7,14) undo(2,1) assms(15,13,8,9)] UndoReadFromDisk_same [OF w(3,4)] by simp
  have "same_chain ?st (blocks bx)"
    using WriteUndoDataForBlock_index [OF w(2)] by (auto intro!: same_chain_update)
  then have same: "same_chain ?st ?st'" using w(3) by (rule same_chain_trans)
  then have st': "nHeight (?st' ! p) = ?h" "pprev (?st' ! p) = Some q" "GetBlockHash (?st' ! q) = GetBlockHash (?st ! q)"
    using assms(8) by (simp_all add: same_chain_def GetBlockHash_def)
  have "utxo_wf ?u" using assms(2) by (simp add: utxo_sound_def)
  then show ?thesis
    using tip.DisconnectBlock_spec [of c' ?st' p block ?u cb txs q full] f(6-8) w(1) b(1-3) assms(10,11) st' read by simp
qed

subsection \<open>An example\<close>

definition reward_tx :: CTransaction where
  "reward_tx = CTransaction_of
    \<lparr>nVersion = 1, vin = [\<lparr>prevout = COutPoint_null, scriptSig = [1, 1], nSequence = 0, scriptWitness = []\<rparr>],
     vout = [\<lparr>nValue = 50 * CASH, scriptPubKey = [OP_1]\<rparr>], nLockTime = 0\<rparr>"

definition reward_block :: CBlock where
  "reward_block = (CBlock_of_header CBlockHeader_null)\<lparr>vtx := [reward_tx], fChecked := True\<rparr>"

abbreviation reward_hash :: uint256 where
  "reward_hash \<equiv> CBlockHeader_GetHash reward_block"

definition reward_params :: ConsensusParams where
  "reward_params = segwit_params\<lparr>hashGenesisBlock := map (\<lambda>b. NOT b) reward_hash\<rparr>"

definition reward_state :: "unit connect_state" where
  "reward_state =
    \<lparr>cs_index = block_index_empty\<lparr>blocks := [CBlockIndex_null\<lparr>phashBlock := Some (replicate 32 1)\<rparr>,
       CBlockIndex_null\<lparr>phashBlock := Some reward_hash, pprev := Some 0, nHeight := 1\<rparr>]\<rparr>,
     versionbitscache = (\<lambda>d e. None), cs_script_cache = (),
     cs_disk = \<lparr>rev_files = (\<lambda>n. None), nUndoSize = (\<lambda>n. 1), setDirtyFileInfo = {}, fCheckForPruning = False\<rparr>,
     cs_txindex = (\<lambda>h. None)\<rparr>"

definition reward_env :: "unit connect_env" where
  "reward_env =
    \<lparr>env_sigs = example_sigs, env_cache = no_script_cache,
     env_undo = \<lparr>ue_fPruneMode = False, ue_CheckDiskSpace = (\<lambda>n. True), ue_fully_valid = (\<lambda>pk. drop 33 pk = replicate 32 0),
       ue_MessageStart = [0xf9, 0xbe, 0xb4, 0xd9]\<rparr>,
     hashAssumeValid = uint256_null, env_nMinimumChainWork = au_zero, nScriptCheckThreads = 0, fTxIndex = False\<rparr>"

abbreviation reward_view :: "cash_db CCashViewCache CCashViewCache" where
  "reward_view \<equiv> SetBestBlock (replicate 32 1) example_view"

lemma reward_tx_simps:
  "vin reward_tx = [\<lparr>prevout = COutPoint_null, scriptSig = [1, 1], nSequence = 0, scriptWitness = []\<rparr>]"
  "vout reward_tx = [\<lparr>nValue = 50 * CASH, scriptPubKey = [OP_1]\<rparr>]" "IsCashBase reward_tx"
  by (simp_all add: reward_tx_def CTransaction_of_def CMutableTransaction.defs IsCashBase_def COutPoint_IsNull_def COutPoint_null_def)

lemma reward_block_simps: "vtx reward_block = [reward_tx]" "fChecked reward_block"
  by (simp_all add: reward_block_def)

lemma reward_not_genesis: "reward_hash \<noteq> hashGenesisBlock reward_params"
proof -
  have "length reward_hash = 32" by (simp add: CBlockHeader_GetHash_def)
  then obtain b bs where "reward_hash = b # bs" by (cases reward_hash) auto
  moreover have "b \<noteq> NOT b" using bit.conj_cancel_right [of b] by (metis and.idem bit.compl_zero bit.double_compl and_zero_eq one_neq_zero word_of_int_neg_1 neg_equal_0_iff_equal)
  ultimately show ?thesis by (simp add: reward_params_def)
qed

lemma reward_proper: "proper_block reward_block"
proof -
  have "length (SerializeTransaction False reward_tx) * WITNESS_SCALE_FACTOR \<le> MAX_BLOCK_WEIGHT"
    using SerializeTransaction_size [of reward_tx]
    by (simp add: reward_tx_simps COutPoint_null_def uint256_null_def WITNESS_SCALE_FACTOR_def MAX_BLOCK_WEIGHT_def)
  then have "CheckTransaction reward_tx True = Inr ()"
    using reward_tx_simps(3) by (simp add: CheckTransaction_def reward_tx_simps MAX_MONEY_def CASH_def MoneyRange_def in_s64_def Let_def)
  then show ?thesis
    by (simp add: proper_block_def reward_block_simps reward_tx_simps size_ok_def MAX_INPUTS_PER_BLOCK_eq)
qed

lemma reward_view_facts: "block_inv reward_view" "block_utxo reward_view = [out_at uint256_null 1 \<mapsto> example_cash]"
  using example_view_inv example_view_utxo by simp_all

lemma reward_sound: "utxo_sound (block_utxo reward_view)"
  by (auto simp: example_view_utxo utxo_sound_def utxo_wf_def example_cash_def cash_ok_def MoneyRange_def MAX_MONEY_def
      CASH_def IsUnspendable_def Cash_new_def Cash_IsSpent_def CTxOut_IsNull_def split: if_splits)

abbreviation reward_store :: block_store where
  "reward_store \<equiv> blocks (cs_index reward_state)"

lemma reward_store_simps:
  "length reward_store = 2" "phashBlock (reward_store ! 1) = Some reward_hash" "pprev (reward_store ! 1) = Some 0"
  "nHeight (reward_store ! 1) = 1" "nHeight (reward_store ! 0) = 0" "GetBlockHash (reward_store ! 0) = replicate 32 1"
  "GetUndoPos (reward_store ! 1) = CDiskBlockPos_null" "bi_nFile (reward_store ! 1) = 0"
  by (simp_all add: reward_state_def block_index_empty_def CBlockIndex_null_def GetBlockHash_def GetUndoPos_def BLOCK_HAVE_UNDO_def)

lemma reward_bip30: "fEnforceBIP30 reward_params reward_store 1 = Inr True"
  using reward_store_simps
  by (simp add: fEnforceBIP30_def GetAncestor_def reward_params_def segwit_params_def example_params_def)

lemma reward_version_bits: "VersionBitsState st prev reward_params d vbc = Some (Inr (THRESHOLD_ACTIVE, vbc))"
  by (simp add: VersionBitsState_def GetStateFor_def VersionBitsConditionChecker_def reward_params_def segwit_params_def)

lemma reward_flags: "\<exists>flags. GetBlockScriptFlags st p reward_params vbc = Some (Inr (flags, vbc))"
  by (simp add: GetBlockScriptFlags_def reward_version_bits IsWitnessEnabled_def Let_def)

lemma reward_sigops: "GetTransactionSigOpCost V reward_tx c flags = Inr (0, c)"
proof -
  have "GetSigOpCount False [1, 1] = 0" "GetSigOpCount False [OP_1] = 0" by code_simp+
  then show ?thesis using reward_tx_simps by (simp add: GetTransactionSigOpCost_def GetLegacySigOpCount_def)
qed

lemma reward_fits: "tx_fits reward_tx (block_utxo reward_view)"
  using reward_tx_simps by (auto simp: tx_fits_def example_view_utxo CASH_def out_at_def)

lemma reward_undo: "\<exists>bx d. WriteUndoDataForBlock (env_undo reward_env) [] 1 (cs_index reward_state, cs_disk reward_state) = Inr (bx, d)"
  using reward_store_simps
  by (simp add: WriteUndoDataForBlock_def FindUndoPos_def UndoWriteToDisk_def OpenUndoFile_def Serialize_CBlockUndo_def
      CDiskBlockPos_IsNull_def CDiskBlockPos_null_def Let_def reward_state_def UNDOFILE_CHUNK_SIZE_def WriteCompactSize_def
      ser_writedata8_def)

lemma reward_subsidy: "GetBlockSubsidy 1 reward_params = 50 * CASH"
  by (simp add: GetBlockSubsidy_def reward_params_def segwit_params_def example_params_def signed_divide_int_def)

lemma reward_finish:
  assumes "ctx_pindex ctx = 1" "ctx_st ctx = reward_store" "\<not> ctx_fJustCheck ctx" "ca_nFees a = 0" "ca_control a = []"
    "ca_vtxundo a = []" "cs_index s = cs_index reward_state" "cs_disk s = cs_disk reward_state"
  shows "\<exists>r. finish_block reward_env reward_params ctx reward_block a s = Inr r"
proof -
  obtain bx d where u: "WriteUndoDataForBlock (env_undo reward_env) [] 1 (cs_index reward_state, cs_disk reward_state) = Inr (bx, d)"
    using reward_undo by blast
  have v: "GetValueOut (vtx reward_block ! 0) = Some (50 * CASH)"
    by (simp add: reward_block_simps GetValueOut_def reward_tx_simps CASH_def MoneyRange_def MAX_MONEY_def in_s64_def Let_def)
  obtain valid where i: "IsValid BLOCK_VALID_SCRIPTS (blocks bx ! 1) = Inr valid"
    by (cases "IsValid BLOCK_VALID_SCRIPTS (blocks bx ! 1)") (auto simp: IsValid_def flag_defs split: if_splits)
  obtain r b where b: "RaiseValidity BLOCK_VALID_SCRIPTS (blocks bx ! 1) = Inr (r, b)"
    by (cases "RaiseValidity BLOCK_VALID_SCRIPTS (blocks bx ! 1)") (auto simp: RaiseValidity_def flag_defs split: if_splits)
  have "s64 (50 * CASH) = 50 * CASH" by (simp add: CASH_def in_s64_def)
  then show ?thesis
    using assms u v i b reward_subsidy reward_store_simps(4) by (simp add: finish_block_def Let_def)
qed

lemma reward_txs:
  assumes "ctx_pindex ctx = 1" "ctx_st ctx = reward_store" "block_inv c" "block_utxo c = block_utxo reward_view"
  shows "\<exists>c'. connect_txs reward_env (tip_view (\<lambda>_. False)) ctx True [reward_tx]
      \<lparr>ca_view = c, ca_cache = (), ca_nFees = 0, ca_nSigOpsCost = 0, ca_control = [], ca_vtxundo = []\<rparr> =
    Inr \<lparr>ca_view = c', ca_cache = (), ca_nFees = 0, ca_nSigOpsCost = 0, ca_control = [], ca_vtxundo = []\<rparr>"
proof -
  obtain c' where "UpdateCash (tip_view (\<lambda>_. False)) reward_tx 1 c = Inr (tx_undo reward_tx (block_utxo c), c')"
    using tip.UpdateCash_spec [OF assms(3), of reward_tx "\<lambda>_. False" 1] reward_fits assms(4) by auto
  then show ?thesis
    using reward_tx_simps(3) reward_store_simps(4) assms(1,2)
    by (simp add: connect_tx_def connect_inputs_def connect_scripts_def reward_sigops Let_def MAX_BLOCK_SIGOPS_COST_def in_s64_def)
qed

lemma reward_connects:
  "\<exists>b c s. ConnectBlock reward_env (tip_view (\<lambda>_. False)) reward_params reward_block 1 False reward_view reward_state =
    Some (Inr (b, c, s))"
proof -
  let ?V = "tip_view (\<lambda>_. False)"
  obtain r c1 where h: "HaveCash ?V (out_at (tx_hash reward_tx) 0) reward_view = (r, c1)" by force
  have c1: "\<not> r" "block_inv c1" "block_utxo c1 = block_utxo reward_view"
    using tip.HaveCash_spec [OF reward_view_facts(1) h] reward_view_facts(2) by (auto simp: out_at_def)
  have bip30: "bip30_txs ?V [reward_tx] reward_view = Inr c1" using h c1(1) by (simp add: reward_tx_simps(2) out_at_def)
  obtain flags where flags: "GetBlockScriptFlags reward_store 1 reward_params (\<lambda>d e. None) = Some (Inr (flags, \<lambda>d e. None))"
    using reward_flags by blast
  have best: "CCashViewCache_GetBestBlock ?V reward_view = (replicate 32 1, reward_view)"
    by (simp add: CCashViewCache_GetBestBlock_def SetBestBlock_def uint256_null_def)
  have "\<exists>r. connect_transactions reward_env ?V reward_params reward_block 1 True False c1 reward_state = Some (Inr r)"
  proof -
    let ?ctx = "\<lparr>ctx_st = reward_store, ctx_pindex = 1, ctx_flags = flags, ctx_nLockTimeFlags = LOCKTIME_VERIFY_SEQUENCE,
      ctx_fScriptChecks = True, ctx_fJustCheck = False\<rparr>"
    have s: "versionbitscache reward_state = (\<lambda>d e. None)" "cs_script_cache reward_state = ()"
      by (simp_all add: reward_state_def)
    obtain c2 where "connect_txs reward_env ?V ?ctx True [reward_tx]
        \<lparr>ca_view = c1, ca_cache = (), ca_nFees = 0, ca_nSigOpsCost = 0, ca_control = [], ca_vtxundo = []\<rparr> =
      Inr \<lparr>ca_view = c2, ca_cache = (), ca_nFees = 0, ca_nSigOpsCost = 0, ca_control = [], ca_vtxundo = []\<rparr>"
      using reward_txs [of ?ctx c1] c1 by auto
    then show ?thesis
      using flags reward_finish [of ?ctx "\<lparr>ca_view = c2, ca_cache = (), ca_nFees = 0, ca_nSigOpsCost = 0, ca_control = [], ca_vtxundo = []\<rparr>"
          "reward_state\<lparr>versionbitscache := \<lambda>d e. None\<rparr>"]
      by (auto simp: connect_transactions_def Let_def reward_version_bits s reward_block_simps(1))
  qed
  then obtain c s where "connect_transactions reward_env ?V reward_params reward_block 1 True False c1 reward_state = Some (Inr (c, s))"
    by auto
  then show ?thesis
    using reward_store_simps reward_not_genesis best bip30 reward_bip30 reward_block_simps
    by (simp add: ConnectBlock_def CheckBlock_def Let_def script_checks_needed_def reward_env_def [THEN arg_cong, of hashAssumeValid])
qed

theorem ConnectBlock_conserves_value_witness:
  "\<exists>b c s. ConnectBlock reward_env (tip_view (\<lambda>_. False)) reward_params reward_block 1 False reward_view reward_state =
      Some (Inr (b, c, s)) \<and> total_value (block_utxo c) \<le> 7 + 50 * CASH"
proof -
  obtain b c s where c: "ConnectBlock reward_env (tip_view (\<lambda>_. False)) reward_params reward_block 1 False reward_view reward_state =
      Some (Inr (b, c, s))" using reward_connects by blast
  have "total_value (block_utxo reward_view) = 7" by (simp add: example_view_utxo total_value_def value_at_def example_cash_def)
  then show ?thesis
    using c reward_subsidy ConnectBlock_conserves_value [OF reward_view_facts(1) _ reward_proper c reward_not_genesis] reward_bip30
      reward_store_simps(4) reward_view_facts(2) by auto
qed

theorem connect_disconnect_restores_witness:
  "\<exists>b c s undo c'. ConnectBlock reward_env (tip_view (\<lambda>_. False)) reward_params reward_block 1 False reward_view reward_state =
      Some (Inr (b, c, s)) \<and>
    UndoReadFromDisk (\<lambda>pk. Some (0x04 # drop 1 pk @ replicate 32 0)) (blocks (cs_index s)) 1 (rev_files (cs_disk s)) = Inr (Some undo) \<and>
    DisconnectBlock (tip_view (\<lambda>_. False)) (blocks (cs_index s)) reward_block 1 (Some undo) c = Inr (DISCONNECT_OK, c') \<and>
    block_utxo c' = [out_at uint256_null 1 \<mapsto> example_cash]"
proof -
  obtain b c s where c: "ConnectBlock reward_env (tip_view (\<lambda>_. False)) reward_params reward_block 1 False reward_view reward_state =
      Some (Inr (b, c, s))" using reward_connects by blast
  have ops: "pubkey_ops_ok (ue_fully_valid (env_undo reward_env)) (\<lambda>pk. Some (0x04 # drop 1 pk @ replicate 32 0))"
    using example_pubkey_ops by (simp add: reward_env_def)
  have "\<exists>undo c'. UndoReadFromDisk (\<lambda>pk. Some (0x04 # drop 1 pk @ replicate 32 0)) (blocks (cs_index s)) 1 (rev_files (cs_disk s)) = Inr (Some undo) \<and>
    DisconnectBlock (tip_view (\<lambda>_. False)) (blocks (cs_index s)) reward_block 1 (Some undo) c = Inr (DISCONNECT_OK, c') \<and>
    block_inv c' \<and> block_utxo c' = block_utxo reward_view \<and> cv_hashBlock c' = GetBlockHash (reward_store ! 0)"
    using connect_disconnect_restores [OF reward_view_facts(1) reward_sound reward_proper c reward_not_genesis _ _ _ _ _ _ _ _ ops, of 0]
      reward_bip30 reward_store_simps by (simp add: reward_env_def reward_state_def CDiskBlockPos_IsNull_def CDiskBlockPos_null_def)
  then show ?thesis using c reward_view_facts(2) by auto
qed

end
